(* ===== verification/Prelude.thy ===== *)
theory Prelude
  imports Main "HOL-Library.Word" "HOL-Library.Signed_Division"
begin

text \<open>
  Shared vocabulary of the development: the reports a backend function can end in
  (\<open>ereport(ERROR, ...)\<close>), C's fixed-width signed integers as \<open>int\<close> with the
  wrap-around written out, C's truncating division, the overflow-checking helpers of
  PostgreSQL's \<^verbatim>\<open>common/int.h\<close> as a parameter with its documented behaviour, and the
  generic list lemmas the components use.
\<close>

named_theorems money_defs \<open>definitions of the money operators\<close>
named_theorems c_int \<open>facts about C integers: ranges, wrapping, truncating division\<close>

section \<open>Error reports\<close>

datatype errcode =
    ERRCODE_NUMERIC_VALUE_OUT_OF_RANGE
  | ERRCODE_DIVISION_BY_ZERO
  | ERRCODE_FEATURE_NOT_SUPPORTED
  | ERRCODE_INVALID_PARAMETER_VALUE
  | ERRCODE_PROTOCOL_VIOLATION
  | ERRCODE_INTERNAL_ERROR
  | ERRCODE_SYNTAX_ERROR
  | ERRCODE_OUT_OF_MEMORY
  | ERRCODE_CONNECTION_DOES_NOT_EXIST
  | ERRCODE_LOCK_NOT_AVAILABLE
  | ERRCODE_T_R_DEADLOCK_DETECTED
  | ERRCODE_QUERY_CANCELED

datatype elevel = ERROR | FATAL | PANIC

text \<open>
  A report carries its level, its SQLSTATE and the format string of its message. An access
  outside of an object, or through a NULL pointer, has no meaning in C; the models end in
  \<open>Invalid_access\<close> there, so that a theorem about a result rules it out.
\<close>

datatype pg_error =
    Report elevel errcode string
  | Invalid_access string

type_synonym 'a result = "pg_error + 'a"

abbreviation ereport :: "errcode \<Rightarrow> string \<Rightarrow> 'a result" where
  "ereport code msg \<equiv> Inl (Report ERROR code msg)"

abbreviation ereport_fatal :: "errcode \<Rightarrow> string \<Rightarrow> 'a result" where
  "ereport_fatal code msg \<equiv> Inl (Report FATAL code msg)"

definition is_report :: "pg_error \<Rightarrow> bool" where
  "is_report e \<longleftrightarrow> (case e of Report _ _ _ \<Rightarrow> True | Invalid_access _ \<Rightarrow> False)"

lemma is_report_simps [simp]: "is_report (Report l c m)" "\<not> is_report (Invalid_access w)"
  by (simp_all add: is_report_def)

text \<open>Sequencing of statements that may report: a report skips what follows.\<close>

definition and_then :: "'a result \<Rightarrow> ('a \<Rightarrow> 'b result) \<Rightarrow> 'b result" where
  "and_then r k = (case r of Inl e \<Rightarrow> Inl e | Inr x \<Rightarrow> k x)"

lemma and_then_simps [simp]:
  "and_then (Inl e) k = Inl e"
  "and_then (Inr x) k = k x"
  by (simp_all add: and_then_def)

lemma and_then_cong [fundef_cong]:
  "r = r' \<Longrightarrow> (\<And>x. r' = Inr x \<Longrightarrow> k x = k' x) \<Longrightarrow> and_then r k = and_then r' k'"
  by (cases r') simp_all

lemma and_then_Inr_iff:
  "and_then r k = Inr y \<longleftrightarrow> (\<exists>x. r = Inr x \<and> k x = Inr y)"
  by (cases r) simp_all

lemma and_then_InrE:
  assumes "and_then r k = Inr y"
  obtains x where "r = Inr x" and "k x = Inr y"
  using assms by (auto simp: and_then_Inr_iff)

section \<open>Signed integers of a given width\<close>

definition in_s :: "nat \<Rightarrow> int \<Rightarrow> bool" where
  "in_s w x \<longleftrightarrow> - (2 ^ (w - 1)) \<le> x \<and> x < 2 ^ (w - 1)"

definition wrap_s :: "nat \<Rightarrow> int \<Rightarrow> int" where
  "wrap_s w x = (x + 2 ^ (w - 1)) mod 2 ^ w - 2 ^ (w - 1)"

abbreviation int16 :: "int \<Rightarrow> bool" where "int16 \<equiv> in_s 16"
abbreviation int32 :: "int \<Rightarrow> bool" where "int32 \<equiv> in_s 32"
abbreviation int64 :: "int \<Rightarrow> bool" where "int64 \<equiv> in_s 64"
abbreviation int128 :: "int \<Rightarrow> bool" where "int128 \<equiv> in_s 128"

abbreviation to_int16 :: "int \<Rightarrow> int" where "to_int16 \<equiv> wrap_s 16"
abbreviation to_int32 :: "int \<Rightarrow> int" where "to_int32 \<equiv> wrap_s 32"
abbreviation to_int64 :: "int \<Rightarrow> int" where "to_int64 \<equiv> wrap_s 64"
abbreviation to_int128 :: "int \<Rightarrow> int" where "to_int128 \<equiv> wrap_s 128"

definition INT32_MIN :: int where "INT32_MIN = - 2147483648"
definition INT32_MAX :: int where "INT32_MAX = 2147483647"
definition INT64_MIN :: int where "INT64_MIN = - 9223372036854775808"
definition INT64_MAX :: int where "INT64_MAX = 9223372036854775807"

lemma in_s_wrap_s [simp, intro]:
  assumes "0 < w"
  shows "in_s w (wrap_s w x)"
proof -
  have "(2::int) ^ w = 2 * 2 ^ (w - 1)"
    using assms by (cases w) simp_all
  moreover have "0 \<le> (x + 2 ^ (w - 1)) mod 2 ^ w" "(x + 2 ^ (w - 1)) mod 2 ^ w < 2 ^ w"
    by simp_all
  ultimately show ?thesis
    unfolding in_s_def wrap_s_def by linarith
qed

lemma wrap_s_id [simp]:
  assumes "in_s w x" and "0 < w"
  shows "wrap_s w x = x"
proof -
  have "(2::int) ^ w = 2 * 2 ^ (w - 1)"
    using assms(2) by (cases w) simp_all
  then have "0 \<le> x + 2 ^ (w - 1)" "x + 2 ^ (w - 1) < 2 ^ w"
    using assms(1) unfolding in_s_def by linarith+
  then show ?thesis
    unfolding wrap_s_def by simp
qed

lemma wrap_s_eq_iff:
  assumes "0 < w"
  shows "wrap_s w x = x \<longleftrightarrow> in_s w x"
  using assms in_s_wrap_s [of w x] by (metis wrap_s_id)

text \<open>The wrap-around is the one of the library's machine words.\<close>

lemma wrap_s_word64: "wrap_s 64 x = sint (word_of_int x :: 64 word)"
  by (simp add: wrap_s_def signed_take_bit_eq_take_bit_shift take_bit_eq_mod sint_sbintrunc')

lemma wrap_s_word32: "wrap_s 32 x = sint (word_of_int x :: 32 word)"
  by (simp add: wrap_s_def signed_take_bit_eq_take_bit_shift take_bit_eq_mod sint_sbintrunc')

lemma int16_iff [c_int]: "int16 x \<longleftrightarrow> - 32768 \<le> x \<and> x \<le> 32767"
  by (auto simp: in_s_def)

lemma int32_iff [c_int]: "int32 x \<longleftrightarrow> - 2147483648 \<le> x \<and> x \<le> 2147483647"
  by (auto simp: in_s_def)

lemma int64_iff [c_int]: "int64 x \<longleftrightarrow> - 9223372036854775808 \<le> x \<and> x \<le> 9223372036854775807"
  by (auto simp: in_s_def)

lemma int128_iff:
  "int128 x \<longleftrightarrow> - 170141183460469231731687303715884105728 \<le> x
              \<and> x \<le> 170141183460469231731687303715884105727"
  by (auto simp: in_s_def)

lemmas [c_int] = INT32_MIN_def INT32_MAX_def INT64_MIN_def INT64_MAX_def

lemma int16_int32 [c_int]: "int16 x \<Longrightarrow> int32 x"
  by (simp add: int16_iff int32_iff)

lemma int32_int64 [c_int]: "int32 x \<Longrightarrow> int64 x"
  by (simp add: int32_iff int64_iff)

section \<open>Truncating division\<close>

lemma sdiv_nonneg [c_int]: "0 \<le> x \<Longrightarrow> 0 < c \<Longrightarrow> x sdiv c = x div (c::int)"
  by (simp add: signed_divide_int_def sgn_if)

lemma sdiv_neg [c_int]: "x \<le> 0 \<Longrightarrow> 0 < c \<Longrightarrow> x sdiv c = - (- x div (c::int))"
  by (simp add: signed_divide_int_def sgn_if)

lemma smod_nonneg [c_int]: "0 \<le> x \<Longrightarrow> 0 < c \<Longrightarrow> x smod c = x mod (c::int)"
  by (simp add: signed_modulo_int_def sgn_if)

lemma smod_neg [c_int]: "x \<le> 0 \<Longrightarrow> 0 < c \<Longrightarrow> x smod c = - (- x mod (c::int))"
  by (simp add: signed_modulo_int_def sgn_if)

lemma abs_sdiv: "\<bar>x sdiv y\<bar> = \<bar>x\<bar> div \<bar>y :: int\<bar>"
  by (auto simp: signed_divide_int_def abs_mult abs_sgn_eq pos_imp_zdiv_nonneg_iff)

lemma abs_sdiv_le: "\<bar>x sdiv y\<bar> \<le> \<bar>x :: int\<bar>"
  using sdiv_int_range [of x y] by auto

lemma abs_sdiv_half:
  assumes "2 \<le> \<bar>y :: int\<bar>"
  shows "2 * \<bar>x sdiv y\<bar> \<le> \<bar>x\<bar>"
proof -
  have "\<bar>x\<bar> div \<bar>y\<bar> \<le> \<bar>x\<bar> div 2"
    using assms by (intro zdiv_mono2) auto
  then show ?thesis
    by (simp add: abs_sdiv)
qed

lemma int64_sdiv [c_int]:
  assumes "int64 x" and "x \<noteq> INT64_MIN \<or> y \<noteq> - 1"
  shows "int64 (x sdiv y)"
proof (cases "\<bar>y\<bar> \<le> 1")
  case True
  then have "y = 0 \<or> y = 1 \<or> y = - 1" by arith
  with assms show ?thesis by (auto simp: c_int)
next
  case False
  then have "2 * \<bar>x sdiv y\<bar> \<le> \<bar>x\<bar>"
    by (intro abs_sdiv_half) simp
  with assms(1) show ?thesis
    unfolding int64_iff by arith
qed

text \<open>\<open>SAMESIGN\<close> of \<^verbatim>\<open>fixeddecimal.h\<close>.\<close>

definition SAMESIGN :: "int \<Rightarrow> int \<Rightarrow> bool" where
  "SAMESIGN a b \<longleftrightarrow> (a < 0) = (b < 0)"

text \<open>C's \<open>abs\<close> takes and returns a 32-bit \<open>int\<close>.\<close>

definition c_abs :: "int \<Rightarrow> int" where
  "c_abs x = (let y = to_int32 x in to_int32 (if y < 0 then - y else y))"

lemma c_abs_eq: "int32 x \<Longrightarrow> x \<noteq> INT32_MIN \<Longrightarrow> c_abs x = \<bar>x\<bar>"
proof -
  assume "int32 x" "x \<noteq> INT32_MIN"
  then have "int32 \<bar>x\<bar>" by (auto simp: c_int)
  with \<open>int32 x\<close> show ?thesis
    by (auto simp: c_abs_def Let_def abs_if split: if_splits)
qed

section \<open>Overflow-checking helpers of the server\<close>

text \<open>
  \<^verbatim>\<open>common/int.h\<close> belongs to PostgreSQL. The operators call six of its functions; each
  stores a result through a pointer and returns whether it overflowed. They are a
  parameter of the operators, and \<open>pg_int_spec\<close> states what the header documents: the
  flag is set exactly when the mathematical result does not fit, and without overflow the
  stored result is the mathematical one.
\<close>

record pg_int =
  pg_add_s32_overflow :: "int \<Rightarrow> int \<Rightarrow> bool \<times> int"
  pg_sub_s32_overflow :: "int \<Rightarrow> int \<Rightarrow> bool \<times> int"
  pg_mul_s32_overflow :: "int \<Rightarrow> int \<Rightarrow> bool \<times> int"
  pg_add_s64_overflow :: "int \<Rightarrow> int \<Rightarrow> bool \<times> int"
  pg_sub_s64_overflow :: "int \<Rightarrow> int \<Rightarrow> bool \<times> int"
  pg_mul_s64_overflow :: "int \<Rightarrow> int \<Rightarrow> bool \<times> int"

definition overflow_op :: "nat \<Rightarrow> (int \<Rightarrow> int \<Rightarrow> int) \<Rightarrow> (int \<Rightarrow> int \<Rightarrow> bool \<times> int) \<Rightarrow> bool" where
  "overflow_op w f g \<longleftrightarrow>
     (\<forall>a b. in_s w a \<and> in_s w b \<longrightarrow>
        (fst (g a b) \<longleftrightarrow> \<not> in_s w (f a b)) \<and> (in_s w (f a b) \<longrightarrow> snd (g a b) = f a b))"

definition pg_int_spec :: "pg_int \<Rightarrow> bool" where
  "pg_int_spec pg \<longleftrightarrow>
     overflow_op 32 (+) (pg_add_s32_overflow pg) \<and>
     overflow_op 32 (-) (pg_sub_s32_overflow pg) \<and>
     overflow_op 32 (*) (pg_mul_s32_overflow pg) \<and>
     overflow_op 64 (+) (pg_add_s64_overflow pg) \<and>
     overflow_op 64 (-) (pg_sub_s64_overflow pg) \<and>
     overflow_op 64 (*) (pg_mul_s64_overflow pg)"

text \<open>
  An instance: the compiler builtins, which store the wrapped result in every case.
\<close>

definition builtin_overflow :: "nat \<Rightarrow> (int \<Rightarrow> int \<Rightarrow> int) \<Rightarrow> int \<Rightarrow> int \<Rightarrow> bool \<times> int" where
  "builtin_overflow w f a b = (\<not> in_s w (f a b), wrap_s w (f a b))"

definition pg_int_builtin :: pg_int where
  "pg_int_builtin =
     \<lparr>pg_add_s32_overflow = builtin_overflow 32 (+),
      pg_sub_s32_overflow = builtin_overflow 32 (-),
      pg_mul_s32_overflow = builtin_overflow 32 (*),
      pg_add_s64_overflow = builtin_overflow 64 (+),
      pg_sub_s64_overflow = builtin_overflow 64 (-),
      pg_mul_s64_overflow = builtin_overflow 64 (*)\<rparr>"

lemma overflow_op_builtin: "0 < w \<Longrightarrow> overflow_op w f (builtin_overflow w f)"
  by (simp add: overflow_op_def builtin_overflow_def)

lemma pg_int_spec_builtin [simp]: "pg_int_spec pg_int_builtin"
  by (simp add: pg_int_spec_def pg_int_builtin_def overflow_op_builtin)

text \<open>How every caller uses the flag: report on overflow, go on with the result otherwise.\<close>

definition on_overflow :: "bool \<times> int \<Rightarrow> 'a result \<Rightarrow> (int \<Rightarrow> 'a result) \<Rightarrow> 'a result" where
  "on_overflow r err k = (if fst r then err else k (snd r))"

lemma on_overflow_op:
  assumes "overflow_op w f g" and "in_s w a" and "in_s w b"
  shows "on_overflow (g a b) err k = (if in_s w (f a b) then k (f a b) else err)"
  using assms by (auto simp: overflow_op_def on_overflow_def)

lemma on_overflow_laws:
  assumes "pg_int_spec pg"
  shows "int32 a \<Longrightarrow> int32 b \<Longrightarrow>
      on_overflow (pg_add_s32_overflow pg a b) err k = (if int32 (a + b) then k (a + b) else err)"
    and "int32 a \<Longrightarrow> int32 b \<Longrightarrow>
      on_overflow (pg_sub_s32_overflow pg a b) err k = (if int32 (a - b) then k (a - b) else err)"
    and "int32 a \<Longrightarrow> int32 b \<Longrightarrow>
      on_overflow (pg_mul_s32_overflow pg a b) err k = (if int32 (a * b) then k (a * b) else err)"
    and "int64 a \<Longrightarrow> int64 b \<Longrightarrow>
      on_overflow (pg_add_s64_overflow pg a b) err k = (if int64 (a + b) then k (a + b) else err)"
    and "int64 a \<Longrightarrow> int64 b \<Longrightarrow>
      on_overflow (pg_sub_s64_overflow pg a b) err k = (if int64 (a - b) then k (a - b) else err)"
    and "int64 a \<Longrightarrow> int64 b \<Longrightarrow>
      on_overflow (pg_mul_s64_overflow pg a b) err k = (if int64 (a * b) then k (a * b) else err)"
  using assms by (auto simp: pg_int_spec_def on_overflow_op)

end
