(* ===== verification/Money_IO.thy ===== *)
theory Money_IO
  imports Prelude
begin

text \<open>
  Text input and output of \<open>FIXEDDECIMAL\<close>, the 64-bit fixed-point type behind T-SQL's
  \<open>MONEY\<close> and \<open>SMALLMONEY\<close> (\<^verbatim>\<open>contrib/babelfishpg_money/fixeddecimal.c\<close>): the printer
  \<open>fixeddecimal2str\<close> with its digit loops, the scanner \<open>scanfixeddecimal\<close>, and the type
  modifier. A C string is the list of its bytes without the terminating NUL, a pointer into
  it is the suffix it points at, and \<open>*ptr\<close> is \<open>peek\<close>.
\<close>

section \<open>Constants\<close>

definition FIXEDDECIMAL_MULTIPLIER :: int where "FIXEDDECIMAL_MULTIPLIER = 10000"
definition FIXEDDECIMAL_SCALE :: int where "FIXEDDECIMAL_SCALE = 4"
definition FIXEDDECIMAL_ROUNDUP :: int where "FIXEDDECIMAL_ROUNDUP = 5000"
definition FIXEDDECIMAL_MAX_PRECISION :: int where "FIXEDDECIMAL_MAX_PRECISION = 19"

definition FIXEDDECIMAL_MAX :: int where
  "FIXEDDECIMAL_MAX = INT64_MAX sdiv FIXEDDECIMAL_MULTIPLIER"

definition FIXEDDECIMAL_MIN :: int where
  "FIXEDDECIMAL_MIN = INT64_MIN sdiv FIXEDDECIMAL_MULTIPLIER"

text \<open>The server's length-word size, which type modifiers are offset by.\<close>

definition VARHDRSZ :: int where "VARHDRSZ = 4"

section \<open>Characters\<close>

definition peek :: "string \<Rightarrow> char" where
  "peek s = (case s of [] \<Rightarrow> CHR 0x00 | c # _ \<Rightarrow> c)"

definition isdigit :: "char \<Rightarrow> bool" where
  "isdigit c \<longleftrightarrow> 48 \<le> (of_char c :: nat) \<and> (of_char c :: nat) \<le> 57"

definition isspace :: "char \<Rightarrow> bool" where
  "isspace c \<longleftrightarrow> of_char c = (32 :: nat) \<or> 9 \<le> (of_char c :: nat) \<and> (of_char c :: nat) \<le> 13"

definition digit_val :: "char \<Rightarrow> int" where
  "digit_val c = int (of_char c) - 48"

definition digit_char :: "int \<Rightarrow> char" where
  "digit_char d = char_of (nat (48 + d))"

section \<open>Printing\<close>

text \<open>
  The \<open>do ... while (value != 0)\<close> loops of \<open>pg_int64tostr\<close> push the least significant digit
  first; the negative loop flips the sign of each remainder instead of the value's, because
  \<open>- INT64_MIN\<close> is not an \<open>int64\<close>.
\<close>

function int64tostr_loop :: "bool \<Rightarrow> int \<Rightarrow> string" where
  "int64tostr_loop neg oldval =
     (let value = oldval sdiv 10; remainder = oldval - value * 10;
          c = digit_char (if neg then - remainder else remainder)
      in if value \<noteq> 0 then c # int64tostr_loop neg value else [c])"
  by pat_completeness auto
termination
proof (relation "measure (\<lambda>(neg, v). nat \<bar>v\<bar>)")
  fix v u r :: int and c :: char and neg :: bool
  assume "u = v sdiv 10" "u \<noteq> 0"
  moreover have "2 * \<bar>v sdiv 10\<bar> \<le> \<bar>v\<bar>"
    by (rule abs_sdiv_half) simp
  ultimately show "((neg, u), (neg, v)) \<in> measure (\<lambda>(neg, v). nat \<bar>v\<bar>)"
    by auto
qed simp

declare int64tostr_loop.simps [simp del]

text \<open>The swap loop that turns the digits around in place.\<close>

function reverse_in_place :: "'a list \<Rightarrow> nat \<Rightarrow> nat \<Rightarrow> 'a list" where
  "reverse_in_place s start str =
     (if start < str
      then reverse_in_place (s[start := s ! str, str := s ! start]) (start + 1) (str - 1)
      else s)"
  by pat_completeness auto
termination
  by (relation "measure (\<lambda>(s, i, j). j - i)") auto

declare reverse_in_place.simps [simp del]

definition pg_int64tostr :: "int \<Rightarrow> string" where
  "pg_int64tostr value =
     (let cs = int64tostr_loop (value < 0) value;
          ds = reverse_in_place cs 0 (length cs - 1)
      in if value < 0 then CHR ''-'' # ds else ds)"

text \<open>
  \<open>while (padding--)\<close> fills \<open>start[padding]\<close> from the right; the loop returns the filled
  positions and what is left of the number.
\<close>

fun zeropad_loop :: "bool \<Rightarrow> nat \<Rightarrow> int \<Rightarrow> string \<Rightarrow> string \<times> int" where
  "zeropad_loop neg 0 num acc = (acc, num)"
| "zeropad_loop neg (Suc padding) oldval acc =
     (let num = oldval sdiv 10; remainder = oldval - num * 10
      in zeropad_loop neg padding num (digit_char (if neg then - remainder else remainder) # acc))"

definition pg_int64tostr_zeropad :: "int \<Rightarrow> nat \<Rightarrow> string" where
  "pg_int64tostr_zeropad value padding =
     (let (s, num) =
        (if value < 0
         then (let (t, n) = zeropad_loop True (padding - 1) value [] in (CHR ''-'' # t, n))
         else zeropad_loop False padding value [])
      in if num \<noteq> 0 then pg_int64tostr value else s)"

definition round_to_scale :: "int \<Rightarrow> int \<Rightarrow> int" where
  "round_to_scale val fixeddecimal_multiplier =
     (let scale_factor = FIXEDDECIMAL_MULTIPLIER sdiv (fixeddecimal_multiplier * 10);
          last_digit = c_abs (val sdiv scale_factor) smod 10;
          val1 = val sdiv fixeddecimal_multiplier
      in if 5 \<le> last_digit
         then to_int64 (if 0 \<le> val1 then val1 + 1 else val1 - 1)
         else val1)"

definition print_parts :: "int \<Rightarrow> int \<Rightarrow> int \<Rightarrow> string" where
  "print_parts val fixeddecimal_multiplier fixeddecimal_scale =
     (let integralpart = val sdiv fixeddecimal_multiplier;
          fractionalpart = val smod fixeddecimal_multiplier;
          fractionalpart = (if val < 0 then to_int64 (- fractionalpart) else fractionalpart);
          sign = (if val < 0 \<and> integralpart = 0 then [CHR ''-''] else [])
      in sign @ pg_int64tostr integralpart @ [CHR ''.'']
           @ pg_int64tostr_zeropad fractionalpart (nat fixeddecimal_scale))"

definition fixeddecimal2str :: "int \<Rightarrow> int \<Rightarrow> int \<Rightarrow> string" where
  "fixeddecimal2str val fixeddecimal_multiplier fixeddecimal_scale =
     print_parts
       (if fixeddecimal_scale < 4 then round_to_scale val fixeddecimal_multiplier else val)
       fixeddecimal_multiplier fixeddecimal_scale"

definition fixeddecimalout :: "int \<Rightarrow> string" where
  "fixeddecimalout val = fixeddecimal2str val FIXEDDECIMAL_MULTIPLIER FIXEDDECIMAL_SCALE"

section \<open>Scanning\<close>

definition valid_currency_symbols :: "string list" where
  "valid_currency_symbols =
    [[CHR 0x24], [CHR 0xC2, CHR 0xA2], [CHR 0xC2, CHR 0xA4], [CHR 0xC2, CHR 0xA3],
     [CHR 0xC2, CHR 0xA5],
     [CHR 0xE0, CHR 0xA7, CHR 0xB2], [CHR 0xE0, CHR 0xA7, CHR 0xB3], [CHR 0xE0, CHR 0xB8, CHR 0xBF],
     [CHR 0xE1, CHR 0x9F, CHR 0x9B],
     [CHR 0xE2, CHR 0x82, CHR 0xA0], [CHR 0xE2, CHR 0x82, CHR 0xA1], [CHR 0xE2, CHR 0x82, CHR 0xA2],
     [CHR 0xE2, CHR 0x82, CHR 0xA3], [CHR 0xE2, CHR 0x82, CHR 0xA4], [CHR 0xE2, CHR 0x82, CHR 0xA5],
     [CHR 0xE2, CHR 0x82, CHR 0xA6], [CHR 0xE2, CHR 0x82, CHR 0xA7], [CHR 0xE2, CHR 0x82, CHR 0xA8],
     [CHR 0xE2, CHR 0x82, CHR 0xA9], [CHR 0xE2, CHR 0x82, CHR 0xAA], [CHR 0xE2, CHR 0x82, CHR 0xAB],
     [CHR 0xE2, CHR 0x82, CHR 0xAC], [CHR 0xE2, CHR 0x82, CHR 0xAD], [CHR 0xE2, CHR 0x82, CHR 0xAE],
     [CHR 0xE2, CHR 0x82, CHR 0xAF], [CHR 0xE2, CHR 0x82, CHR 0xB0], [CHR 0xE2, CHR 0x82, CHR 0xB1],
     [CHR 0xEF, CHR 0xB7, CHR 0xBC], [CHR 0xEF, CHR 0xB9, CHR 0xA9], [CHR 0xEF, CHR 0xBC, CHR 0x84],
     [CHR 0xEF, CHR 0xBF, CHR 0xA0], [CHR 0xEF, CHR 0xBF, CHR 0xA1], [CHR 0xEF, CHR 0xBF, CHR 0xA5],
     [CHR 0xEF, CHR 0xBF, CHR 0xA6]]"

fun currency_loop :: "string list \<Rightarrow> string \<Rightarrow> nat" where
  "currency_loop [] ptr = 0"
| "currency_loop (symbol # symbols) ptr =
     (if take (length symbol) ptr = symbol then length symbol else currency_loop symbols ptr)"

definition is_valid_currency_symbol :: "string \<Rightarrow> nat" where
  "is_valid_currency_symbol ptr = currency_loop valid_currency_symbols ptr"

fun skip_money_spaces :: "string \<Rightarrow> string" where
  "skip_money_spaces [] = []"
| "skip_money_spaces (c # cs) =
     (if isspace c \<or> c = CHR 0xA0 then skip_money_spaces cs
      else if c = CHR 0xC2 \<and> peek cs = CHR 0xA0 then skip_money_spaces (drop 1 cs)
      else c # cs)"

text \<open>The check of the leading blanks: no NBSP in the skipped prefix, unless nothing follows.\<close>

fun nbsp_within :: "nat \<Rightarrow> string \<Rightarrow> bool" where
  "nbsp_within 0 check = False"
| "nbsp_within (Suc n) check =
     (peek check = CHR 0xA0 \<or> peek check = CHR 0xC2 \<and> peek (tl check) = CHR 0xA0
      \<or> nbsp_within n (tl check))"

definition leading_nbsp :: "string \<Rightarrow> string \<Rightarrow> bool" where
  "leading_nbsp original ptr \<longleftrightarrow>
     length ptr < length original \<and> ptr \<noteq> [] \<and> nbsp_within (length original - length ptr) original"

text \<open>\<open>while (*ptr == ',') ptr++;\<close>\<close>

fun skip_commas :: "string \<Rightarrow> string" where
  "skip_commas [] = []"
| "skip_commas (c # cs) = (if c = CHR '','' then skip_commas cs else c # cs)"

lemma length_skip_commas [simp, termination_simp]: "length (skip_commas s) \<le> length s"
  by (induction s) auto

lemma length_skip_commas_less [termination_simp]:
  "length (skip_commas s) < Suc (length s)"
  by (simp add: le_imp_less_Suc)

abbreviation err_invalid_characters :: "'a result" where
  "err_invalid_characters \<equiv> ereport ERRCODE_NUMERIC_VALUE_OUT_OF_RANGE
     ''invalid characters found: cannot cast value \"%s\" to money''"

abbreviation err_value_range :: "'a result" where
  "err_value_range \<equiv> ereport ERRCODE_NUMERIC_VALUE_OUT_OF_RANGE
     ''value \"%s\" is out of range for type fixeddecimal''"

text \<open>
  The digit loop of the integral part. It accumulates with the sign of the number, wraps,
  and compares \<open>tmp / 10\<close> with the previous value to see an overflow.
\<close>

fun scan_integral :: "bool \<Rightarrow> int \<Rightarrow> nat \<Rightarrow> string \<Rightarrow> (int \<times> nat \<times> string) result" where
  "scan_integral negative integralpart vprecision [] = Inr (integralpart, vprecision, [])"
| "scan_integral negative integralpart vprecision (c # cs) =
     (if isdigit c
      then (let tmp = to_int64 (to_int64 (integralpart * 10)
                        + (if negative then - digit_val c else digit_val c))
            in if tmp sdiv 10 \<noteq> integralpart then err_value_range
               else scan_integral negative tmp (Suc vprecision) (skip_commas cs))
      else Inr (integralpart, vprecision, c # cs))"

text \<open>The digits the type has room for, each worth a tenth of the previous one.\<close>

fun scan_fraction :: "int \<Rightarrow> int \<Rightarrow> nat \<Rightarrow> string \<Rightarrow> int \<times> nat \<times> string" where
  "scan_fraction multiplier fractionalpart vscale [] = (fractionalpart, vscale, [])"
| "scan_fraction multiplier fractionalpart vscale (c # cs) =
     (if isdigit c \<and> 1 < multiplier
      then (let multiplier = multiplier sdiv 10
            in scan_fraction multiplier (fractionalpart + digit_val c * multiplier)
                 (Suc vscale) (skip_commas cs))
      else (fractionalpart, vscale, c # cs))"

text \<open>Digits beyond the scale: the first rounds half away from zero, the rest are eaten.\<close>

fun eat_digits :: "nat \<Rightarrow> string \<Rightarrow> nat \<times> string" where
  "eat_digits vscale [] = (vscale, [])"
| "eat_digits vscale (c # cs) =
     (if isdigit c then eat_digits (Suc vscale) (skip_commas cs) else (vscale, c # cs))"

definition scan_point :: "string \<Rightarrow> int \<times> nat \<times> string" where
  "scan_point ptr =
     (if peek ptr = CHR ''.''
      then (let (fractionalpart, vscale, ptr) =
                  scan_fraction FIXEDDECIMAL_MULTIPLIER 0 0 (skip_commas (tl ptr));
                ptr = skip_commas ptr;
                (fractionalpart, vscale, ptr) =
                  (if isdigit (peek ptr) \<and> 5 \<le> digit_val (peek ptr)
                   then (fractionalpart + 1, Suc vscale, skip_commas (tl ptr))
                   else (fractionalpart, vscale, ptr));
                (vscale, ptr) = eat_digits vscale ptr
            in (fractionalpart, vscale, skip_commas ptr))
      else (0, 0, ptr))"

text \<open>
  Putting the two parts together. The build has no \<open>HAVE_BUILTIN_OVERFLOW\<close> (the header
  leaves it commented out), so the sign tests decide whether the product overflowed.
\<close>

definition assemble :: "bool \<Rightarrow> int \<Rightarrow> int \<Rightarrow> int result" where
  "assemble negative integralpart fractionalpart =
     (let value = to_int64 (integralpart * FIXEDDECIMAL_MULTIPLIER)
      in if negative
         then (if value \<noteq> 0 \<and> (\<not> SAMESIGN value integralpart \<or>
                                 \<not> SAMESIGN (to_int64 (value - fractionalpart)) value \<or>
                                 \<not> SAMESIGN (to_int64 (value - fractionalpart)) value)
               then err_value_range else Inr (to_int64 (value - fractionalpart)))
         else (if value \<noteq> 0 \<and> (\<not> SAMESIGN value integralpart \<or>
                                 \<not> SAMESIGN (to_int64 (value - fractionalpart)) value \<or>
                                 \<not> SAMESIGN (to_int64 (value + fractionalpart)) value)
               then err_value_range else Inr (to_int64 (value + fractionalpart))))"

text \<open>Everything after the sign and the currency symbol.\<close>

definition scan_number :: "bool \<Rightarrow> string \<Rightarrow> (int \<times> nat \<times> nat) result" where
  "scan_number negative ptr =
     (case scan_integral negative 0 0 (skip_commas (skip_money_spaces ptr)) of
        Inl e \<Rightarrow> Inl e
      | Inr (integralpart, vprecision, ptr) \<Rightarrow>
          (let (fractionalpart, vscale, ptr) = scan_point ptr
           in if skip_money_spaces ptr \<noteq> [] then err_value_range
              else (case assemble negative integralpart fractionalpart of
                      Inl e \<Rightarrow> Inl e
                    | Inr value \<Rightarrow> Inr (value, vprecision, vscale))))"

definition scan_currency :: "string \<Rightarrow> string" where
  "scan_currency ptr =
     (let n = is_valid_currency_symbol ptr
      in if 0 < n then drop n ptr else if peek ptr = CHR 0x5C then tl ptr else ptr)"

text \<open>
  \<open>scanfixeddecimal\<close> returns the value and, through its out parameters, the number of
  integral and fractional digits. The soft-error context of \<open>ereturn\<close> is NULL here: an
  error ends the call.
\<close>

definition scanfixeddecimal :: "string \<Rightarrow> (int \<times> nat \<times> nat) result" where
  "scanfixeddecimal str =
     (let ptr = skip_money_spaces str
      in if leading_nbsp str ptr then err_invalid_characters
         else
           (let (has_seen_sign, negative, ptr) =
                  (if peek ptr = CHR ''-'' then (True, True, tl ptr)
                   else if peek ptr = CHR ''+'' then (True, False, tl ptr)
                   else (False, False, ptr));
                ptr = skip_money_spaces (scan_currency (skip_money_spaces ptr));
                c = peek ptr
            in if \<not> isdigit c \<and> c \<noteq> CHR ''.'' \<and> c \<noteq> CHR ''-'' \<and> c \<noteq> CHR '','' \<and> c \<noteq> CHR ''+''
                  \<and> c \<noteq> CHR 0x00 then err_invalid_characters
               else if c = CHR ''-'' then
                 (if has_seen_sign then err_invalid_characters else scan_number True (tl ptr))
               else if c = CHR ''+'' then
                 (if has_seen_sign then err_invalid_characters
                  else scan_number False (tl ptr))
               else scan_number (if has_seen_sign then negative else False) ptr))"

definition char_to_fixeddecimal :: "string \<Rightarrow> int result" where
  "char_to_fixeddecimal str =
     (case scanfixeddecimal str of Inl e \<Rightarrow> Inl e | Inr (result, precision, scale) \<Rightarrow> Inr result)"

section \<open>Type modifiers\<close>

unbundle bit_operations_syntax

definition apply_typmod :: "int \<Rightarrow> nat \<Rightarrow> nat \<Rightarrow> unit result" where
  "apply_typmod typmod0 precision scale =
     (if typmod0 < VARHDRSZ then Inr ()
      else
        (let typmod = typmod0 - VARHDRSZ;
             precisionlimit = drop_bit 16 typmod AND 0xffff;
             scalelimit = typmod AND 0xffff;
             maxdigits = precisionlimit - scalelimit
         in if scalelimit < int scale \<and> int scale \<noteq> FIXEDDECIMAL_SCALE
            then ereport ERRCODE_FEATURE_NOT_SUPPORTED ''FIXEDDECIMAL scale must be %d''
            else if maxdigits < int precision
            then ereport ERRCODE_NUMERIC_VALUE_OUT_OF_RANGE ''FIXEDDECIMAL field overflow''
            else Inr ()))"

definition fixeddecimalin :: "string \<Rightarrow> int \<Rightarrow> int result" where
  "fixeddecimalin str typmod =
     (case scanfixeddecimal str of
        Inl e \<Rightarrow> Inl e
      | Inr (result, precision, scale) \<Rightarrow>
          (case apply_typmod typmod precision scale of Inl e \<Rightarrow> Inl e | Inr _ \<Rightarrow> Inr result))"

text \<open>
  The server hands over the modifiers of the type name as an array of integers
  (\<open>ArrayGetIntegerTypmods\<close>); the list is that array.
\<close>

definition fixeddecimaltypmodin :: "int list \<Rightarrow> int result" where
  "fixeddecimaltypmodin ta =
     (case ta of
        [p, s] \<Rightarrow>
          (if p < FIXEDDECIMAL_SCALE \<or> FIXEDDECIMAL_MAX_PRECISION < p
           then ereport ERRCODE_INVALID_PARAMETER_VALUE
                  ''FIXEDDECIMAL precision %d must be between %d and %d''
           else if s \<noteq> FIXEDDECIMAL_SCALE
           then ereport ERRCODE_FEATURE_NOT_SUPPORTED ''FIXEDDECIMAL scale must be %d''
           else Inr ((push_bit 16 p OR s) + VARHDRSZ))
      | [t] \<Rightarrow>
          (let val_precision = drop_bit 16 (t - VARHDRSZ) AND 0xffff;
               val_scale = (t - VARHDRSZ) AND 0xffff
           in if val_precision < FIXEDDECIMAL_SCALE \<or> FIXEDDECIMAL_MAX_PRECISION < val_precision
              then ereport ERRCODE_INVALID_PARAMETER_VALUE
                     ''FIXEDDECIMAL precision %d must be between %d and %d''
              else if val_scale \<noteq> FIXEDDECIMAL_SCALE
              then ereport ERRCODE_FEATURE_NOT_SUPPORTED ''FIXEDDECIMAL scale must be %d''
              else Inr ((push_bit 16 val_precision OR val_scale) + VARHDRSZ))
      | _ \<Rightarrow> ereport ERRCODE_INVALID_PARAMETER_VALUE ''invalid FIXEDDECIMAL type modifier'')"

text \<open>\<open>snprintf("(%d,%d)")\<close>: both numbers are masked to 16 bits, so non-negative.\<close>

fun dec :: "nat \<Rightarrow> string" where
  "dec n = (if n < 10 then [digit_char (int n)] else dec (n div 10) @ [digit_char (int (n mod 10))])"

declare dec.simps [simp del]

definition fixeddecimaltypmodout :: "int \<Rightarrow> string" where
  "fixeddecimaltypmodout typmod =
     (if 0 \<le> typmod
      then CHR ''('' # dec (nat (drop_bit 16 (typmod - VARHDRSZ) AND 0xffff)) @
           CHR '','' # dec (nat ((typmod - VARHDRSZ) AND 0xffff)) @ '')''
      else [])"

text \<open>The cast of the type to itself, which only checks the new modifier.\<close>

definition fixeddecimal :: "int \<Rightarrow> int \<Rightarrow> int result" where
  "fixeddecimal num typmod =
     (if typmod \<noteq> - 1
      then (case fixeddecimalin (fixeddecimalout num) typmod of Inl e \<Rightarrow> Inl e | Inr _ \<Rightarrow> Inr num)
      else Inr num)"

section \<open>Reference notions\<close>

text \<open>The last \<open>k\<close> decimal digits of \<open>n\<close>.\<close>

fun pad :: "nat \<Rightarrow> nat \<Rightarrow> string" where
  "pad 0 n = []"
| "pad (Suc k) n = pad k (n div 10) @ [digit_char (int (n mod 10))]"

text \<open>The number a digit string denotes, read after \<open>a\<close>.\<close>

definition horner :: "int \<Rightarrow> string \<Rightarrow> int" where
  "horner a ds = foldl (\<lambda>a c. a * 10 + digit_val c) a ds"

abbreviation digits :: "string \<Rightarrow> bool" where
  "digits ds \<equiv> list_all isdigit ds"

text \<open>Four fractional digits, the fifth rounding half away from zero.\<close>

definition round4 :: "string \<Rightarrow> int" where
  "round4 fs = horner 0 (take 4 fs) * 10 ^ (4 - length fs)
     + (if 4 < length fs \<and> 5 \<le> digit_val (fs ! 4) then 1 else 0)"

text \<open>A decimal literal: an optional minus sign, digits, a point, digits.\<close>

definition literal :: "bool \<Rightarrow> string \<Rightarrow> string \<Rightarrow> string" where
  "literal neg ds fs = (if neg then ''-'' else []) @ ds @ CHR ''.'' # fs"

text \<open>The type modifier of a money type with precision \<open>p\<close> and scale 4.\<close>

abbreviation money_typmod :: "int \<Rightarrow> int" where
  "money_typmod p \<equiv> p * 65536 + 8"

section \<open>Facts about the printer\<close>

lemma reverse_in_place_length: "length (reverse_in_place s i j) = length s"
proof (induction s i j rule: reverse_in_place.induct)
  case (1 s i j)
  then show ?case by (simp add: reverse_in_place.simps [of s i j])
qed

lemma reverse_in_place_nth:
  "j < length s \<Longrightarrow> k < length s \<Longrightarrow>
     reverse_in_place s i j ! k = (if i \<le> k \<and> k \<le> j then s ! (i + j - k) else s ! k)"
proof (induction s i j rule: reverse_in_place.induct)
  case (1 s i j)
  show ?case
  proof (cases "i < j")
    case True
    let ?t = "s[i := s ! j, j := s ! i]"
    have IH: "reverse_in_place ?t (i + 1) (j - 1) ! k =
        (if i + 1 \<le> k \<and> k \<le> j - 1 then ?t ! (i + 1 + (j - 1) - k) else ?t ! k)"
      using 1 True by (intro "1.IH") auto
    have sum: "i + 1 + (j - 1) = i + j" using True by simp
    consider "k < i" | "k = i" | "i < k" "k < j" | "k = j" | "j < k" by linarith
    then show ?thesis
      using True "1.prems" IH sum
      by cases (auto simp: reverse_in_place.simps [of s i j] nth_list_update)
  next
    case False
    then have "i \<le> k \<and> k \<le> j \<longrightarrow> i + j - k = k" by auto
    with False show ?thesis by (auto simp: reverse_in_place.simps [of s i j])
  qed
qed

lemma reverse_in_place_rev: "reverse_in_place s 0 (length s - 1) = rev s"
proof (cases "s = []")
  case True
  then show ?thesis by (simp add: reverse_in_place.simps)
next
  case False
  then show ?thesis
    by (intro nth_equalityI)
       (auto simp: reverse_in_place_length reverse_in_place_nth rev_nth Suc_diff_Suc)
qed

lemma int64tostr_loop_dec:
  "(if neg then v \<le> 0 else 0 \<le> v) \<Longrightarrow> int64tostr_loop neg v = rev (dec (nat \<bar>v\<bar>))"
proof (induction neg v rule: int64tostr_loop.induct)
  case (1 neg v)
  let ?n = "nat \<bar>v\<bar>"
  have q: "nat \<bar>v sdiv 10\<bar> = ?n div 10"
    by (simp add: abs_sdiv nat_div_distrib)
  have r: "(if neg then - (v - v sdiv 10 * 10) else v - v sdiv 10 * 10) = int (?n mod 10)"
    using "1.prems"
    by (auto simp: sdiv_neg sdiv_nonneg minus_div_mult_eq_mod zmod_int split: if_splits)
  have sg: "if neg then v sdiv 10 \<le> 0 else 0 \<le> v sdiv 10"
    using "1.prems" by (auto simp: sdiv_neg sdiv_nonneg pos_imp_zdiv_nonneg_iff split: if_splits)
  have z: "v sdiv 10 = 0 \<longleftrightarrow> ?n < 10"
    using q by (metis abs_eq_0 div_eq_0_iff nat_0_iff abs_ge_zero antisym_conv nat_eq_iff2 of_nat_0 zero_neq_numeral)
  show ?case
    using "1.IH" [OF refl refl refl] sg q r z
    by (simp add: int64tostr_loop.simps [of neg v] dec.simps [of ?n] Let_def)
qed

lemma pg_int64tostr_dec:
  "pg_int64tostr v = (if v < 0 then CHR ''-'' # dec (nat (- v)) else dec (nat v))"
  by (simp add: pg_int64tostr_def Let_def int64tostr_loop_dec
      reverse_in_place_rev [of "rev _", simplified])

lemma zeropad_loop_pad:
  "zeropad_loop False k (int n) acc = (pad k n @ acc, int (n div 10 ^ k))"
proof (induction k arbitrary: n acc)
  case (Suc k)
  have "int n sdiv 10 = int (n div 10)"
    by (simp add: sdiv_nonneg zdiv_int)
  moreover have "int n - int (n div 10) * 10 = int (n mod 10)"
    by (simp add: zdiv_int zmod_int minus_div_mult_eq_mod)
  ultimately show ?case
    by (simp add: Suc.IH Let_def div_mult2_eq)
qed simp

lemma pg_int64tostr_zeropad_pad:
  assumes "n < 10 ^ k"
  shows "pg_int64tostr_zeropad (int n) k = pad k n"
  using assms by (simp add: pg_int64tostr_zeropad_def zeropad_loop_pad)

lemma print_parts_eq:
  assumes "m = 10 ^ k" and "int64 (int m)"
  shows "print_parts v (int m) (int k) =
    (if v < 0 then ''-'' else []) @ dec (nat \<bar>v\<bar> div m) @ ''.'' @ pad k (nat \<bar>v\<bar> mod m)"
proof -
  let ?n = "nat \<bar>v\<bar>"
  have m: "0 < m" using assms(1) by simp
  have lt: "?n mod m < m" using m by simp
  then have i64: "int64 (int (?n mod m))"
    using assms(2) unfolding int64_iff by linarith
  have f: "(if v < 0 then to_int64 (- (v smod int m)) else v smod int m) = int (?n mod m)"
  proof (cases "v < 0")
    case True
    then have "- (v smod int m) = int (?n mod m)"
      using m by (simp add: smod_neg zmod_int)
    with True i64 show ?thesis by simp
  qed (use m in \<open>simp add: smod_nonneg zmod_int\<close>)
  have i: "pg_int64tostr (v sdiv int m) =
      (if v < 0 \<and> v sdiv int m \<noteq> 0 then ''-'' else []) @ dec (?n div m)"
  proof (cases "v < 0")
    case True
    then have "v sdiv int m = - int (?n div m)"
      using m by (simp add: sdiv_neg zdiv_int)
    with True show ?thesis by (auto simp: pg_int64tostr_dec)
  next
    case False
    then have "v sdiv int m = int (?n div m)"
      using m by (simp add: sdiv_nonneg zdiv_int)
    with False show ?thesis by (auto simp: pg_int64tostr_dec)
  qed
  show ?thesis
    unfolding print_parts_def Let_def
    using i f pg_int64tostr_zeropad_pad [of "?n mod m" k] lt assms(1)
    by (cases "v < 0") simp_all
qed

lemma fixeddecimalout_eq:
  "fixeddecimalout v =
    (if v < 0 then ''-'' else []) @ dec (nat \<bar>v\<bar> div 10000) @ ''.'' @ pad 4 (nat \<bar>v\<bar> mod 10000)"
  using print_parts_eq [of 10000 4 v]
  by (simp add: fixeddecimalout_def fixeddecimal2str_def FIXEDDECIMAL_MULTIPLIER_def
      FIXEDDECIMAL_SCALE_def int64_iff)

lemma isdigit_iff:
  "isdigit c \<longleftrightarrow> c \<in> {CHR ''0'', CHR ''1'', CHR ''2'', CHR ''3'', CHR ''4'',
                        CHR ''5'', CHR ''6'', CHR ''7'', CHR ''8'', CHR ''9''}"
  unfolding insert_iff empty_iff of_char_eq_iff [symmetric, where 'a = nat] isdigit_def
  by simp presburger

lemma digit_val_bounds: "isdigit c \<Longrightarrow> 0 \<le> digit_val c \<and> digit_val c \<le> 9"
  by (auto simp: isdigit_iff digit_val_def)

lemma digit_char_digit:
  assumes "0 \<le> d" and "d < 10"
  shows "isdigit (digit_char d)" and "digit_val (digit_char d) = d"
  using assms by (simp_all add: digit_char_def isdigit_def digit_val_def nat_less_iff le_nat_iff)

lemma isdigit_plain:
  assumes "isdigit c"
  shows "\<not> isspace c" "c \<noteq> CHR 0xA0" "c \<noteq> CHR 0xC2" "c \<noteq> CHR '',''" "c \<noteq> CHR ''.''"
    "c \<noteq> CHR ''-''" "c \<noteq> CHR ''+''" "c \<noteq> CHR 0x5C"
  using assms by (auto simp: isdigit_iff isspace_def)

lemma horner_Cons [simp]: "horner a (c # ds) = horner (a * 10 + digit_val c) ds"
  and horner_Nil [simp]: "horner a [] = a"
  by (simp_all add: horner_def)

lemma horner_append [simp]: "horner a (ds @ es) = horner (horner a ds) es"
  by (simp add: horner_def)

lemma horner_eq: "horner a ds = a * 10 ^ length ds + horner 0 ds"
proof (induction ds arbitrary: a)
  case (Cons c ds)
  show ?case
    using Cons.IH [of "a * 10 + digit_val c"] Cons.IH [of "digit_val c"]
    by (simp add: algebra_simps)
qed simp

lemma horner_mono: "digits ds \<Longrightarrow> 0 \<le> a \<Longrightarrow> a \<le> horner a ds"
proof (induction ds arbitrary: a)
  case (Cons c ds)
  then have "a * 10 + digit_val c \<le> horner (a * 10 + digit_val c) ds"
    using digit_val_bounds [of c] by (intro Cons.IH) auto
  then show ?case using Cons.prems digit_val_bounds [of c] by simp
qed simp

lemma horner_less: "digits ds \<Longrightarrow> horner 0 ds < 10 ^ length ds"
proof (induction ds rule: rev_induct)
  case (snoc c ds)
  then show ?case using digit_val_bounds [of c] by simp
qed simp

lemma digits_dec: "digits (dec n)"
proof (induction n rule: dec.induct)
  case (1 n)
  then show ?case
    by (cases "n < 10") (simp_all add: dec.simps [of n] digit_char_digit)
qed

lemma horner_dec: "horner 0 (dec n) = int n"
proof (induction n rule: dec.induct)
  case (1 n)
  then show ?case
    by (cases "n < 10") (simp_all add: dec.simps [of n] digit_char_digit zdiv_int zmod_int)
qed

lemma dec_not_Nil: "dec n \<noteq> []"
  by (simp add: dec.simps [of n])

lemma digits_pad: "digits (pad k n)"
  by (induction k arbitrary: n) (simp_all add: digit_char_digit)

lemma length_pad [simp]: "length (pad k n) = k"
  by (induction k arbitrary: n) simp_all

lemma horner_pad: "n < 10 ^ k \<Longrightarrow> horner 0 (pad k n) = int n"
proof (induction k arbitrary: n)
  case (Suc k)
  then have "n div 10 < 10 ^ k" by (simp add: less_mult_imp_div_less mult.commute)
  then show ?case
    by (simp add: Suc.IH digit_char_digit zdiv_int zmod_int)
qed simp

section \<open>Facts about the scanner\<close>

lemma skip_commas_id: "peek s \<noteq> CHR '','' \<Longrightarrow> skip_commas s = s"
  by (cases s) (auto simp: peek_def)

lemma skip_commas_digits:
  assumes "digits ds" and "peek rest \<noteq> CHR '',''"
  shows "skip_commas (ds @ rest) = ds @ rest"
  using assms by (cases ds) (auto simp: skip_commas_id isdigit_plain)

lemma skip_money_spaces_id:
  "\<not> isspace (peek s) \<Longrightarrow> peek s \<noteq> CHR 0xA0 \<Longrightarrow> peek s \<noteq> CHR 0xC2 \<Longrightarrow> skip_money_spaces s = s"
  by (cases s) (auto simp: peek_def)

lemma scan_integral_digits:
  assumes "digits ds" and "0 \<le> m" and "horner m ds \<le> INT64_MAX"
    and "\<not> isdigit (peek rest)" and "peek rest \<noteq> CHR '',''"
    and "s = (if neg then - 1 else 1)"
  shows "scan_integral neg (s * m) vp (ds @ rest) = Inr (s * horner m ds, vp + length ds, rest)"
  using assms
proof (induction ds arbitrary: m vp)
  case Nil
  then show ?case by (cases rest) (auto simp: peek_def)
next
  case (Cons c ds)
  let ?m = "m * 10 + digit_val c"
  from Cons.prems have d: "0 \<le> digit_val c" "digit_val c \<le> 9" and ds: "digits ds"
    using digit_val_bounds [of c] by auto
  then have le: "?m \<le> INT64_MAX"
    using Cons.prems horner_mono [of ds ?m] by simp
  have tmp: "to_int64 (to_int64 (s * m * 10) + (if neg then - digit_val c else digit_val c)) = s * ?m"
  proof -
    have "int64 (s * m * 10)" "int64 (s * ?m)"
      using Cons.prems(6) le d \<open>0 \<le> m\<close> by (auto simp: int64_iff INT64_MAX_def)
    moreover have "s * m * 10 + (if neg then - digit_val c else digit_val c) = s * ?m"
      using Cons.prems(6) by simp
    ultimately show ?thesis by simp
  qed
  have quot: "(s * ?m) sdiv 10 = s * m"
    using Cons.prems(6) d \<open>0 \<le> m\<close> by (auto simp: sdiv_neg sdiv_nonneg)
  have "scan_integral neg (s * ?m) (Suc vp) (ds @ rest) =
      Inr (s * horner ?m ds, Suc vp + length ds, rest)"
    using Cons.prems d by (intro Cons.IH) auto
  moreover have "isdigit c" using Cons.prems(1) by simp
  ultimately show ?case
    unfolding append_Cons scan_integral.simps Let_def tmp skip_commas_digits [OF ds Cons.prems(5)]
    using quot by simp
qed

lemma min_add_diff [simp]: "min k n + (k - n) = (k :: nat)"
  by simp

lemma scan_fraction_digits:
  assumes "digits fs"
  shows "scan_fraction (10 ^ k) F vs fs =
    (F + horner 0 (take k fs) * 10 ^ (k - length fs), vs + min k (length fs), drop k fs)"
  using assms
proof (induction fs arbitrary: k F vs)
  case (Cons c fs)
  show ?case
  proof (cases k)
    case (Suc k')
    have "10 ^ k sdiv 10 = (10 ^ k' :: int)"
      using Suc by (simp add: sdiv_nonneg)
    moreover have "skip_commas fs = fs"
      using skip_commas_digits [of fs "[]"] Cons.prems by (simp add: peek_def)
    moreover have "digit_val c * 10 ^ min k' (length fs) * 10 ^ (k' - length fs) = digit_val c * (10 ^ k' :: int)"
      by (simp add: power_add [symmetric])
    then have "digit_val c * 10 ^ k' + horner 0 (take k' fs) * 10 ^ (k' - length fs) =
        horner (digit_val c) (take k' fs) * 10 ^ (k' - length fs)"
      using horner_eq [of "digit_val c" "take k' fs"] by (auto simp: min.commute algebra_simps)
    ultimately show ?thesis
      using Cons Suc one_less_power [of "10 :: int" "Suc k'"] by (simp add: Let_def)
  qed (use Cons.prems in simp)
qed simp

lemma eat_digits_all: "digits fs \<Longrightarrow> eat_digits vs fs = (vs + length fs, [])"
proof (induction fs arbitrary: vs)
  case (Cons c fs)
  then show ?case
    using skip_commas_digits [of fs "[]"] by (simp add: peek_def)
qed simp

lemma scan_point_digits:
  assumes "digits fs"
  shows "scan_point (CHR ''.'' # fs) = (round4 fs, length fs, [])"
proof -
  have sk: "skip_commas gs = gs" if "digits gs" for gs
    using skip_commas_digits [of gs "[]"] that by (simp add: peek_def)
  have dr: "digits (drop k fs)" for k
    using assms by (metis append_take_drop_id list_all_append)
  have frac: "scan_fraction FIXEDDECIMAL_MULTIPLIER 0 0 fs =
      (horner 0 (take 4 fs) * 10 ^ (4 - length fs), min 4 (length fs), drop 4 fs)"
    using scan_fraction_digits [OF assms, of 4 0 0] by (simp add: FIXEDDECIMAL_MULTIPLIER_def)
  show ?thesis
  proof (cases "drop 4 fs")
    case Nil
    then show ?thesis
      using frac assms by (simp add: scan_point_def peek_def sk isdigit_def round4_def)
  next
    case (Cons g gs)
    then have "length (drop 4 fs) = Suc (length gs)" by simp
    then have len: "length fs = 5 + length gs" by simp
    have g: "fs ! 4 = g"
      using nth_drop [of 4 fs 0] Cons len by simp
    have "isdigit g" "digits gs" using dr [of 4] Cons by simp_all
    then show ?thesis
      using frac assms Cons len g dr [of 4] isdigit_plain(4) [of g]
      by (simp add: scan_point_def peek_def sk round4_def eat_digits_all)
  qed
qed

lemma assemble_exact:
  assumes "0 \<le> n" and "0 \<le> f" and "f \<le> 10000"
    and "s = (if neg then - 1 else 1)" and "int64 (s * (n * 10000 + f))"
  shows "assemble neg (s * n) f = Inr (s * (n * 10000 + f))"
proof (cases neg)
  case True
  then have "int64 (- n * 10000)" "int64 (- n * 10000 - f)"
    using assms by (simp_all add: int64_iff)
  then show ?thesis
    using True assms(1-4) by (auto simp: assemble_def FIXEDDECIMAL_MULTIPLIER_def SAMESIGN_def Let_def)
next
  case False
  then have "int64 (n * 10000)" "int64 (n * 10000 + f)" "int64 (n * 10000 - f)"
    using assms by (simp_all add: int64_iff)
  then show ?thesis
    using False assms(1-4) by (auto simp: assemble_def FIXEDDECIMAL_MULTIPLIER_def SAMESIGN_def Let_def)
qed

lemma round4_bounds: "digits fs \<Longrightarrow> 0 \<le> round4 fs \<and> round4 fs \<le> 10000"
proof -
  assume d: "digits fs"
  then have t: "digits (take 4 fs)"
    by (metis append_take_drop_id list_all_append)
  have "horner 0 (take 4 fs) < 10 ^ min 4 (length fs)" and "0 \<le> horner 0 (take 4 fs)"
    using horner_less [OF t] horner_mono [OF t, of 0] by (simp_all add: min.commute)
  then have "horner 0 (take 4 fs) * 10 ^ (4 - length fs) < 10 ^ min 4 (length fs) * 10 ^ (4 - length fs)"
    by (intro mult_strict_right_mono) auto
  also have "\<dots> = 10000"
    by (simp add: power_add [symmetric])
  finally show ?thesis
    using \<open>0 \<le> horner 0 (take 4 fs)\<close> by (auto simp: round4_def)
qed

lemma round4_nearest:
  assumes "digits fs"
  shows "round4 fs = (2 * 10000 * horner 0 fs + 10 ^ length fs) div (2 * 10 ^ length fs)"
proof (cases "length fs \<le> 4")
  case True
  define K M where "K = (10 :: int) ^ (4 - length fs)" and "M = (10 :: int) ^ length fs"
  have KM: "10000 = K * M" and M: "0 < M"
    using True by (simp_all add: K_def M_def power_add [symmetric])
  have "2 * 10000 * horner 0 fs + M = M + (2 * M) * (horner 0 fs * K)"
    unfolding KM by (simp add: algebra_simps)
  moreover have "(M + (2 * M) * (horner 0 fs * K)) div (2 * M) = horner 0 fs * K"
    using M by (subst div_mult_self2) (simp_all add: div_pos_pos_trivial)
  ultimately have "(2 * 10000 * horner 0 fs + M) div (2 * M) = horner 0 fs * K"
    by (simp only:)
  then show ?thesis using True by (simp add: round4_def K_def M_def)
next
  case False
  define g where "g = fs ! 4"
  define gs where "gs = drop (Suc 4) fs"
  define L where "L = (10 :: int) ^ length gs"
  have fs: "fs = take 4 fs @ g # gs"
    unfolding g_def gs_def by (rule id_take_nth_drop) (use False in simp)
  then have "digits (take 4 fs @ g # gs)" using assms by metis
  then have d: "isdigit g" "digits gs" by simp_all
  have r: "0 \<le> horner 0 gs" "horner 0 gs < L"
    using horner_mono [OF d(2), of 0] horner_less [OF d(2)] by (simp_all add: L_def)
  have len: "length fs = 5 + length gs" using False by (simp add: gs_def)
  have "horner 0 (take 4 fs @ g # gs) = (horner 0 (take 4 fs) * 10 + digit_val g) * L + horner 0 gs"
    using horner_eq [of "horner 0 (take 4 fs) * 10 + digit_val g" gs] by (simp add: L_def)
  then have h: "horner 0 fs = (horner 0 (take 4 fs) * 10 + digit_val g) * L + horner 0 gs"
    using fs by metis
  let ?a = "horner 0 (take 4 fs)" and ?x = "digit_val g" and ?r = "horner 0 gs"
  have x: "0 \<le> ?x" "?x \<le> 9" using digit_val_bounds [OF d(1)] by auto
  have "(2 * 10000 * horner 0 fs + 10 ^ length fs) div (2 * 10 ^ length fs)
      = (20000 * ((?a * 10 + ?x) * L + ?r) + 100000 * L) div (200000 * L)"
    by (simp add: h len power_add L_def algebra_simps)
  also have "\<dots> = ?a + (20000 * (?x * L + ?r) + 100000 * L) div (200000 * L)"
  proof -
    have "20000 * ((?a * 10 + ?x) * L + ?r) + 100000 * L
        = (20000 * (?x * L + ?r) + 100000 * L) + ?a * (200000 * L)"
      by (simp add: algebra_simps)
    moreover have "200000 * L \<noteq> 0" using r by simp
    ultimately show ?thesis by (simp only: div_mult_self1 not_False_eq_True)
  qed
  also have "(20000 * (?x * L + ?r) + 100000 * L) div (200000 * L) = (if 5 \<le> ?x then 1 else 0)"
  proof -
    define y where "y = ?x * L"
    have y: "0 \<le> y" "y \<le> 9 * L" "5 \<le> ?x \<Longrightarrow> 5 * L \<le> y" "\<not> 5 \<le> ?x \<Longrightarrow> y \<le> 4 * L"
      using x r unfolding y_def by (auto intro: mult_right_mono)
    have "(20000 * (y + ?r) + 100000 * L) div (200000 * L) = (if 5 \<le> ?x then 1 else 0)"
    proof (cases "5 \<le> ?x")
      case True
      with y r have "0 \<le> 20000 * (y + ?r) - 100000 * L" "20000 * (y + ?r) - 100000 * L < 200000 * L"
        by auto
      then have "(20000 * (y + ?r) - 100000 * L + 1 * (200000 * L)) div (200000 * L) = 1"
        using r by (subst div_mult_self1) (auto simp: div_pos_pos_trivial)
      with True show ?thesis by (simp add: algebra_simps)
    next
      case False
      with y r have "0 \<le> 20000 * (y + ?r) + 100000 * L" "20000 * (y + ?r) + 100000 * L < 200000 * L"
        by auto
      with False show ?thesis by (simp add: div_pos_pos_trivial)
    qed
    then show ?thesis by (simp add: y_def)
  qed
  finally show ?thesis
    using len by (simp add: round4_def g_def)
qed

lemma currency_digit:
  assumes "isdigit c"
  shows "scan_currency (c # cs) = c # cs"
proof -
  have "c \<noteq> CHR 0x24" "c \<noteq> CHR 0xE0" "c \<noteq> CHR 0xE1" "c \<noteq> CHR 0xE2" "c \<noteq> CHR 0xEF" "c \<noteq> CHR 0xC2"
    using assms by (auto simp: isdigit_iff)
  then show ?thesis
    using isdigit_plain(8) [OF assms]
    by (simp add: scan_currency_def is_valid_currency_symbol_def valid_currency_symbols_def peek_def)
qed

lemma scan_number_assemble:
  assumes "digits ds" and "ds \<noteq> []" and "digits fs"
    and s: "s = (if neg then - 1 else 1)" and le: "horner 0 ds \<le> INT64_MAX"
  shows "scan_number neg (ds @ CHR ''.'' # fs) =
    (case assemble neg (s * horner 0 ds) (round4 fs) of Inl e \<Rightarrow> Inl e
     | Inr r \<Rightarrow> Inr (r, length ds, length fs))"
proof -
  obtain c cs where ds: "ds = c # cs" using assms(2) by (cases ds) auto
  then have sp: "skip_money_spaces (ds @ CHR ''.'' # fs) = ds @ CHR ''.'' # fs"
    using assms(1) isdigit_plain [of c] by (intro skip_money_spaces_id) (auto simp: peek_def)
  have int: "scan_integral neg (s * 0) 0 (ds @ CHR ''.'' # fs) =
      Inr (s * horner 0 ds, 0 + length ds, CHR ''.'' # fs)"
    using assms(1) le s
    by (intro scan_integral_digits) (auto simp: peek_def isdigit_iff)
  have sk: "skip_commas (ds @ CHR ''.'' # fs) = ds @ CHR ''.'' # fs"
    using assms(1) by (intro skip_commas_digits) (auto simp: peek_def)
  show ?thesis
    using int sp sk scan_point_digits [OF assms(3)] by (simp add: scan_number_def)
qed

lemma scan_literal_number:
  assumes "digits ds" and "ds \<noteq> []"
  shows "scanfixeddecimal (literal neg ds fs) = scan_number neg (ds @ CHR ''.'' # fs)"
proof -
  obtain c cs where ds: "ds = c # cs" using assms(2) by (cases ds) auto
  let ?s = "ds @ CHR ''.'' # fs"
  have c: "isdigit c" using assms(1) ds by simp
  have skip: "skip_money_spaces ?s = ?s"
    using ds isdigit_plain [OF c] by (intro skip_money_spaces_id) (auto simp: peek_def)
  have cur: "scan_currency ?s = ?s" using ds currency_digit [OF c] by simp
  have peek: "peek ?s = c" using ds by (simp add: peek_def)
  show ?thesis
  proof (cases neg)
    case True
    have "skip_money_spaces (literal neg ds fs) = literal neg ds fs"
      using True by (intro skip_money_spaces_id) (auto simp: literal_def peek_def isspace_def)
    then show ?thesis
      using True skip cur peek isdigit_plain [OF c] c
      by (simp add: scanfixeddecimal_def leading_nbsp_def literal_def peek_def [of "_ # _"])
  next
    case False
    then have "literal neg ds fs = ?s" by (simp add: literal_def)
    then show ?thesis
      using False skip cur peek isdigit_plain [OF c] c
      by (simp add: scanfixeddecimal_def leading_nbsp_def)
  qed
qed

lemma scan_literal:
  assumes "digits ds" and "ds \<noteq> []" and "digits fs"
    and s: "s = (if neg then - 1 else 1)" and r: "int64 (s * (horner 0 ds * 10000 + round4 fs))"
  shows "scanfixeddecimal (literal neg ds fs) =
    Inr (s * (horner 0 ds * 10000 + round4 fs), length ds, length fs)"
proof -
  have n: "0 \<le> horner 0 ds" using horner_mono [OF assms(1), of 0] by simp
  have f: "0 \<le> round4 fs" "round4 fs \<le> 10000" using round4_bounds [OF assms(3)] by auto
  have "horner 0 ds \<le> INT64_MAX"
    using r s n f by (auto simp: c_int split: if_splits)
  then show ?thesis
    using scan_number_assemble [OF assms(1-3) s] assemble_exact [OF n f s r]
    by (simp add: scan_literal_number assms)
qed

lemma round4_pad: "n < 10000 \<Longrightarrow> round4 (pad 4 n) = int n"
  by (simp add: round4_def horner_pad)

lemma scan_out:
  assumes "int64 v"
  shows "scanfixeddecimal (fixeddecimalout v) = Inr (v, length (dec (nat \<bar>v\<bar> div 10000)), 4)"
proof -
  let ?n = "nat \<bar>v\<bar>"
  define s :: int where "s = (if v < 0 then - 1 else 1)"
  have "int (?n div 10000) * 10000 + int (?n mod 10000) = \<bar>v\<bar>"
    by (simp add: zdiv_int zmod_int)
  then have v: "s * (horner 0 (dec (?n div 10000)) * 10000 + round4 (pad 4 (?n mod 10000))) = v"
    by (auto simp: s_def horner_dec round4_pad)
  have "fixeddecimalout v = literal (v < 0) (dec (?n div 10000)) (pad 4 (?n mod 10000))"
    by (simp add: fixeddecimalout_eq literal_def)
  then show ?thesis
    using scan_literal [OF digits_dec dec_not_Nil digits_pad s_def, of "?n div 10000" 4 "?n mod 10000"]
    by (simp add: v assms)
qed

lemma length_dec: "0 < k \<Longrightarrow> length (dec n) \<le> k \<longleftrightarrow> n < 10 ^ k"
proof (induction n arbitrary: k rule: dec.induct)
  case (1 n)
  show ?case
  proof (cases "n < 10")
    case True
    then have "n < 10 ^ k" using "1.prems" self_le_power [of "10 :: nat" k] by simp
    with True "1.prems" show ?thesis by (simp add: dec.simps [of n] Suc_leI)
  next
    case False
    show ?thesis
    proof (cases "k = 1")
      case True
      with False show ?thesis by (simp add: dec.simps [of n] dec_not_Nil)
    next
      case k: False
      with "1.prems" obtain k' where k': "k = Suc k'" "0 < k'" by (cases k) auto
      with "1.IH" [OF False, of k'] have "length (dec (n div 10)) \<le> k' \<longleftrightarrow> n div 10 < 10 ^ k'" by simp
      then show ?thesis
        using False k' by (simp add: dec.simps [of n] div_less_iff_less_mult mult.commute)
    qed
  qed
qed

text \<open>The rules that print a concrete number.\<close>

lemma digit_char_eval:
  "digit_char 0 = CHR ''0''"
  "digit_char 1 = CHR ''1''"
  "digit_char 2 = CHR ''2''"
  "digit_char 3 = CHR ''3''"
  "digit_char 4 = CHR ''4''"
  "digit_char 5 = CHR ''5''"
  "digit_char 6 = CHR ''6''"
  "digit_char 7 = CHR ''7''"
  "digit_char 8 = CHR ''8''"
  "digit_char 9 = CHR ''9''"
  by (simp_all add: digit_char_def char_of_def bit_Suc_0_iff)

lemma pad_two: "pad 2 n = [digit_char (int (n div 10 mod 10)), digit_char (int (n mod 10))]"
  by (simp add: numeral_2_eq_2)

lemmas print_eval = dec.simps pad_two digit_char_eval

lemma typmod_fields:
  assumes "4 \<le> p" and "p \<le> 19"
  shows "(push_bit 16 p OR 4) + VARHDRSZ = money_typmod p"
    and "drop_bit 16 (money_typmod p - VARHDRSZ) AND 0xffff = p"
    and "(money_typmod p - VARHDRSZ) AND 0xffff = 4"
proof -
  have "p \<in> {4, 5, 6, 7, 8, 9, 10, 11, 12, 13, 14, 15, 16, 17, 18, 19}"
    using assms unfolding insert_iff empty_iff by presburger
  then show "(push_bit 16 p OR 4) + VARHDRSZ = money_typmod p"
    "drop_bit 16 (money_typmod p - VARHDRSZ) AND 0xffff = p"
    "(money_typmod p - VARHDRSZ) AND 0xffff = 4"
    by (auto simp: VARHDRSZ_def)
qed

lemma typmod_roundtrip:
  assumes "4 \<le> p" and "p \<le> 19"
  shows "fixeddecimaltypmodin [p, 4] = Inr (money_typmod p)"
    and "fixeddecimaltypmodin [money_typmod p] = Inr (money_typmod p)"
    and "fixeddecimaltypmodout (money_typmod p) = ''('' @ dec (nat p) @ '',4)''"
  using assms typmod_fields [OF assms]
  by (simp_all add: fixeddecimaltypmodin_def fixeddecimaltypmodout_def FIXEDDECIMAL_SCALE_def
      FIXEDDECIMAL_MAX_PRECISION_def VARHDRSZ_def Let_def print_eval)

lemma apply_typmod_money:
  assumes "4 \<le> p" and "p \<le> 19"
  shows "apply_typmod (money_typmod p) precision 4 =
    (if int precision \<le> p - 4 then Inr ()
     else ereport ERRCODE_NUMERIC_VALUE_OUT_OF_RANGE ''FIXEDDECIMAL field overflow'')"
  using assms typmod_fields [OF assms]
  by (auto simp: apply_typmod_def Let_def VARHDRSZ_def FIXEDDECIMAL_SCALE_def)

lemma fixeddecimal_cast:
  assumes "int64 v" and "4 < p" and "p \<le> 19"
  shows "fixeddecimal v (money_typmod p) =
    (if \<bar>v\<bar> < 10 ^ nat p then Inr v
     else ereport ERRCODE_NUMERIC_VALUE_OUT_OF_RANGE ''FIXEDDECIMAL field overflow'')"
proof -
  define k where "k = nat (p - 4)"
  let ?n = "nat \<bar>v\<bar>"
  have k: "0 < k" and p: "nat p = k + 4" "p - 4 = int k" using assms by (auto simp: k_def)
  have "int (length (dec (?n div 10000))) \<le> p - 4 \<longleftrightarrow> ?n div 10000 < 10 ^ k"
    using length_dec [OF k] p by simp
  also have "\<dots> \<longleftrightarrow> ?n < 10 ^ nat p"
    by (simp add: div_less_iff_less_mult p power_add)
  also have "\<dots> \<longleftrightarrow> \<bar>v\<bar> < 10 ^ nat p"
    by (simp add: nat_less_iff)
  finally show ?thesis
    using assms apply_typmod_money [of p]
    by (simp add: fixeddecimal_def fixeddecimalin_def scan_out)
qed

lemma tens_digit: "5 \<le> a div 10 mod 10 \<longleftrightarrow> \<not> a mod 100 < (50 :: int)"
  using zmod_zmult2_eq [of 10 a 10] pos_mod_bound [of 10 a] pos_mod_sign [of 10 a] by auto

lemma half_up: "(a + 50) div 100 = (if a mod 100 < 50 then a div 100 else a div 100 + (1 :: int))"
proof -
  have "(a + 50) div 100 = a div 100 + (a mod 100 + 50) div 100"
    using div_mult_self2 [of 100 "a mod 100 + 50" "a div 100"] by (simp add: algebra_simps)
  moreover have "(a mod 100 + 50) div 100 = (if a mod 100 < 50 then 0 else 1)"
    using pos_mod_bound [of 100 a] pos_mod_sign [of 100 a]
    by (simp add: div_pos_pos_trivial int_div_pos_eq [of _ 100 1 "a mod 100 + 50 - 100"])
  ultimately show ?thesis by simp
qed

lemma two_digit_value:
  assumes "\<bar>v\<bar> < 21474836480"
  shows "round_to_scale v 100 =
    (let q = v sdiv 100 in if \<bar>v\<bar> mod 100 < 50 then q else if 0 \<le> q then q + 1 else q - 1)"
proof -
  have a: "\<bar>v sdiv 10\<bar> = \<bar>v\<bar> div 10" "\<bar>v sdiv 100\<bar> = \<bar>v\<bar> div 100" by (simp_all add: abs_sdiv)
  then have "\<bar>v sdiv 10\<bar> \<le> 2147483647" "\<bar>v sdiv 100\<bar> \<le> 214748364" using assms by linarith+
  then have b: "int32 (v sdiv 10)" "v sdiv 10 \<noteq> INT32_MIN" "int64 (v sdiv 100 + 1)" "int64 (v sdiv 100 - 1)"
    unfolding int32_iff int64_iff INT32_MIN_def by linarith+
  have "c_abs (v sdiv 10) smod 10 = \<bar>v\<bar> div 10 mod 10"
    using b(1,2) by (simp add: c_abs_eq a smod_nonneg)
  then show ?thesis
    using b(3,4) tens_digit [of "\<bar>v\<bar>"] by (simp add: round_to_scale_def Let_def FIXEDDECIMAL_MULTIPLIER_def
        signed_divide_int_def [of 10000 1000])
qed

lemma two_digits:
  assumes "\<bar>v\<bar> < 21474836480" and "v \<le> - 100 \<or> - 50 < v"
  shows "fixeddecimal2str v 100 2 =
    (let c = nat ((\<bar>v\<bar> + 50) div 100)
     in (if v \<le> - 100 then ''-'' else []) @ dec (c div 100) @ ''.'' @ pad 2 (c mod 100))"
proof -
  let ?w = "round_to_scale v 100"
  note w = two_digit_value [OF assms(1)]
  have "\<bar>?w\<bar> = (\<bar>v\<bar> + 50) div 100 \<and> (?w < 0 \<longleftrightarrow> v \<le> - 100)"
  proof (cases "v \<le> - 100")
    case True
    then have "1 \<le> - v div 100" by linarith
    with True show ?thesis using half_up [of "- v"] by (simp add: w Let_def sdiv_neg)
  next
    case False
    then have "0 \<le> v \<or> - 50 < v \<and> v < 0" using assms(2) by linarith
    then show ?thesis
    proof
      assume "0 \<le> v"
      then show ?thesis using half_up [of v] by (simp add: w Let_def sdiv_nonneg)
    next
      assume "- 50 < v \<and> v < 0"
      then show ?thesis by (simp add: w Let_def sdiv_neg)
    qed
  qed
  then show ?thesis
    using print_parts_eq [of 100 2 ?w] by (simp add: fixeddecimal2str_def int64_iff Let_def)
qed

lemma two_digits_sign_lost:
  assumes "- 100 < v" and "v \<le> - 50"
  shows "fixeddecimal2str v 100 2 = ''0.01''"
proof -
  have "v sdiv 100 = 0" using assms by (simp add: sdiv_neg)
  moreover have "\<not> \<bar>v\<bar> mod 100 < 50" using assms by simp
  ultimately have "round_to_scale v 100 = 1"
    using assms two_digit_value [of v] by (simp add: Let_def)
  then show ?thesis
    using print_parts_eq [of 100 2 1]
    by (simp add: fixeddecimal2str_def int64_iff print_eval)
qed

section \<open>Properties\<close>

lemma nearest_append:
  assumes "digits fs"
  shows "(2 * 10000 * horner 0 (ds @ fs) + 10 ^ length fs) div (2 * 10 ^ length fs) =
    horner 0 ds * 10000 + round4 fs"
proof -
  define M where "M = (10 :: int) ^ length fs"
  have M: "0 < M" by (simp add: M_def)
  have "2 * 10000 * horner 0 (ds @ fs) + M =
      2 * 10000 * horner 0 fs + M + (2 * M) * (horner 0 ds * 10000)"
    unfolding horner_append horner_eq [of "horner 0 ds"] M_def by (simp add: algebra_simps)
  also have "\<dots> div (2 * M) = horner 0 ds * 10000 + (2 * 10000 * horner 0 fs + M) div (2 * M)"
    using M by (subst div_mult_self2) simp_all
  finally show ?thesis
    using round4_nearest [OF assms] by (simp add: M_def)
qed

text \<open>
  C25 (round trip). Every 64-bit value of the type, the smallest included, is read back
  unchanged from the text the output function prints for it.
\<close>

theorem fixeddecimal_roundtrip:
  assumes "int64 v"
  shows "fixeddecimalin (fixeddecimalout v) (- 1) = Inr v"
  using assms by (simp add: fixeddecimalin_def scan_out apply_typmod_def VARHDRSZ_def)

theorem fixeddecimal_roundtrip_witness:
  "int64 INT64_MIN \<and> fixeddecimalin (fixeddecimalout INT64_MIN) (- 1) = Inr INT64_MIN"
  using fixeddecimal_roundtrip [of INT64_MIN] by (simp add: int64_iff INT64_MIN_def)

text \<open>
  C26 (reading a literal). A literal with any number of fractional digits is read as the
  nearest multiple of a ten-thousandth, a tie going away from zero, whenever that number is
  in the range of the type. \<open>horner 0 (ds @ fs)\<close> is the literal without its point and its
  sign, so the literal stands for that number divided by \<open>10 ^ length fs\<close>.
\<close>

theorem scan_nearest:
  assumes "digits ds" and "ds \<noteq> []" and "digits fs"
    and "r = (if neg then - 1 else 1) *
      ((2 * 10000 * horner 0 (ds @ fs) + 10 ^ length fs) div (2 * 10 ^ length fs))"
    and "int64 r"
  shows "char_to_fixeddecimal (literal neg ds fs) = Inr r"
  using scan_literal [OF assms(1-3) refl, of neg] assms(4,5)
  unfolding nearest_append [OF assms(3)] by (simp add: char_to_fixeddecimal_def)

theorem scan_nearest_witness:
  "char_to_fixeddecimal (literal True ''12'' ''34565'') = Inr (- 123457)"
  by (rule scan_nearest) (simp_all add: isdigit_def digit_val_def int64_iff)

text \<open>
  Printing. The output function prints the sign of the value, its integral part
  without leading zeros, a point and exactly four fractional digits.
\<close>

theorem fixeddecimalout_digits:
  "fixeddecimalout v =
    (if v < 0 then ''-'' else []) @ dec (nat \<bar>v\<bar> div 10000) @ ''.'' @ pad 4 (nat \<bar>v\<bar> mod 10000)"
  by (rule fixeddecimalout_eq)

text \<open>
  C21 (printing with two digits, as the conversions to character types do). Below
  21474836480 in absolute value (2147483.6480 in money), and outside \<open>-99 .. -50\<close>, the
  two printed fractional digits are the value rounded half away from zero.
\<close>

theorem fixeddecimal2str_two_digits:
  assumes "\<bar>v\<bar> < 21474836480" and "v \<notin> {- 99 .. - 50}"
  shows "fixeddecimal2str v 100 2 =
    (let c = nat ((\<bar>v\<bar> + 50) div 100)
     in (if v \<le> - 100 then ''-'' else []) @ dec (c div 100) @ ''.'' @ pad 2 (c mod 100))"
  using assms by (intro two_digits) auto

theorem fixeddecimal2str_two_digits_witness:
  "fixeddecimal2str (- 1234567) 100 2 = ''-123.46''"
  using fixeddecimal2str_two_digits [of "- 1234567"]
  by (simp add: print_eval)

lemma fixeddecimal2str_sign_lost: "fixeddecimal2str (- 75) 100 2 = ''0.01''"
  by (rule two_digits_sign_lost) simp_all

lemma fixeddecimal2str_truncated: "fixeddecimal2str 30000000050 100 2 = ''3000000.00''"
proof -
  have "c_abs 3000000005 = 1294967291" by (simp add: c_abs_def wrap_s_def)
  moreover have "FIXEDDECIMAL_MULTIPLIER sdiv (100 * 10) = 10"
    by (simp add: FIXEDDECIMAL_MULTIPLIER_def sdiv_nonneg)
  moreover have "(30000000050 :: int) sdiv 10 = 3000000005" "(30000000050 :: int) sdiv 100 = 300000000"
    by (simp_all only: sdiv_nonneg)
  ultimately have "round_to_scale 30000000050 100 = 300000000"
    by (simp add: round_to_scale_def smod_nonneg Let_def)
  moreover have "dec 3000000 = ''3000000''" "pad 2 0 = ''00''" by (simp_all add: print_eval)
  ultimately show ?thesis
    using print_parts_eq [of 100 2 300000000] by (simp add: fixeddecimal2str_def int64_iff)
qed


text \<open>
  C23 (accepted overflow). The scanner's overflow test looks at signs only, so a product
  that wraps around to the same sign is accepted: 2 to the 60th, far out of range, is read
  as 0.
\<close>

theorem scan_accepts_overflow:
  "scanfixeddecimal (literal False ''1152921504606846976'' []) = Inr (0, 19, 0)"
proof -
  have "digits ''1152921504606846976''" by (simp add: isdigit_def)
  moreover have "horner 0 ''1152921504606846976'' = 1152921504606846976"
    by (simp add: digit_val_def)
  moreover have "assemble False 1152921504606846976 0 = Inr 0"
    by (simp add: assemble_def FIXEDDECIMAL_MULTIPLIER_def SAMESIGN_def Let_def wrap_s_def)
  ultimately show ?thesis
    using scan_number_assemble [of "''1152921504606846976''" "[]" 1 False]
    by (simp add: scan_literal_number INT64_MAX_def round4_def)
qed



end
