(* ===== verification/Money_Cmp.thy ===== *)
theory Money_Cmp
  imports Money_IO "HOL-Library.Multiset"
begin

text \<open>
  The comparison operators of \<^verbatim>\<open>fixeddecimal.c\<close>: money with money, and money with the three
  integer types in both argument orders. A money value is its count of ten-thousandths, so
  an integer operand is scaled by \<open>FIXEDDECIMAL_MULTIPLIER\<close> first; a bigint that would leave
  the 64-bit range is recognised before it is scaled.

  The locale \<open>cross_cmp\<close> is the contract of one family of seven operators with respect to
  the numbers its two types stand for. Negators, trichotomy and the support function of an
  index follow from it once; \<open>cross_cmp_pair\<close> adds the family with the arguments swapped,
  which the SQL declares as commutators, and \<open>index_search\<close> is a sorted index probed with a
  key of the other type.
\<close>

section \<open>The operators\<close>

subsection \<open>Money with money\<close>

definition fixeddecimaleq :: "int \<Rightarrow> int \<Rightarrow> bool" where
  "fixeddecimaleq val1 val2 \<longleftrightarrow> val1 = val2"

definition fixeddecimalne :: "int \<Rightarrow> int \<Rightarrow> bool" where
  "fixeddecimalne val1 val2 \<longleftrightarrow> val1 \<noteq> val2"

definition fixeddecimallt :: "int \<Rightarrow> int \<Rightarrow> bool" where
  "fixeddecimallt val1 val2 \<longleftrightarrow> val1 < val2"

definition fixeddecimalgt :: "int \<Rightarrow> int \<Rightarrow> bool" where
  "fixeddecimalgt val1 val2 \<longleftrightarrow> val2 < val1"

definition fixeddecimalle :: "int \<Rightarrow> int \<Rightarrow> bool" where
  "fixeddecimalle val1 val2 \<longleftrightarrow> val1 \<le> val2"

definition fixeddecimalge :: "int \<Rightarrow> int \<Rightarrow> bool" where
  "fixeddecimalge val1 val2 \<longleftrightarrow> val2 \<le> val1"

definition fixeddecimal_cmp :: "int \<Rightarrow> int \<Rightarrow> int" where
  "fixeddecimal_cmp val1 val2 =
     (if val1 = val2 then 0 else if val1 < val2 then - 1 else 1)"

subsection \<open>Money with smallint\<close>

definition fixeddecimal_int2_eq :: "int \<Rightarrow> int \<Rightarrow> bool" where
  "fixeddecimal_int2_eq val1 arg2 \<longleftrightarrow>
     (let val2 = to_int64 (arg2 * FIXEDDECIMAL_MULTIPLIER) in val1 = val2)"

definition fixeddecimal_int2_ne :: "int \<Rightarrow> int \<Rightarrow> bool" where
  "fixeddecimal_int2_ne val1 arg2 \<longleftrightarrow>
     (let val2 = to_int64 (arg2 * FIXEDDECIMAL_MULTIPLIER) in val1 \<noteq> val2)"

definition fixeddecimal_int2_lt :: "int \<Rightarrow> int \<Rightarrow> bool" where
  "fixeddecimal_int2_lt val1 arg2 \<longleftrightarrow>
     (let val2 = to_int64 (arg2 * FIXEDDECIMAL_MULTIPLIER) in val1 < val2)"

definition fixeddecimal_int2_gt :: "int \<Rightarrow> int \<Rightarrow> bool" where
  "fixeddecimal_int2_gt val1 arg2 \<longleftrightarrow>
     (let val2 = to_int64 (arg2 * FIXEDDECIMAL_MULTIPLIER) in val2 < val1)"

definition fixeddecimal_int2_le :: "int \<Rightarrow> int \<Rightarrow> bool" where
  "fixeddecimal_int2_le val1 arg2 \<longleftrightarrow>
     (let val2 = to_int64 (arg2 * FIXEDDECIMAL_MULTIPLIER) in val1 \<le> val2)"

definition fixeddecimal_int2_ge :: "int \<Rightarrow> int \<Rightarrow> bool" where
  "fixeddecimal_int2_ge val1 arg2 \<longleftrightarrow>
     (let val2 = to_int64 (arg2 * FIXEDDECIMAL_MULTIPLIER) in val2 \<le> val1)"

definition fixeddecimal_int2_cmp :: "int \<Rightarrow> int \<Rightarrow> int" where
  "fixeddecimal_int2_cmp val1 arg2 =
     (let val2 = to_int64 (arg2 * FIXEDDECIMAL_MULTIPLIER) in 
      if val1 = val2 then 0 else if val1 < val2 then - 1 else 1)"

subsection \<open>Smallint with money\<close>

definition int2_fixeddecimal_eq :: "int \<Rightarrow> int \<Rightarrow> bool" where
  "int2_fixeddecimal_eq arg1 val2 \<longleftrightarrow>
     (let val1 = to_int64 (arg1 * FIXEDDECIMAL_MULTIPLIER) in val1 = val2)"

definition int2_fixeddecimal_ne :: "int \<Rightarrow> int \<Rightarrow> bool" where
  "int2_fixeddecimal_ne arg1 val2 \<longleftrightarrow>
     (let val1 = to_int64 (arg1 * FIXEDDECIMAL_MULTIPLIER) in val1 \<noteq> val2)"

definition int2_fixeddecimal_lt :: "int \<Rightarrow> int \<Rightarrow> bool" where
  "int2_fixeddecimal_lt arg1 val2 \<longleftrightarrow>
     (let val1 = to_int64 (arg1 * FIXEDDECIMAL_MULTIPLIER) in val1 < val2)"

definition int2_fixeddecimal_gt :: "int \<Rightarrow> int \<Rightarrow> bool" where
  "int2_fixeddecimal_gt arg1 val2 \<longleftrightarrow>
     (let val1 = to_int64 (arg1 * FIXEDDECIMAL_MULTIPLIER) in val2 < val1)"

definition int2_fixeddecimal_le :: "int \<Rightarrow> int \<Rightarrow> bool" where
  "int2_fixeddecimal_le arg1 val2 \<longleftrightarrow>
     (let val1 = to_int64 (arg1 * FIXEDDECIMAL_MULTIPLIER) in val1 \<le> val2)"

definition int2_fixeddecimal_ge :: "int \<Rightarrow> int \<Rightarrow> bool" where
  "int2_fixeddecimal_ge arg1 val2 \<longleftrightarrow>
     (let val1 = to_int64 (arg1 * FIXEDDECIMAL_MULTIPLIER) in val2 \<le> val1)"

definition int2_fixeddecimal_cmp :: "int \<Rightarrow> int \<Rightarrow> int" where
  "int2_fixeddecimal_cmp arg1 val2 =
     (let val1 = to_int64 (arg1 * FIXEDDECIMAL_MULTIPLIER) in 
      if val1 = val2 then 0 else if val1 < val2 then - 1 else 1)"

subsection \<open>Money with integer\<close>

definition fixeddecimal_int4_eq :: "int \<Rightarrow> int \<Rightarrow> bool" where
  "fixeddecimal_int4_eq val1 arg2 \<longleftrightarrow>
     (let val2 = to_int64 (arg2 * FIXEDDECIMAL_MULTIPLIER) in val1 = val2)"

definition fixeddecimal_int4_ne :: "int \<Rightarrow> int \<Rightarrow> bool" where
  "fixeddecimal_int4_ne val1 arg2 \<longleftrightarrow>
     (let val2 = to_int64 (arg2 * FIXEDDECIMAL_MULTIPLIER) in val1 \<noteq> val2)"

definition fixeddecimal_int4_lt :: "int \<Rightarrow> int \<Rightarrow> bool" where
  "fixeddecimal_int4_lt val1 arg2 \<longleftrightarrow>
     (let val2 = to_int64 (arg2 * FIXEDDECIMAL_MULTIPLIER) in val1 < val2)"

definition fixeddecimal_int4_gt :: "int \<Rightarrow> int \<Rightarrow> bool" where
  "fixeddecimal_int4_gt val1 arg2 \<longleftrightarrow>
     (let val2 = to_int64 (arg2 * FIXEDDECIMAL_MULTIPLIER) in val2 < val1)"

definition fixeddecimal_int4_le :: "int \<Rightarrow> int \<Rightarrow> bool" where
  "fixeddecimal_int4_le val1 arg2 \<longleftrightarrow>
     (let val2 = to_int64 (arg2 * FIXEDDECIMAL_MULTIPLIER) in val1 \<le> val2)"

definition fixeddecimal_int4_ge :: "int \<Rightarrow> int \<Rightarrow> bool" where
  "fixeddecimal_int4_ge val1 arg2 \<longleftrightarrow>
     (let val2 = to_int64 (arg2 * FIXEDDECIMAL_MULTIPLIER) in val2 \<le> val1)"

definition fixeddecimal_int4_cmp :: "int \<Rightarrow> int \<Rightarrow> int" where
  "fixeddecimal_int4_cmp val1 arg2 =
     (let val2 = to_int64 (arg2 * FIXEDDECIMAL_MULTIPLIER) in 
      if val1 = val2 then 0 else if val1 < val2 then - 1 else 1)"

subsection \<open>Integer with money\<close>

definition int4_fixeddecimal_eq :: "int \<Rightarrow> int \<Rightarrow> bool" where
  "int4_fixeddecimal_eq arg1 val2 \<longleftrightarrow>
     (let val1 = to_int64 (arg1 * FIXEDDECIMAL_MULTIPLIER) in val1 = val2)"

definition int4_fixeddecimal_ne :: "int \<Rightarrow> int \<Rightarrow> bool" where
  "int4_fixeddecimal_ne arg1 val2 \<longleftrightarrow>
     (let val1 = to_int64 (arg1 * FIXEDDECIMAL_MULTIPLIER) in val1 \<noteq> val2)"

definition int4_fixeddecimal_lt :: "int \<Rightarrow> int \<Rightarrow> bool" where
  "int4_fixeddecimal_lt arg1 val2 \<longleftrightarrow>
     (let val1 = to_int64 (arg1 * FIXEDDECIMAL_MULTIPLIER) in val1 < val2)"

definition int4_fixeddecimal_gt :: "int \<Rightarrow> int \<Rightarrow> bool" where
  "int4_fixeddecimal_gt arg1 val2 \<longleftrightarrow>
     (let val1 = to_int64 (arg1 * FIXEDDECIMAL_MULTIPLIER) in val2 < val1)"

definition int4_fixeddecimal_le :: "int \<Rightarrow> int \<Rightarrow> bool" where
  "int4_fixeddecimal_le arg1 val2 \<longleftrightarrow>
     (let val1 = to_int64 (arg1 * FIXEDDECIMAL_MULTIPLIER) in val1 \<le> val2)"

definition int4_fixeddecimal_ge :: "int \<Rightarrow> int \<Rightarrow> bool" where
  "int4_fixeddecimal_ge arg1 val2 \<longleftrightarrow>
     (let val1 = to_int64 (arg1 * FIXEDDECIMAL_MULTIPLIER) in val2 \<le> val1)"

definition int4_fixeddecimal_cmp :: "int \<Rightarrow> int \<Rightarrow> int" where
  "int4_fixeddecimal_cmp arg1 val2 =
     (let val1 = to_int64 (arg1 * FIXEDDECIMAL_MULTIPLIER) in 
      if val1 = val2 then 0 else if val1 < val2 then - 1 else 1)"

subsection \<open>Money with bigint\<close>

definition fixeddecimal_int8_eq :: "int \<Rightarrow> int \<Rightarrow> bool" where
  "fixeddecimal_int8_eq val1 arg2 \<longleftrightarrow>
     (if FIXEDDECIMAL_MAX < arg2 then False else if arg2 < FIXEDDECIMAL_MIN then False
      else (let val2 = to_int64 (arg2 * FIXEDDECIMAL_MULTIPLIER) in val1 = val2))"

definition fixeddecimal_int8_ne :: "int \<Rightarrow> int \<Rightarrow> bool" where
  "fixeddecimal_int8_ne val1 arg2 \<longleftrightarrow>
     (if FIXEDDECIMAL_MAX < arg2 then True else if arg2 < FIXEDDECIMAL_MIN then True
      else (let val2 = to_int64 (arg2 * FIXEDDECIMAL_MULTIPLIER) in val1 \<noteq> val2))"

definition fixeddecimal_int8_lt :: "int \<Rightarrow> int \<Rightarrow> bool" where
  "fixeddecimal_int8_lt val1 arg2 \<longleftrightarrow>
     (if FIXEDDECIMAL_MAX < arg2 then True else if arg2 < FIXEDDECIMAL_MIN then False
      else (let val2 = to_int64 (arg2 * FIXEDDECIMAL_MULTIPLIER) in val1 < val2))"

definition fixeddecimal_int8_gt :: "int \<Rightarrow> int \<Rightarrow> bool" where
  "fixeddecimal_int8_gt val1 arg2 \<longleftrightarrow>
     (if FIXEDDECIMAL_MAX < arg2 then False else if arg2 < FIXEDDECIMAL_MIN then True
      else (let val2 = to_int64 (arg2 * FIXEDDECIMAL_MULTIPLIER) in val2 < val1))"

definition fixeddecimal_int8_le :: "int \<Rightarrow> int \<Rightarrow> bool" where
  "fixeddecimal_int8_le val1 arg2 \<longleftrightarrow>
     (if FIXEDDECIMAL_MAX < arg2 then True else if arg2 < FIXEDDECIMAL_MIN then False
      else (let val2 = to_int64 (arg2 * FIXEDDECIMAL_MULTIPLIER) in val1 \<le> val2))"

definition fixeddecimal_int8_ge :: "int \<Rightarrow> int \<Rightarrow> bool" where
  "fixeddecimal_int8_ge val1 arg2 \<longleftrightarrow>
     (if FIXEDDECIMAL_MAX < arg2 then False else if arg2 < FIXEDDECIMAL_MIN then True
      else (let val2 = to_int64 (arg2 * FIXEDDECIMAL_MULTIPLIER) in val2 \<le> val1))"

definition fixeddecimal_int8_cmp :: "int \<Rightarrow> int \<Rightarrow> int" where
  "fixeddecimal_int8_cmp val1 arg2 =
     (if FIXEDDECIMAL_MAX < arg2 then - 1 else if arg2 < FIXEDDECIMAL_MIN then 1
      else (let val2 = to_int64 (arg2 * FIXEDDECIMAL_MULTIPLIER) in if val1 = val2 then 0 else if val1 < val2 then - 1 else 1))"

subsection \<open>Bigint with money\<close>

definition int8_fixeddecimal_eq :: "int \<Rightarrow> int \<Rightarrow> bool" where
  "int8_fixeddecimal_eq arg1 val2 \<longleftrightarrow>
     (if FIXEDDECIMAL_MAX < arg1 then False else if arg1 < FIXEDDECIMAL_MIN then False
      else (let val1 = to_int64 (arg1 * FIXEDDECIMAL_MULTIPLIER) in val1 = val2))"

definition int8_fixeddecimal_ne :: "int \<Rightarrow> int \<Rightarrow> bool" where
  "int8_fixeddecimal_ne arg1 val2 \<longleftrightarrow>
     (if FIXEDDECIMAL_MAX < arg1 then True else if arg1 < FIXEDDECIMAL_MIN then True
      else (let val1 = to_int64 (arg1 * FIXEDDECIMAL_MULTIPLIER) in val1 \<noteq> val2))"

definition int8_fixeddecimal_lt :: "int \<Rightarrow> int \<Rightarrow> bool" where
  "int8_fixeddecimal_lt arg1 val2 \<longleftrightarrow>
     (if FIXEDDECIMAL_MAX < arg1 then False else if arg1 < FIXEDDECIMAL_MIN then True
      else (let val1 = to_int64 (arg1 * FIXEDDECIMAL_MULTIPLIER) in val1 < val2))"

definition int8_fixeddecimal_gt :: "int \<Rightarrow> int \<Rightarrow> bool" where
  "int8_fixeddecimal_gt arg1 val2 \<longleftrightarrow>
     (if FIXEDDECIMAL_MAX < arg1 then True else if arg1 < FIXEDDECIMAL_MIN then False
      else (let val1 = to_int64 (arg1 * FIXEDDECIMAL_MULTIPLIER) in val2 < val1))"

definition int8_fixeddecimal_le :: "int \<Rightarrow> int \<Rightarrow> bool" where
  "int8_fixeddecimal_le arg1 val2 \<longleftrightarrow>
     (if FIXEDDECIMAL_MAX < arg1 then False else if arg1 < FIXEDDECIMAL_MIN then True
      else (let val1 = to_int64 (arg1 * FIXEDDECIMAL_MULTIPLIER) in val1 \<le> val2))"

definition int8_fixeddecimal_ge :: "int \<Rightarrow> int \<Rightarrow> bool" where
  "int8_fixeddecimal_ge arg1 val2 \<longleftrightarrow>
     (if FIXEDDECIMAL_MAX < arg1 then True else if arg1 < FIXEDDECIMAL_MIN then False
      else (let val1 = to_int64 (arg1 * FIXEDDECIMAL_MULTIPLIER) in val2 \<le> val1))"

definition int8_fixeddecimal_cmp :: "int \<Rightarrow> int \<Rightarrow> int" where
  "int8_fixeddecimal_cmp arg1 val2 =
     (if FIXEDDECIMAL_MAX < arg1 then 1 else if arg1 < FIXEDDECIMAL_MIN then - 1
      else (let val1 = to_int64 (arg1 * FIXEDDECIMAL_MULTIPLIER) in if val1 = val2 then 0 else if val1 < val2 then - 1 else 1))"

section \<open>The contract of a family of comparison operators\<close>

locale cross_cmp =
  fixes va :: "'a \<Rightarrow> int" and vb :: "'b \<Rightarrow> int"
    and doma :: "'a \<Rightarrow> bool" and domb :: "'b \<Rightarrow> bool"
    and eq :: "'a \<Rightarrow> 'b \<Rightarrow> bool" and ne :: "'a \<Rightarrow> 'b \<Rightarrow> bool"
    and lt :: "'a \<Rightarrow> 'b \<Rightarrow> bool" and gt :: "'a \<Rightarrow> 'b \<Rightarrow> bool"
    and le :: "'a \<Rightarrow> 'b \<Rightarrow> bool" and ge :: "'a \<Rightarrow> 'b \<Rightarrow> bool"
    and cmp :: "'a \<Rightarrow> 'b \<Rightarrow> int"
  assumes eq_iff: "doma a \<Longrightarrow> domb b \<Longrightarrow> eq a b \<longleftrightarrow> va a = vb b"
    and ne_iff: "doma a \<Longrightarrow> domb b \<Longrightarrow> ne a b \<longleftrightarrow> va a \<noteq> vb b"
    and lt_iff: "doma a \<Longrightarrow> domb b \<Longrightarrow> lt a b \<longleftrightarrow> va a < vb b"
    and gt_iff: "doma a \<Longrightarrow> domb b \<Longrightarrow> gt a b \<longleftrightarrow> vb b < va a"
    and le_iff: "doma a \<Longrightarrow> domb b \<Longrightarrow> le a b \<longleftrightarrow> va a \<le> vb b"
    and ge_iff: "doma a \<Longrightarrow> domb b \<Longrightarrow> ge a b \<longleftrightarrow> vb b \<le> va a"
    and cmp_val: "doma a \<Longrightarrow> domb b \<Longrightarrow> cmp a b = sgn (va a - vb b)"
begin

lemmas op_iff = eq_iff ne_iff lt_iff gt_iff le_iff ge_iff

lemma negators:
  assumes "doma a" and "domb b"
  shows "ne a b \<longleftrightarrow> \<not> eq a b" and "ge a b \<longleftrightarrow> \<not> lt a b" and "gt a b \<longleftrightarrow> \<not> le a b"
  using assms by (auto simp: op_iff)

lemma trichotomy:
  assumes "doma a" and "domb b"
  shows "lt a b \<and> \<not> eq a b \<and> \<not> gt a b \<or> \<not> lt a b \<and> eq a b \<and> \<not> gt a b \<or>
    \<not> lt a b \<and> \<not> eq a b \<and> gt a b"
  using assms by (auto simp: op_iff)

lemma cmp_supports:
  assumes "doma a" and "domb b"
  shows "lt a b \<longleftrightarrow> cmp a b < 0" and "eq a b \<longleftrightarrow> cmp a b = 0" and "gt a b \<longleftrightarrow> 0 < cmp a b"
  using assms by (auto simp: op_iff cmp_val sgn_if)

end

locale cross_cmp_pair =
  ab: cross_cmp va vb doma domb eq ne lt gt le ge cmp +
  ba: cross_cmp vb va domb doma eq' ne' lt' gt' le' ge' cmp'
  for va :: "'a \<Rightarrow> int" and vb :: "'b \<Rightarrow> int" and doma domb
    and eq ne lt gt le ge cmp eq' ne' lt' gt' le' ge' cmp'
begin

lemma commutators:
  assumes "doma a" and "domb b"
  shows "eq a b \<longleftrightarrow> eq' b a" and "ne a b \<longleftrightarrow> ne' b a" and "lt a b \<longleftrightarrow> gt' b a"
    and "gt a b \<longleftrightarrow> lt' b a" and "le a b \<longleftrightarrow> ge' b a" and "ge a b \<longleftrightarrow> le' b a"
    and "cmp a b = - cmp' b a"
  using assms by (auto simp: ab.op_iff ba.op_iff ab.cmp_val ba.cmp_val sgn_if)

end

text \<open>
  An index keeps its entries sorted by its own type's family; a scan probes it with a key of
  another type.
\<close>

locale index_search =
  entry: cross_cmp va va doma doma eq ne lt gt le ge cmp +
  probe: cross_cmp va vb doma domb peq pne plt pgt ple pge pcmp
  for va :: "'a \<Rightarrow> int" and vb :: "'b \<Rightarrow> int" and doma domb
    and eq ne lt gt le ge cmp peq pne plt pgt ple pge pcmp
begin

lemma below_is_prefix:
  assumes "sorted_wrt le xs" and "list_all doma xs" and "domb k"
  shows "filter (\<lambda>x. plt x k) xs = takeWhile (\<lambda>x. plt x k) xs"
  using assms
proof (induction xs)
  case (Cons x xs)
  show ?case
  proof (cases "plt x k")
    case False
    then have "\<not> plt y k" if "y \<in> set xs" for y
      using that Cons.prems
      by (auto simp: probe.lt_iff entry.le_iff list_all_iff dest!: bspec [where x = y])
    with False show ?thesis by (simp add: filter_empty_conv)
  qed (use Cons in simp)
qed simp

lemma split_by_key:
  assumes "list_all doma xs" and "domb k"
  shows "mset (filter (\<lambda>x. plt x k) xs) + mset (filter (\<lambda>x. peq x k) xs)
    + mset (filter (\<lambda>x. pgt x k) xs) = mset xs"
  using assms
proof (induction xs)
  case (Cons x xs)
  then show ?case using probe.trichotomy [of x k] by auto
qed simp

end

section \<open>The operators keep the contract\<close>

lemma int2_scaled: "int16 n \<Longrightarrow> to_int64 (n * FIXEDDECIMAL_MULTIPLIER) = 10000 * n"
  by (simp add: FIXEDDECIMAL_MULTIPLIER_def int16_iff int64_iff)

lemma int4_scaled: "int32 n \<Longrightarrow> to_int64 (n * FIXEDDECIMAL_MULTIPLIER) = 10000 * n"
  by (simp add: FIXEDDECIMAL_MULTIPLIER_def int32_iff int64_iff)

lemma fixeddecimal_bounds:
  "FIXEDDECIMAL_MAX = 922337203685477" "FIXEDDECIMAL_MIN = - 922337203685477"
  by (simp_all add: FIXEDDECIMAL_MAX_def FIXEDDECIMAL_MIN_def FIXEDDECIMAL_MULTIPLIER_def
      INT64_MAX_def INT64_MIN_def sdiv_nonneg sdiv_neg)

lemma int8_scaled:
  "n \<le> 922337203685477 \<Longrightarrow> - 922337203685477 \<le> n \<Longrightarrow>
   to_int64 (n * FIXEDDECIMAL_MULTIPLIER) = 10000 * n"
  by (simp add: FIXEDDECIMAL_MULTIPLIER_def int64_iff)

interpretation money: cross_cmp id id int64 int64
  fixeddecimaleq fixeddecimalne fixeddecimallt fixeddecimalgt fixeddecimalle fixeddecimalge
  fixeddecimal_cmp
  by unfold_locales
    (auto simp: sgn_if fixeddecimaleq_def fixeddecimalne_def fixeddecimallt_def fixeddecimalgt_def
      fixeddecimalle_def fixeddecimalge_def fixeddecimal_cmp_def)

interpretation money_int2: cross_cmp_pair id "(*) 10000" int64 int16
  fixeddecimal_int2_eq fixeddecimal_int2_ne fixeddecimal_int2_lt fixeddecimal_int2_gt
  fixeddecimal_int2_le fixeddecimal_int2_ge fixeddecimal_int2_cmp
  int2_fixeddecimal_eq int2_fixeddecimal_ne int2_fixeddecimal_lt int2_fixeddecimal_gt
  int2_fixeddecimal_le int2_fixeddecimal_ge int2_fixeddecimal_cmp
  by unfold_locales
    (auto simp: Let_def sgn_if int2_scaled
      fixeddecimal_int2_eq_def fixeddecimal_int2_ne_def fixeddecimal_int2_lt_def
      fixeddecimal_int2_gt_def fixeddecimal_int2_le_def fixeddecimal_int2_ge_def
      fixeddecimal_int2_cmp_def
      int2_fixeddecimal_eq_def int2_fixeddecimal_ne_def int2_fixeddecimal_lt_def
      int2_fixeddecimal_gt_def int2_fixeddecimal_le_def int2_fixeddecimal_ge_def
      int2_fixeddecimal_cmp_def)

interpretation money_int2_index: index_search id "(*) 10000" int64 int16
  fixeddecimaleq fixeddecimalne fixeddecimallt fixeddecimalgt fixeddecimalle fixeddecimalge
  fixeddecimal_cmp
  fixeddecimal_int2_eq fixeddecimal_int2_ne fixeddecimal_int2_lt fixeddecimal_int2_gt
  fixeddecimal_int2_le fixeddecimal_int2_ge fixeddecimal_int2_cmp
  ..

interpretation money_int4: cross_cmp_pair id "(*) 10000" int64 int32
  fixeddecimal_int4_eq fixeddecimal_int4_ne fixeddecimal_int4_lt fixeddecimal_int4_gt
  fixeddecimal_int4_le fixeddecimal_int4_ge fixeddecimal_int4_cmp
  int4_fixeddecimal_eq int4_fixeddecimal_ne int4_fixeddecimal_lt int4_fixeddecimal_gt
  int4_fixeddecimal_le int4_fixeddecimal_ge int4_fixeddecimal_cmp
  by unfold_locales
    (auto simp: Let_def sgn_if int4_scaled
      fixeddecimal_int4_eq_def fixeddecimal_int4_ne_def fixeddecimal_int4_lt_def
      fixeddecimal_int4_gt_def fixeddecimal_int4_le_def fixeddecimal_int4_ge_def
      fixeddecimal_int4_cmp_def
      int4_fixeddecimal_eq_def int4_fixeddecimal_ne_def int4_fixeddecimal_lt_def
      int4_fixeddecimal_gt_def int4_fixeddecimal_le_def int4_fixeddecimal_ge_def
      int4_fixeddecimal_cmp_def)

interpretation money_int4_index: index_search id "(*) 10000" int64 int32
  fixeddecimaleq fixeddecimalne fixeddecimallt fixeddecimalgt fixeddecimalle fixeddecimalge
  fixeddecimal_cmp
  fixeddecimal_int4_eq fixeddecimal_int4_ne fixeddecimal_int4_lt fixeddecimal_int4_gt
  fixeddecimal_int4_le fixeddecimal_int4_ge fixeddecimal_int4_cmp
  ..

interpretation money_int8: cross_cmp_pair id "(*) 10000" int64 int64
  fixeddecimal_int8_eq fixeddecimal_int8_ne fixeddecimal_int8_lt fixeddecimal_int8_gt
  fixeddecimal_int8_le fixeddecimal_int8_ge fixeddecimal_int8_cmp
  int8_fixeddecimal_eq int8_fixeddecimal_ne int8_fixeddecimal_lt int8_fixeddecimal_gt
  int8_fixeddecimal_le int8_fixeddecimal_ge int8_fixeddecimal_cmp
  by unfold_locales
    (auto simp: Let_def sgn_if int8_scaled fixeddecimal_bounds int64_iff
      fixeddecimal_int8_eq_def fixeddecimal_int8_ne_def fixeddecimal_int8_lt_def
      fixeddecimal_int8_gt_def fixeddecimal_int8_le_def fixeddecimal_int8_ge_def
      fixeddecimal_int8_cmp_def
      int8_fixeddecimal_eq_def int8_fixeddecimal_ne_def int8_fixeddecimal_lt_def
      int8_fixeddecimal_gt_def int8_fixeddecimal_le_def int8_fixeddecimal_ge_def
      int8_fixeddecimal_cmp_def)

interpretation money_int8_index: index_search id "(*) 10000" int64 int64
  fixeddecimaleq fixeddecimalne fixeddecimallt fixeddecimalgt fixeddecimalle fixeddecimalge
  fixeddecimal_cmp
  fixeddecimal_int8_eq fixeddecimal_int8_ne fixeddecimal_int8_lt fixeddecimal_int8_gt
  fixeddecimal_int8_le fixeddecimal_int8_ge fixeddecimal_int8_cmp
  ..

section \<open>Properties\<close>

text \<open>
  C29 (exact comparison). Comparing a money value with an integer compares the two numbers
  exactly, for every smallint, integer and bigint: also where the bigint scaled to
  ten-thousandths would not fit into 64 bits.
\<close>

theorem cross_cmp_exact:
  assumes "int64 v" and "int64 n"
  shows "fixeddecimal_int8_cmp v n = sgn (v - 10000 * n) \<and>
    (int32 n \<longrightarrow> fixeddecimal_int4_cmp v n = sgn (v - 10000 * n)) \<and>
    (int16 n \<longrightarrow> fixeddecimal_int2_cmp v n = sgn (v - 10000 * n))"
  using assms money_int2.ab.cmp_val money_int4.ab.cmp_val money_int8.ab.cmp_val by simp

theorem cross_cmp_exact_witness:
  "fixeddecimal_int8_cmp INT64_MAX 922337203685478 = - 1 \<and> fixeddecimal_int2_cmp (- 5) 0 = - 1"
  using cross_cmp_exact [of INT64_MAX 922337203685478] cross_cmp_exact [of "- 5" 0]
  by (simp add: int64_iff int16_iff INT64_MAX_def)

text \<open>
  C26 (commutators and negators). What the SQL declares of the operators on money and bigint
  holds: each is the commutator of its counterpart with the arguments swapped, and \<open><>\<close>,
  \<open>>=\<close>, \<open>>\<close> are the negators of \<open>=\<close>, \<open><\<close>, \<open><=\<close>.
\<close>

theorem int8_operators_declared:
  assumes "int64 v" and "int64 n"
  shows "(fixeddecimal_int8_eq v n \<longleftrightarrow> int8_fixeddecimal_eq n v) \<and>
    (fixeddecimal_int8_lt v n \<longleftrightarrow> int8_fixeddecimal_gt n v) \<and>
    (fixeddecimal_int8_le v n \<longleftrightarrow> int8_fixeddecimal_ge n v) \<and>
    (fixeddecimal_int8_ne v n \<longleftrightarrow> \<not> fixeddecimal_int8_eq v n) \<and>
    (fixeddecimal_int8_ge v n \<longleftrightarrow> \<not> fixeddecimal_int8_lt v n) \<and>
    (fixeddecimal_int8_gt v n \<longleftrightarrow> \<not> fixeddecimal_int8_le v n) \<and>
    fixeddecimal_int8_cmp v n = - int8_fixeddecimal_cmp n v"
  using money_int8.commutators [OF assms] money_int8.ab.negators [OF assms] by simp

theorem int8_operators_declared_witness:
  "fixeddecimal_int8_lt 5 INT64_MAX \<and> int8_fixeddecimal_gt INT64_MAX 5 \<and>
   \<not> fixeddecimal_int8_ge 5 INT64_MAX"
proof -
  have "fixeddecimal_int8_lt 5 INT64_MAX" by (simp add: fixeddecimal_int8_lt_def fixeddecimal_bounds INT64_MAX_def)
  then show ?thesis
    using int8_operators_declared [of 5 INT64_MAX] by (simp add: int64_iff INT64_MAX_def)
qed

text \<open>
  Index scans with a key of another type. In a list of money values sorted by
  \<open>fixeddecimalle\<close>, the entries below a bigint key are a prefix, so a scan may stop at the
  first entry that is not.
\<close>

theorem index_scan_below:
  assumes "sorted_wrt fixeddecimalle vs" and "list_all int64 vs" and "int64 n"
  shows "filter (\<lambda>v. fixeddecimal_int8_lt v n) vs = takeWhile (\<lambda>v. fixeddecimal_int8_lt v n) vs"
  using assms by (rule money_int8_index.below_is_prefix)

theorem index_scan_below_witness:
  "filter (\<lambda>v. fixeddecimal_int8_lt v 2) [- 1, 15000, 20000, 30000] =
   takeWhile (\<lambda>v. fixeddecimal_int8_lt v 2) [- 1, 15000, 20000, 30000]"
  by (rule index_scan_below) (simp_all add: fixeddecimalle_def int64_iff)

end
