(* ===== verification/Money_Arith.thy ===== *)
theory Money_Arith
  imports Money_Cmp
begin

text \<open>
  The arithmetic operators, conversions and roundings of \<^verbatim>\<open>fixeddecimal.c\<close>. The operators
  between money and a bigint use the server's overflow helpers, those with an integer or a
  smallint check signs or divide the product again; \<open>HAVE_BUILTIN_OVERFLOW\<close> is not defined,
  so the portable branches are the ones compiled. The divisions of an integer by a money
  value and the conversions to and from floating point compute in \<open>float8\<close> and are left
  out.

  The locale \<open>checked_op\<close> is the contract the operators share: the exact result when it
  fits and the range error otherwise, never a wrapped value. \<open>checked_agree\<close> relates an
  overloaded operator to the one on money it stands for.
\<close>

section \<open>The operators\<close>

abbreviation money_range :: "'a result" where
  "money_range \<equiv> ereport ERRCODE_NUMERIC_VALUE_OUT_OF_RANGE ''fixeddecimal out of range''"

abbreviation division_by_zero :: "'a result" where
  "division_by_zero \<equiv> ereport ERRCODE_DIVISION_BY_ZERO ''division by zero''"

subsection \<open>Money with money\<close>

definition fixeddecimalum :: "int \<Rightarrow> int result" where
  "fixeddecimalum arg =
     (let result = to_int64 (- arg)
      in if arg \<noteq> 0 \<and> SAMESIGN result arg then money_range else Inr result)"

definition fixeddecimalup :: "int \<Rightarrow> int result" where
  "fixeddecimalup arg =
     Inr arg"

definition fixeddecimalpl :: "pg_int \<Rightarrow> int \<Rightarrow> int \<Rightarrow> int result" where
  "fixeddecimalpl pg arg1 arg2 =
     on_overflow (pg_add_s64_overflow pg arg1 arg2) money_range Inr"

definition fixeddecimalmi :: "pg_int \<Rightarrow> int \<Rightarrow> int \<Rightarrow> int result" where
  "fixeddecimalmi pg arg1 arg2 =
     on_overflow (pg_sub_s64_overflow pg arg1 arg2) money_range Inr"

text \<open>
  In the rounding test C parses \<open>arg1 % M * arg2 % M\<close> as \<open>((arg1 % M) * arg2) % M\<close>, a product
  of two \<open>int64\<close> values.
\<close>

definition fixeddecimalmul :: "int \<Rightarrow> int \<Rightarrow> int result" where
  "fixeddecimalmul arg1 arg2 =
     (let M = FIXEDDECIMAL_MULTIPLIER;
          result = to_int128 (arg1 * arg2) sdiv M;
          digits = c_abs ((to_int64 (arg1 smod M * arg2) smod M) smod M);
          result = (if FIXEDDECIMAL_ROUNDUP \<le> digits
                    then if result < 0 then result - 1 else result + 1 else result)
      in if result \<noteq> to_int64 result then money_range else Inr (to_int64 result))"

definition fixeddecimaldiv :: "int \<Rightarrow> int \<Rightarrow> int result" where
  "fixeddecimaldiv dividend divisor =
     (if divisor = 0 then division_by_zero
      else (let result = to_int128 (dividend * FIXEDDECIMAL_MULTIPLIER) sdiv divisor
            in if result \<noteq> to_int64 result then money_range else Inr (to_int64 result)))"

definition fixeddecimalmod :: "int \<Rightarrow> int \<Rightarrow> int result" where
  "fixeddecimalmod dividend divisor =
     (if divisor = 0 then division_by_zero
      else if divisor = - 1 then Inr 0
      else Inr (dividend smod divisor))"

definition fixeddecimalabs :: "int \<Rightarrow> int result" where
  "fixeddecimalabs arg1 =
     (let result = (if arg1 < 0 then to_int64 (- arg1) else arg1)
      in if result < 0 then money_range else Inr result)"

definition fixeddecimallarger :: "int \<Rightarrow> int \<Rightarrow> int" where
  "fixeddecimallarger arg1 arg2 = (if arg2 < arg1 then arg1 else arg2)"

definition fixeddecimalsmaller :: "int \<Rightarrow> int \<Rightarrow> int" where
  "fixeddecimalsmaller arg1 arg2 = (if arg1 < arg2 then arg1 else arg2)"

subsection \<open>Money with bigint\<close>

definition fixeddecimalint8pl :: "pg_int \<Rightarrow> int \<Rightarrow> int \<Rightarrow> int result" where
  "fixeddecimalint8pl pg arg1 arg2 =
     on_overflow (pg_mul_s64_overflow pg arg2 FIXEDDECIMAL_MULTIPLIER) money_range
       (\<lambda>adder. on_overflow (pg_add_s64_overflow pg arg1 adder) money_range Inr)"

definition fixeddecimalint8mi :: "pg_int \<Rightarrow> int \<Rightarrow> int \<Rightarrow> int result" where
  "fixeddecimalint8mi pg arg1 arg2 =
     on_overflow (pg_mul_s64_overflow pg arg2 FIXEDDECIMAL_MULTIPLIER) money_range
       (\<lambda>subtractor. on_overflow (pg_sub_s64_overflow pg arg1 subtractor) money_range Inr)"

definition fixeddecimalint8mul :: "pg_int \<Rightarrow> int \<Rightarrow> int \<Rightarrow> int result" where
  "fixeddecimalint8mul pg arg1 arg2 =
     on_overflow (pg_mul_s64_overflow pg arg1 arg2) money_range Inr"

definition fixeddecimalint8div :: "int \<Rightarrow> int \<Rightarrow> int result" where
  "fixeddecimalint8div arg1 arg2 =
     (if arg2 = 0 then division_by_zero
      else if arg2 = - 1 then (if arg1 = INT64_MIN then money_range else Inr (to_int64 (- arg1)))
      else Inr (arg1 sdiv arg2))"

definition int8fixeddecimalpl :: "pg_int \<Rightarrow> int \<Rightarrow> int \<Rightarrow> int result" where
  "int8fixeddecimalpl pg arg1 arg2 =
     on_overflow (pg_mul_s64_overflow pg arg1 FIXEDDECIMAL_MULTIPLIER) money_range
       (\<lambda>adder. on_overflow (pg_add_s64_overflow pg adder arg2) money_range Inr)"

definition int8fixeddecimalmi :: "pg_int \<Rightarrow> int \<Rightarrow> int \<Rightarrow> int result" where
  "int8fixeddecimalmi pg arg1 arg2 =
     on_overflow (pg_mul_s64_overflow pg arg1 FIXEDDECIMAL_MULTIPLIER) money_range
       (\<lambda>subtractor. on_overflow (pg_sub_s64_overflow pg subtractor arg2) money_range Inr)"

definition int8fixeddecimalmul :: "pg_int \<Rightarrow> int \<Rightarrow> int \<Rightarrow> int result" where
  "int8fixeddecimalmul pg arg1 arg2 =
     on_overflow (pg_mul_s64_overflow pg arg1 arg2) money_range Inr"

subsection \<open>Money with integer\<close>

text \<open>
  These operators do without the server's helpers: sums are checked by their signs, and a
  product by dividing it again.
\<close>

definition fixeddecimalint4pl :: "int \<Rightarrow> int \<Rightarrow> int result" where
  "fixeddecimalint4pl arg1 arg2 =
     (let adder = to_int64 (arg2 * FIXEDDECIMAL_MULTIPLIER); result = to_int64 (arg1 + adder)
      in if SAMESIGN arg1 adder \<and> \<not> SAMESIGN result arg1 then money_range else Inr result)"

definition fixeddecimalint4mi :: "int \<Rightarrow> int \<Rightarrow> int result" where
  "fixeddecimalint4mi arg1 arg2 =
     (let subtractor = to_int64 (arg2 * FIXEDDECIMAL_MULTIPLIER); result = to_int64 (arg1 - subtractor)
      in if \<not> SAMESIGN arg1 subtractor \<and> \<not> SAMESIGN result arg1 then money_range else Inr result)"

definition fixeddecimalint4mul :: "int \<Rightarrow> int \<Rightarrow> int result" where
  "fixeddecimalint4mul arg1 arg2 =
     (let result = to_int64 (arg1 * arg2)
      in if arg1 \<noteq> to_int32 arg1 \<and> result sdiv arg1 \<noteq> arg2 then money_range else Inr result)"

definition fixeddecimalint4div :: "int \<Rightarrow> int \<Rightarrow> int result" where
  "fixeddecimalint4div arg1 arg2 =
     (if arg2 = 0 then division_by_zero
      else if arg2 = - 1
      then (let result = to_int64 (- arg1)
            in if arg1 \<noteq> 0 \<and> SAMESIGN result arg1 then money_range else Inr result)
      else Inr (arg1 sdiv arg2))"

definition int4fixeddecimalpl :: "int \<Rightarrow> int \<Rightarrow> int result" where
  "int4fixeddecimalpl arg1 arg2 =
     (let adder = to_int64 (arg1 * FIXEDDECIMAL_MULTIPLIER); result = to_int64 (adder + arg2)
      in if SAMESIGN adder arg2 \<and> \<not> SAMESIGN result adder then money_range else Inr result)"

definition int4fixeddecimalmi :: "int \<Rightarrow> int \<Rightarrow> int result" where
  "int4fixeddecimalmi arg1 arg2 =
     (let subtractor = to_int64 (arg1 * FIXEDDECIMAL_MULTIPLIER); result = to_int64 (subtractor - arg2)
      in if \<not> SAMESIGN subtractor arg2 \<and> \<not> SAMESIGN result subtractor then money_range
         else Inr result)"

definition int4fixeddecimalmul :: "int \<Rightarrow> int \<Rightarrow> int result" where
  "int4fixeddecimalmul arg1 arg2 =
     (let result = to_int64 (arg1 * arg2)
      in if arg2 \<noteq> to_int32 arg2 \<and> result sdiv arg2 \<noteq> arg1 then money_range else Inr result)"

subsection \<open>Money with smallint\<close>

definition fixeddecimalint2pl :: "int \<Rightarrow> int \<Rightarrow> int result" where
  "fixeddecimalint2pl arg1 arg2 =
     (let adder = to_int64 (arg2 * FIXEDDECIMAL_MULTIPLIER); result = to_int64 (arg1 + adder)
      in if SAMESIGN arg1 adder \<and> \<not> SAMESIGN result arg1 then money_range else Inr result)"

definition fixeddecimalint2mi :: "int \<Rightarrow> int \<Rightarrow> int result" where
  "fixeddecimalint2mi arg1 arg2 =
     (let subtractor = to_int64 (arg2 * FIXEDDECIMAL_MULTIPLIER); result = to_int64 (arg1 - subtractor)
      in if \<not> SAMESIGN arg1 subtractor \<and> \<not> SAMESIGN result arg1 then money_range else Inr result)"

definition fixeddecimalint2mul :: "int \<Rightarrow> int \<Rightarrow> int result" where
  "fixeddecimalint2mul arg1 arg2 =
     (let result = to_int64 (arg1 * arg2)
      in if arg1 \<noteq> to_int32 arg1 \<and> result sdiv arg1 \<noteq> arg2 then money_range else Inr result)"

definition fixeddecimalint2div :: "int \<Rightarrow> int \<Rightarrow> int result" where
  "fixeddecimalint2div arg1 arg2 =
     (if arg2 = 0 then division_by_zero
      else if arg2 = - 1
      then (let result = to_int64 (- arg1)
            in if arg1 \<noteq> 0 \<and> SAMESIGN result arg1 then money_range else Inr result)
      else Inr (arg1 sdiv arg2))"

definition int2fixeddecimalpl :: "int \<Rightarrow> int \<Rightarrow> int result" where
  "int2fixeddecimalpl arg1 arg2 =
     (let adder = to_int64 (arg1 * FIXEDDECIMAL_MULTIPLIER); result = to_int64 (adder + arg2)
      in if SAMESIGN adder arg2 \<and> \<not> SAMESIGN result adder then money_range else Inr result)"

definition int2fixeddecimalmi :: "int \<Rightarrow> int \<Rightarrow> int result" where
  "int2fixeddecimalmi arg1 arg2 =
     (let subtractor = to_int64 (arg1 * FIXEDDECIMAL_MULTIPLIER); result = to_int64 (subtractor - arg2)
      in if \<not> SAMESIGN subtractor arg2 \<and> \<not> SAMESIGN result subtractor then money_range
         else Inr result)"

definition int2fixeddecimalmul :: "int \<Rightarrow> int \<Rightarrow> int result" where
  "int2fixeddecimalmul arg1 arg2 =
     (let result = to_int64 (arg1 * arg2)
      in if arg2 \<noteq> to_int32 arg2 \<and> result sdiv arg2 \<noteq> arg1 then money_range else Inr result)"

subsection \<open>Conversions\<close>

definition int8fixeddecimal_internal :: "pg_int \<Rightarrow> int \<Rightarrow> string \<Rightarrow> int result" where
  "int8fixeddecimal_internal pg arg typename =
     on_overflow (pg_mul_s64_overflow pg arg FIXEDDECIMAL_MULTIPLIER)
       (ereport ERRCODE_NUMERIC_VALUE_OUT_OF_RANGE
          (''value \"%ld\" is out of range for type '' @ typename)) Inr"

definition int8_to_money :: "pg_int \<Rightarrow> int \<Rightarrow> int result" where
  "int8_to_money pg arg =
     int8fixeddecimal_internal pg arg ''money''"

definition int8_to_smallmoney :: "pg_int \<Rightarrow> int \<Rightarrow> int result" where
  "int8_to_smallmoney pg arg =
     int8fixeddecimal_internal pg arg ''smallmoney''"

definition int8fixeddecimal :: "pg_int \<Rightarrow> int \<Rightarrow> int result" where
  "int8fixeddecimal pg arg =
     int8fixeddecimal_internal pg arg ''fixeddecimal''"

definition fixeddecimalint8 :: "int \<Rightarrow> int result" where
  "fixeddecimalint8 arg0 =
     (let arg = arg0 sdiv FIXEDDECIMAL_MULTIPLIER
      in if to_int64 arg \<noteq> arg
         then ereport ERRCODE_NUMERIC_VALUE_OUT_OF_RANGE ''integer out of range''
         else Inr (to_int64 arg))"

definition fixeddecimalint4 :: "int \<Rightarrow> int result" where
  "fixeddecimalint4 arg0 =
     (let arg = arg0 sdiv FIXEDDECIMAL_MULTIPLIER
      in if to_int32 arg \<noteq> arg
         then ereport ERRCODE_NUMERIC_VALUE_OUT_OF_RANGE ''integer out of range''
         else Inr (to_int32 arg))"

definition fixeddecimalint2 :: "int \<Rightarrow> int result" where
  "fixeddecimalint2 arg0 =
     (let arg = arg0 sdiv FIXEDDECIMAL_MULTIPLIER
      in if to_int16 arg \<noteq> arg
         then ereport ERRCODE_NUMERIC_VALUE_OUT_OF_RANGE ''smallint out of range''
         else Inr (to_int16 arg))"

definition int4fixeddecimal :: "int \<Rightarrow> int" where
  "int4fixeddecimal arg =
     to_int64 (arg * FIXEDDECIMAL_MULTIPLIER)"

definition int2fixeddecimal :: "int \<Rightarrow> int" where
  "int2fixeddecimal arg =
     to_int64 (arg * FIXEDDECIMAL_MULTIPLIER)"

subsection \<open>Ceiling and floor\<close>

definition fixeddecimal_ceiling :: "pg_int \<Rightarrow> int \<Rightarrow> int result" where
  "fixeddecimal_ceiling pg arg1 =
     (let truncvalue = to_int64 (arg1 - arg1 smod FIXEDDECIMAL_MULTIPLIER)
      in if 0 < arg1 \<and> arg1 smod FIXEDDECIMAL_MULTIPLIER \<noteq> 0
         then on_overflow (pg_add_s64_overflow pg truncvalue FIXEDDECIMAL_MULTIPLIER) money_range Inr
         else Inr truncvalue)"

definition fixeddecimal_floor :: "pg_int \<Rightarrow> int \<Rightarrow> int result" where
  "fixeddecimal_floor pg arg1 =
     (let truncvalue = to_int64 (arg1 - arg1 smod FIXEDDECIMAL_MULTIPLIER)
      in if arg1 < 0 \<and> arg1 smod FIXEDDECIMAL_MULTIPLIER \<noteq> 0
         then on_overflow (pg_sub_s64_overflow pg truncvalue FIXEDDECIMAL_MULTIPLIER) money_range Inr
         else Inr truncvalue)"

section \<open>Reference notions\<close>

text \<open>A product of two money values, rounded half away from zero.\<close>

definition round_product :: "int \<Rightarrow> int \<Rightarrow> int" where
  "round_product a b = sgn (a * b) * ((\<bar>a * b\<bar> + 5000) div 10000)"

abbreviation out_of_range :: pg_error where
  "out_of_range \<equiv> Report ERROR ERRCODE_NUMERIC_VALUE_OUT_OF_RANGE ''fixeddecimal out of range''"

section \<open>The contract of a checked operator\<close>

text \<open>
  \<open>conv\<close> says whether the operands can be brought to the type of the result at all, \<open>exact\<close>
  is the mathematical result.
\<close>

locale checked_op =
  fixes ok :: "'p \<Rightarrow> bool" and dom :: "int \<Rightarrow> int \<Rightarrow> bool" and conv :: "int \<Rightarrow> int \<Rightarrow> bool"
    and w :: nat and op :: "'p \<Rightarrow> int \<Rightarrow> int \<Rightarrow> int result"
    and exact :: "int \<Rightarrow> int \<Rightarrow> int" and err :: pg_error
  assumes op_val: "ok p \<Longrightarrow> dom a b \<Longrightarrow>
    op p a b = (if conv a b \<and> in_s w (exact a b) then Inr (exact a b) else Inl err)"
begin

lemma sound: "ok p \<Longrightarrow> dom a b \<Longrightarrow> op p a b = Inr r \<Longrightarrow> r = exact a b \<and> in_s w r"
  by (simp add: op_val split: if_splits)

lemma succeeds_iff:
  "ok p \<Longrightarrow> dom a b \<Longrightarrow> (\<exists>r. op p a b = Inr r) \<longleftrightarrow> conv a b \<and> in_s w (exact a b)"
  by (simp add: op_val)

lemma only_error: "ok p \<Longrightarrow> dom a b \<Longrightarrow> op p a b = Inl e \<Longrightarrow> e = err"
  by (simp add: op_val split: if_splits)

end

locale checked_agree =
  f: checked_op ok dom conv w op exact err +
  g: checked_op ok dom' conv' w op' exact' err
  for ok :: "'p \<Rightarrow> bool" and dom conv w op exact err dom' conv' op' exact' +
  fixes ca :: "int \<Rightarrow> int" and cb :: "int \<Rightarrow> int"
  assumes lifted: "dom a b \<Longrightarrow> conv a b \<Longrightarrow>
    dom' (ca a) (cb b) \<and> conv' (ca a) (cb b) \<and> exact a b = exact' (ca a) (cb b)"
begin

lemma agree: "ok p \<Longrightarrow> dom a b \<Longrightarrow> conv a b \<Longrightarrow> op p a b = op' p (ca a) (cb b)"
  by (simp add: f.op_val g.op_val lifted)

end

section \<open>Overflow tests\<close>

lemma wrap_s_shift:
  assumes "0 < w" and "in_s w (x + k * 2 ^ w)"
  shows "wrap_s w x = x + k * 2 ^ w"
proof -
  have "wrap_s w x = wrap_s w (x + k * 2 ^ w)"
    using mod_mult_self1 [of "x + 2 ^ (w - 1)" k "2 ^ w"] by (simp add: wrap_s_def ac_simps)
  then show ?thesis using assms by simp
qed

lemma wrap_s_multiple: "\<exists>k. wrap_s w x = x + k * 2 ^ w"
proof -
  have "(x + 2 ^ (w - 1)) mod 2 ^ w = x + 2 ^ (w - 1) - (x + 2 ^ (w - 1)) div 2 ^ w * 2 ^ w"
    by (simp add: minus_div_mult_eq_mod [symmetric])
  then have "wrap_s w x = x + (- ((x + 2 ^ (w - 1)) div 2 ^ w)) * 2 ^ w"
    by (simp add: wrap_s_def)
  then show ?thesis ..
qed

lemma add_sign_test:
  assumes "int64 a" and "int64 b"
  shows "(SAMESIGN a b \<and> \<not> SAMESIGN (to_int64 (a + b)) a) \<longleftrightarrow> \<not> int64 (a + b)"
proof (cases "int64 (a + b)")
  case True
  then show ?thesis by (auto simp: SAMESIGN_def)
next
  case False
  then have "to_int64 (a + b) = (if 0 \<le> a then a + b - 2 ^ 64 else a + b + 2 ^ 64) \<and> SAMESIGN a b"
    using assms wrap_s_shift [of 64 "a + b" "- 1"] wrap_s_shift [of 64 "a + b" 1]
    by (auto simp: int64_iff SAMESIGN_def)
  with False assms show ?thesis by (auto simp: int64_iff SAMESIGN_def)
qed

lemma sub_sign_test:
  assumes "int64 a" and "int64 b"
  shows "(\<not> SAMESIGN a b \<and> \<not> SAMESIGN (to_int64 (a - b)) a) \<longleftrightarrow> \<not> int64 (a - b)"
proof (cases "int64 (a - b)")
  case True
  then show ?thesis by (auto simp: SAMESIGN_def)
next
  case False
  then have "to_int64 (a - b) = (if 0 \<le> a then a - b - 2 ^ 64 else a - b + 2 ^ 64) \<and> \<not> SAMESIGN a b"
    using assms wrap_s_shift [of 64 "a - b" "- 1"] wrap_s_shift [of 64 "a - b" 1]
    by (auto simp: int64_iff SAMESIGN_def)
  with False assms show ?thesis by (auto simp: int64_iff SAMESIGN_def)
qed

lemma neg_sign_test:
  assumes "int64 a"
  shows "(a \<noteq> 0 \<and> SAMESIGN (to_int64 (- a)) a) \<longleftrightarrow> \<not> int64 (- a)"
proof (cases "int64 (- a)")
  case True
  then show ?thesis by (auto simp: SAMESIGN_def)
next
  case False
  then have "a = - (2 ^ 63)" using assms by (auto simp: int64_iff)
  then show ?thesis using False by (simp add: SAMESIGN_def wrap_s_def)
qed

text \<open>Dividing the wrapped product by one factor gives the other one back only without overflow.\<close>

lemma mult_sdiv_self: "a \<noteq> 0 \<Longrightarrow> a * b sdiv a = (b :: int)"
  using sdiv_mult_smod_eq [of "a * b" a] by (simp add: signed_modulo_int_def abs_mult mult.commute)

lemma abs_smod_less: "y \<noteq> 0 \<Longrightarrow> \<bar>x smod y\<bar> < \<bar>y :: int\<bar>"
  by (simp add: signed_modulo_int_def abs_mult abs_sgn_eq)

lemma mul_division_test:
  assumes "int64 a" and "a \<noteq> 0"
  shows "to_int64 (a * b) sdiv a \<noteq> b \<longleftrightarrow> \<not> int64 (a * b)"
proof
  assume "to_int64 (a * b) sdiv a \<noteq> b"
  with assms(2) show "\<not> int64 (a * b)" by (auto simp: mult_sdiv_self)
next
  assume of: "\<not> int64 (a * b)"
  show "to_int64 (a * b) sdiv a \<noteq> b"
  proof
    assume eq: "to_int64 (a * b) sdiv a = b"
    define W where "W = (2 :: int) ^ 64"
    have aW: "\<bar>a\<bar> < W" using assms(1) by (auto simp: int64_iff W_def)
    obtain k where k: "to_int64 (a * b) = a * b + k * W"
      using wrap_s_multiple [of 64 "a * b"] unfolding W_def by blast
    have "b * a + to_int64 (a * b) smod a = to_int64 (a * b)"
      using sdiv_mult_smod_eq [of "to_int64 (a * b)" a] unfolding eq .
    then have "to_int64 (a * b) smod a = k * W"
      unfolding k mult.commute [of b a] by linarith
    then have "\<bar>k * W\<bar> < W"
      using abs_smod_less [OF assms(2), of "to_int64 (a * b)"] aW by linarith
    moreover have "W \<le> \<bar>k * W\<bar>" if "k \<noteq> 0"
    proof -
      have "1 * W \<le> \<bar>k\<bar> * W" using that by (intro mult_right_mono) (auto simp: W_def)
      then show ?thesis by (simp add: abs_mult W_def)
    qed
    ultimately have "k = 0" by linarith
    with k have "to_int64 (a * b) = a * b" by simp
    with of show False by (simp add: wrap_s_eq_iff)
  qed
qed

lemma mul_small: 
  assumes "int32 a" and "int32 b"
  shows "int64 (a * b)"
proof -
  have "\<bar>a\<bar> * \<bar>b\<bar> \<le> 2147483648 * 2147483648"
    using assms by (intro mult_mono) (auto simp: int32_iff)
  then show ?thesis by (simp add: int64_iff abs_mult [symmetric] abs_le_iff)
qed

lemma mul_test:
  assumes "int64 a" and "int32 b"
  shows "(a \<noteq> to_int32 a \<and> to_int64 (a * b) sdiv a \<noteq> b) \<longleftrightarrow> \<not> int64 (a * b)"
proof (cases "int32 a")
  case True
  then show ?thesis using mul_small assms by simp
next
  case False
  then have "a \<noteq> to_int32 a" using wrap_s_eq_iff [of 32 a] by auto
  moreover have "a \<noteq> 0" using False by (auto simp: int32_iff)
  ultimately show ?thesis using mul_division_test [OF assms(1)] by simp
qed

lemma mul_checked:
  assumes "int64 a" and "int32 b"
  shows "(if a \<noteq> to_int32 a \<and> to_int64 (a * b) sdiv a \<noteq> b then e else Inr (to_int64 (a * b))) =
    (if int64 (a * b) then Inr (a * b) else e)"
  using mul_test [OF assms] by simp

lemma mul_checked_swapped:
  assumes "int32 a" and "int64 b"
  shows "(if b \<noteq> to_int32 b \<and> to_int64 (a * b) sdiv b \<noteq> a then e else Inr (to_int64 (a * b))) =
    (if int64 (a * b) then Inr (a * b) else e)"
  unfolding mult.commute [of a b] by (rule mul_checked [OF assms(2,1)])

lemma add_checked:
  assumes "int64 a" and "int64 b"
  shows "(if SAMESIGN a b \<and> \<not> SAMESIGN (to_int64 (a + b)) a then e else Inr (to_int64 (a + b))) =
    (if int64 (a + b) then Inr (a + b) else e)"
  using add_sign_test [OF assms] by simp

lemma sub_checked:
  assumes "int64 a" and "int64 b"
  shows "(if \<not> SAMESIGN a b \<and> \<not> SAMESIGN (to_int64 (a - b)) a then e else Inr (to_int64 (a - b))) =
    (if int64 (a - b) then Inr (a - b) else e)"
  using sub_sign_test [OF assms] by simp

section \<open>Multiplication and division\<close>

lemma round_half: "(q + 5000) div 10000 = (if q mod 10000 < 5000 then q div 10000 else q div 10000 + (1 :: int))"
proof -
  have "(q + 5000) div 10000 = q div 10000 + (q mod 10000 + 5000) div 10000"
    using div_mult_self2 [of 10000 "q mod 10000 + 5000" "q div 10000"] by (simp add: algebra_simps)
  moreover have "(q mod 10000 + 5000) div 10000 = (if q mod 10000 < 5000 then 0 else 1)"
    using pos_mod_bound [of 10000 q] pos_mod_sign [of 10000 q]
    by (simp add: div_pos_pos_trivial int_div_pos_eq [of _ 10000 1 "q mod 10000 + 5000 - 10000"])
  ultimately show ?thesis by simp
qed

lemma abs_smod: "y \<noteq> 0 \<Longrightarrow> \<bar>x smod y\<bar> = \<bar>x\<bar> mod \<bar>y :: int\<bar>"
  by (auto simp: signed_modulo_int_def abs_mult abs_sgn_eq abs_of_nonneg)

text \<open>The last four digits of the product, as the rounding test computes them.\<close>

lemma mul_digits:
  assumes "int64 a" and "\<bar>b\<bar> \<le> 922337203685477"
  shows "c_abs ((to_int64 (a smod 10000 * b) smod 10000) smod 10000) = \<bar>a * b\<bar> mod 10000"
proof -
  let ?x = "a smod 10000 * b"
  have ax: "\<bar>?x\<bar> = \<bar>a\<bar> mod 10000 * \<bar>b\<bar>" by (simp add: abs_mult abs_smod)
  have "\<bar>a\<bar> mod 10000 * \<bar>b\<bar> \<le> 9999 * 922337203685477"
    using assms(2) pos_mod_bound [of 10000 "\<bar>a\<bar>"] by (intro mult_mono) auto
  with ax have "int64 ?x" unfolding int64_iff by linarith
  then have x: "to_int64 ?x = ?x" by simp
  have d: "\<bar>(?x smod 10000) smod 10000\<bar> = \<bar>a * b\<bar> mod 10000"
    by (simp add: abs_smod ax abs_mult mod_mult_left_eq)
  moreover have "\<bar>(?x smod 10000) smod 10000\<bar> < 10000" using abs_smod_less [of 10000] by simp
  then have "int32 ((?x smod 10000) smod 10000)" "(?x smod 10000) smod 10000 \<noteq> INT32_MIN"
    unfolding int32_iff INT32_MIN_def by linarith+
  ultimately show ?thesis unfolding x by (simp add: c_abs_eq)
qed

lemma mul_int128: 
  assumes "int64 a" and "int64 b"
  shows "to_int128 (a * b) = a * b"
proof -
  have "\<bar>a\<bar> * \<bar>b\<bar> \<le> 9223372036854775808 * 9223372036854775808"
    using assms by (intro mult_mono) (auto simp: int64_iff)
  then have "int128 (a * b)" by (simp add: int128_iff abs_mult [symmetric] abs_le_iff)
  then show ?thesis by simp
qed

lemma fits_int64: "(if r \<noteq> to_int64 r then e else Inr (to_int64 r)) = (if int64 r then Inr r else e)"
  using wrap_s_eq_iff [of 64 r] by auto

lemma fixeddecimalmul_eq:
  assumes "int64 a" and "int64 b" and "\<bar>b\<bar> \<le> 922337203685477"
  shows "fixeddecimalmul a b =
    (let p = a * b; q = p sdiv 10000;
         r = (if \<bar>p\<bar> mod 10000 < 5000 then q else if q < 0 then q - 1 else q + 1)
     in if int64 r then Inr r else money_range)"
proof -
  have d: "c_abs ((to_int64 (a smod 10000 * b) smod 10000) smod 10000) = \<bar>a * b\<bar> mod 10000"
    by (rule mul_digits) (use assms in auto)
  show ?thesis
    unfolding fixeddecimalmul_def Let_def FIXEDDECIMAL_MULTIPLIER_def FIXEDDECIMAL_ROUNDUP_def
      mul_int128 [OF assms(1,2)] d fits_int64 by (simp add: not_less)
qed

lemma fixeddecimalmul_rounded:
  assumes "int64 a" and "int64 b" and "\<bar>b\<bar> \<le> 922337203685477"
    and "a * b \<notin> {- 9999 .. - 5000}"
  shows "fixeddecimalmul a b = (if int64 (round_product a b) then Inr (round_product a b) else money_range)"
proof -
  let ?p = "a * b" and ?q = "a * b sdiv 10000"
  have "(if \<bar>?p\<bar> mod 10000 < 5000 then ?q else if ?q < 0 then ?q - 1 else ?q + 1) = round_product a b"
  proof (cases "0 \<le> ?p")
    case True
    then show ?thesis
      using round_half [of ?p] by (auto simp: round_product_def sgn_if sdiv_nonneg not_less)
  next
    case False
    then have q: "?q = - (- ?p div 10000)" by (simp add: sdiv_neg)
    have "1 \<le> - ?p div 10000 \<or> - ?p mod 10000 < 5000"
      using False assms(4) by auto
    with False q show ?thesis
      using round_half [of "- ?p"] by (auto simp: round_product_def sgn_if)
  qed
  then show ?thesis using fixeddecimalmul_eq [OF assms(1-3)] by (simp add: Let_def)
qed

lemma fixeddecimalmul_wrong_sign:
  assumes "int64 a" and "int64 b" and "\<bar>b\<bar> \<le> 922337203685477"
    and "a * b \<in> {- 9999 .. - 5000}"
  shows "fixeddecimalmul a b = Inr 1"
proof -
  have "a * b sdiv 10000 = 0" "\<not> \<bar>a * b\<bar> mod 10000 < 5000"
    using assms(4) by (auto simp: sdiv_neg)
  then show ?thesis
    using fixeddecimalmul_eq [OF assms(1-3)] by (simp add: Let_def int64_iff)
qed

lemma fixeddecimaldiv_eq:
  assumes "int64 a" and "int64 b" and "b \<noteq> 0"
  shows "fixeddecimaldiv a b =
    (if int64 (a * 10000 sdiv b) then Inr (a * 10000 sdiv b) else money_range)"
proof -
  have "to_int128 (a * 10000) = a * 10000"
    using assms(1) by (intro mul_int128) (auto simp: int64_iff)
  then show ?thesis
    using assms(3) unfolding fixeddecimaldiv_def FIXEDDECIMAL_MULTIPLIER_def Let_def fits_int64 by simp
qed

lemma fixeddecimalmod_eq:
  assumes "b \<noteq> 0"
  shows "fixeddecimalmod a b = Inr (a smod b)"
  using assms by (auto simp: fixeddecimalmod_def signed_modulo_int_def)

lemma negation_eq:
  assumes "int64 a"
  shows "fixeddecimalum a = (if int64 (- a) then Inr (- a) else money_range)"
    and "fixeddecimalabs a = (if int64 \<bar>a\<bar> then Inr \<bar>a\<bar> else money_range)"
proof -
  show "fixeddecimalum a = (if int64 (- a) then Inr (- a) else money_range)"
    using neg_sign_test [OF assms] by (auto simp: fixeddecimalum_def Let_def)
  show "fixeddecimalabs a = (if int64 \<bar>a\<bar> then Inr \<bar>a\<bar> else money_range)"
  proof (cases "a = - 9223372036854775808")
    case True
    then show ?thesis by (simp add: fixeddecimalabs_def wrap_s_def int64_iff)
  next
    case False
    then have "int64 (- a)" using assms by (auto simp: int64_iff)
    with assms show ?thesis by (auto simp: fixeddecimalabs_def Let_def int64_iff)
  qed
qed

lemma int_division_eq:
  assumes "int64 a" and "n \<noteq> 0"
  shows "fixeddecimalint8div a n = (if int64 (a sdiv n) then Inr (a sdiv n) else money_range)"
    and "fixeddecimalint4div a n = (if int64 (a sdiv n) then Inr (a sdiv n) else money_range)"
    and "fixeddecimalint2div a n = (if int64 (a sdiv n) then Inr (a sdiv n) else money_range)"
proof -
  have neg: "int64 (- a) \<longleftrightarrow> a \<noteq> INT64_MIN" using assms(1) by (auto simp: c_int)
  have quot: "int64 (a sdiv n)" if "n \<noteq> - 1" using that assms int64_sdiv by blast
  show "fixeddecimalint8div a n = (if int64 (a sdiv n) then Inr (a sdiv n) else money_range)"
    using assms neg quot by (auto simp: fixeddecimalint8div_def)
  show "fixeddecimalint4div a n = (if int64 (a sdiv n) then Inr (a sdiv n) else money_range)"
    "fixeddecimalint2div a n = (if int64 (a sdiv n) then Inr (a sdiv n) else money_range)"
    using assms quot neg_sign_test [OF assms(1)]
    by (auto simp: fixeddecimalint4div_def fixeddecimalint2div_def Let_def)
qed

section \<open>The operators keep the contract\<close>

lemma money_unit: "FIXEDDECIMAL_MULTIPLIER = 10000" "int64 10000"
  by (simp_all add: FIXEDDECIMAL_MULTIPLIER_def int64_iff)

lemma int64_scaled: "int32 n \<Longrightarrow> int64 (10000 * n)" "int16 n \<Longrightarrow> int64 (10000 * n)"
  by (auto simp: c_int)

interpretation money_pl: checked_op pg_int_spec "\<lambda>a b. int64 a \<and> int64 b" "\<lambda>_ _. True" 64
  fixeddecimalpl "(+)" out_of_range
  by unfold_locales (auto simp: fixeddecimalpl_def on_overflow_laws)

interpretation money_mi: checked_op pg_int_spec "\<lambda>a b. int64 a \<and> int64 b" "\<lambda>_ _. True" 64
  fixeddecimalmi "(-)" out_of_range
  by unfold_locales (auto simp: fixeddecimalmi_def on_overflow_laws)

interpretation money_int8_mul: checked_op pg_int_spec "\<lambda>a b. int64 a \<and> int64 b" "\<lambda>_ _. True" 64
  fixeddecimalint8mul "(*)" out_of_range
  by unfold_locales (auto simp: fixeddecimalint8mul_def on_overflow_laws)

interpretation int8_money_mul: checked_op pg_int_spec "\<lambda>a b. int64 a \<and> int64 b" "\<lambda>_ _. True" 64
  int8fixeddecimalmul "(*)" out_of_range
  by unfold_locales (auto simp: int8fixeddecimalmul_def on_overflow_laws)

interpretation money_int4_mul: checked_op pg_int_spec "\<lambda>a b. int64 a \<and> int32 b" "\<lambda>a b. True" 64
  "\<lambda>_. fixeddecimalint4mul" "(*)" out_of_range
  by unfold_locales (simp add: fixeddecimalint4mul_def Let_def mul_checked int16_int32)

interpretation int4_money_mul: checked_op pg_int_spec "\<lambda>a b. int32 a \<and> int64 b" "\<lambda>a b. True" 64
  "\<lambda>_. int4fixeddecimalmul" "(*)" out_of_range
  by unfold_locales (simp add: int4fixeddecimalmul_def Let_def mul_checked_swapped int16_int32)

interpretation money_int4_pl: checked_op pg_int_spec "\<lambda>a b. int64 a \<and> int32 b" "\<lambda>a b. True" 64
  "\<lambda>_. fixeddecimalint4pl" "\<lambda>a b. a + 10000 * b" out_of_range
  by unfold_locales (simp add: fixeddecimalint4pl_def Let_def int4_scaled add_checked int64_scaled)

interpretation int4_money_pl: checked_op pg_int_spec "\<lambda>a b. int32 a \<and> int64 b" "\<lambda>a b. True" 64
  "\<lambda>_. int4fixeddecimalpl" "\<lambda>a b. 10000 * a + b" out_of_range
  by unfold_locales (simp add: int4fixeddecimalpl_def Let_def int4_scaled add_checked int64_scaled)

interpretation money_int4_mi: checked_op pg_int_spec "\<lambda>a b. int64 a \<and> int32 b" "\<lambda>a b. True" 64
  "\<lambda>_. fixeddecimalint4mi" "\<lambda>a b. a - 10000 * b" out_of_range
  by unfold_locales (simp add: fixeddecimalint4mi_def Let_def int4_scaled sub_checked int64_scaled)

interpretation int4_money_mi: checked_op pg_int_spec "\<lambda>a b. int32 a \<and> int64 b" "\<lambda>a b. True" 64
  "\<lambda>_. int4fixeddecimalmi" "\<lambda>a b. 10000 * a - b" out_of_range
  by unfold_locales (simp add: int4fixeddecimalmi_def Let_def int4_scaled sub_checked int64_scaled)

interpretation money_int2_mul: checked_op pg_int_spec "\<lambda>a b. int64 a \<and> int16 b" "\<lambda>a b. True" 64
  "\<lambda>_. fixeddecimalint2mul" "(*)" out_of_range
  by unfold_locales (simp add: fixeddecimalint2mul_def Let_def mul_checked int16_int32)

interpretation int2_money_mul: checked_op pg_int_spec "\<lambda>a b. int16 a \<and> int64 b" "\<lambda>a b. True" 64
  "\<lambda>_. int2fixeddecimalmul" "(*)" out_of_range
  by unfold_locales (simp add: int2fixeddecimalmul_def Let_def mul_checked_swapped int16_int32)

interpretation money_int2_pl: checked_op pg_int_spec "\<lambda>a b. int64 a \<and> int16 b" "\<lambda>a b. True" 64
  "\<lambda>_. fixeddecimalint2pl" "\<lambda>a b. a + 10000 * b" out_of_range
  by unfold_locales (simp add: fixeddecimalint2pl_def Let_def int2_scaled add_checked int64_scaled)

interpretation int2_money_pl: checked_op pg_int_spec "\<lambda>a b. int16 a \<and> int64 b" "\<lambda>a b. True" 64
  "\<lambda>_. int2fixeddecimalpl" "\<lambda>a b. 10000 * a + b" out_of_range
  by unfold_locales (simp add: int2fixeddecimalpl_def Let_def int2_scaled add_checked int64_scaled)

interpretation money_int2_mi: checked_op pg_int_spec "\<lambda>a b. int64 a \<and> int16 b" "\<lambda>a b. True" 64
  "\<lambda>_. fixeddecimalint2mi" "\<lambda>a b. a - 10000 * b" out_of_range
  by unfold_locales (simp add: fixeddecimalint2mi_def Let_def int2_scaled sub_checked int64_scaled)

interpretation int2_money_mi: checked_op pg_int_spec "\<lambda>a b. int16 a \<and> int64 b" "\<lambda>a b. True" 64
  "\<lambda>_. int2fixeddecimalmi" "\<lambda>a b. 10000 * a - b" out_of_range
  by unfold_locales (simp add: int2fixeddecimalmi_def Let_def int2_scaled sub_checked int64_scaled)

interpretation money_int8_pl: checked_op pg_int_spec "\<lambda>a b. int64 a \<and> int64 b" "\<lambda>a b. int64 (10000 * b)" 64
  fixeddecimalint8pl "\<lambda>a b. a + 10000 * b" out_of_range
  by unfold_locales (simp add: fixeddecimalint8pl_def on_overflow_laws money_unit mult.commute)

interpretation int8_money_pl: checked_op pg_int_spec "\<lambda>a b. int64 a \<and> int64 b" "\<lambda>a b. int64 (10000 * a)" 64
  int8fixeddecimalpl "\<lambda>a b. 10000 * a + b" out_of_range
  by unfold_locales (simp add: int8fixeddecimalpl_def on_overflow_laws money_unit mult.commute)

interpretation money_int8_mi: checked_op pg_int_spec "\<lambda>a b. int64 a \<and> int64 b" "\<lambda>a b. int64 (10000 * b)" 64
  fixeddecimalint8mi "\<lambda>a b. a - 10000 * b" out_of_range
  by unfold_locales (simp add: fixeddecimalint8mi_def on_overflow_laws money_unit mult.commute)

interpretation int8_money_mi: checked_op pg_int_spec "\<lambda>a b. int64 a \<and> int64 b" "\<lambda>a b. int64 (10000 * a)" 64
  int8fixeddecimalmi "\<lambda>a b. 10000 * a - b" out_of_range
  by unfold_locales (simp add: int8fixeddecimalmi_def on_overflow_laws money_unit mult.commute)

text \<open>Each overloaded sum stands for the one on money after converting the integer.\<close>

interpretation money_int4_pl_agree: checked_agree pg_int_spec "\<lambda>a b. int64 a \<and> int32 b" "\<lambda>a b. True" 64
  "\<lambda>_. fixeddecimalint4pl" "\<lambda>a b. a + 10000 * b" out_of_range
  "\<lambda>a b. int64 a \<and> int64 b" "\<lambda>a b. True" fixeddecimalpl "(+)" id int4fixeddecimal
  by unfold_locales (simp add: int4fixeddecimal_def int4_scaled int64_scaled)

interpretation int4_money_pl_agree: checked_agree pg_int_spec "\<lambda>a b. int32 a \<and> int64 b" "\<lambda>a b. True" 64
  "\<lambda>_. int4fixeddecimalpl" "\<lambda>a b. 10000 * a + b" out_of_range
  "\<lambda>a b. int64 a \<and> int64 b" "\<lambda>a b. True" fixeddecimalpl "(+)" int4fixeddecimal id
  by unfold_locales (simp add: int4fixeddecimal_def int4_scaled int64_scaled)

interpretation money_int4_mi_agree: checked_agree pg_int_spec "\<lambda>a b. int64 a \<and> int32 b" "\<lambda>a b. True" 64
  "\<lambda>_. fixeddecimalint4mi" "\<lambda>a b. a - 10000 * b" out_of_range
  "\<lambda>a b. int64 a \<and> int64 b" "\<lambda>a b. True" fixeddecimalmi "(-)" id int4fixeddecimal
  by unfold_locales (simp add: int4fixeddecimal_def int4_scaled int64_scaled)

interpretation int4_money_mi_agree: checked_agree pg_int_spec "\<lambda>a b. int32 a \<and> int64 b" "\<lambda>a b. True" 64
  "\<lambda>_. int4fixeddecimalmi" "\<lambda>a b. 10000 * a - b" out_of_range
  "\<lambda>a b. int64 a \<and> int64 b" "\<lambda>a b. True" fixeddecimalmi "(-)" int4fixeddecimal id
  by unfold_locales (simp add: int4fixeddecimal_def int4_scaled int64_scaled)

interpretation money_int2_pl_agree: checked_agree pg_int_spec "\<lambda>a b. int64 a \<and> int16 b" "\<lambda>a b. True" 64
  "\<lambda>_. fixeddecimalint2pl" "\<lambda>a b. a + 10000 * b" out_of_range
  "\<lambda>a b. int64 a \<and> int64 b" "\<lambda>a b. True" fixeddecimalpl "(+)" id int2fixeddecimal
  by unfold_locales (simp add: int2fixeddecimal_def int2_scaled int64_scaled)

interpretation int2_money_pl_agree: checked_agree pg_int_spec "\<lambda>a b. int16 a \<and> int64 b" "\<lambda>a b. True" 64
  "\<lambda>_. int2fixeddecimalpl" "\<lambda>a b. 10000 * a + b" out_of_range
  "\<lambda>a b. int64 a \<and> int64 b" "\<lambda>a b. True" fixeddecimalpl "(+)" int2fixeddecimal id
  by unfold_locales (simp add: int2fixeddecimal_def int2_scaled int64_scaled)

interpretation money_int2_mi_agree: checked_agree pg_int_spec "\<lambda>a b. int64 a \<and> int16 b" "\<lambda>a b. True" 64
  "\<lambda>_. fixeddecimalint2mi" "\<lambda>a b. a - 10000 * b" out_of_range
  "\<lambda>a b. int64 a \<and> int64 b" "\<lambda>a b. True" fixeddecimalmi "(-)" id int2fixeddecimal
  by unfold_locales (simp add: int2fixeddecimal_def int2_scaled int64_scaled)

interpretation int2_money_mi_agree: checked_agree pg_int_spec "\<lambda>a b. int16 a \<and> int64 b" "\<lambda>a b. True" 64
  "\<lambda>_. int2fixeddecimalmi" "\<lambda>a b. 10000 * a - b" out_of_range
  "\<lambda>a b. int64 a \<and> int64 b" "\<lambda>a b. True" fixeddecimalmi "(-)" int2fixeddecimal id
  by unfold_locales (simp add: int2fixeddecimal_def int2_scaled int64_scaled)

section \<open>Conversions and rounding to whole units\<close>

lemma to_integer_eq:
  assumes "int64 v"
  shows "fixeddecimalint8 v = Inr (v sdiv 10000)"
    and "fixeddecimalint4 v = (if int32 (v sdiv 10000) then Inr (v sdiv 10000)
      else ereport ERRCODE_NUMERIC_VALUE_OUT_OF_RANGE ''integer out of range'')"
    and "fixeddecimalint2 v = (if int16 (v sdiv 10000) then Inr (v sdiv 10000)
      else ereport ERRCODE_NUMERIC_VALUE_OUT_OF_RANGE ''smallint out of range'')"
proof -
  have "int64 (v sdiv 10000)" using assms by (intro int64_sdiv) simp_all
  then show "fixeddecimalint8 v = Inr (v sdiv 10000)" by (simp add: fixeddecimalint8_def money_unit Let_def)
  show "fixeddecimalint4 v = (if int32 (v sdiv 10000) then Inr (v sdiv 10000)
      else ereport ERRCODE_NUMERIC_VALUE_OUT_OF_RANGE ''integer out of range'')"
    using wrap_s_eq_iff [of 32 "v sdiv 10000"] by (auto simp: fixeddecimalint4_def money_unit Let_def)
  show "fixeddecimalint2 v = (if int16 (v sdiv 10000) then Inr (v sdiv 10000)
      else ereport ERRCODE_NUMERIC_VALUE_OUT_OF_RANGE ''smallint out of range'')"
    using wrap_s_eq_iff [of 16 "v sdiv 10000"] by (auto simp: fixeddecimalint2_def money_unit Let_def)
qed

lemma int8_money_eq:
  assumes "pg_int_spec pg" and "int64 n"
  shows "int8fixeddecimal pg n = (if int64 (10000 * n) then Inr (10000 * n)
    else ereport ERRCODE_NUMERIC_VALUE_OUT_OF_RANGE ''value \"%ld\" is out of range for type fixeddecimal'')"
  using assms
  by (simp add: int8fixeddecimal_def int8fixeddecimal_internal_def on_overflow_laws money_unit mult.commute)

lemma trunc_value:
  assumes "int64 v"
  shows "to_int64 (v - v smod 10000) = v sdiv 10000 * 10000"
proof -
  have v: "v - v smod 10000 = v sdiv 10000 * 10000"
    using sdiv_mult_smod_eq [of v 10000] by linarith
  moreover have "int64 (v sdiv 10000 * 10000)"
  proof (cases "0 \<le> v")
    case True
    then have "0 \<le> v div 10000 * 10000" "v div 10000 * 10000 \<le> v" by simp_all
    with True assms show ?thesis by (simp add: sdiv_nonneg int64_iff)
  next
    case False
    then have "0 \<le> - v div 10000 * 10000" "- v div 10000 * 10000 \<le> - v" by simp_all
    with False assms show ?thesis by (simp add: sdiv_neg int64_iff)
  qed
  ultimately show ?thesis by simp
qed

lemma ceiling_eq:
  assumes "pg_int_spec pg" and "int64 v"
  shows "fixeddecimal_ceiling pg v =
    (let c = - (- v div 10000) * 10000 in if int64 c then Inr c else money_range)"
proof -
  have t: "to_int64 (v - v smod 10000) = v sdiv 10000 * 10000" and i: "int64 (v sdiv 10000 * 10000)"
    using trunc_value [OF assms(2)] in_s_wrap_s [of 64 "v - v smod 10000"] by simp_all
  have "- (- v div 10000) = v sdiv 10000 + (if 0 < v \<and> v smod 10000 \<noteq> 0 then 1 else 0)"
  proof (cases "0 < v")
    case True
    then show ?thesis
      using zdiv_zminus1_eq_if [of 10000 v] by (simp add: sdiv_nonneg smod_nonneg)
  qed (simp add: sdiv_neg)
  then show ?thesis
    using i assms t
    by (simp add: fixeddecimal_ceiling_def money_unit Let_def on_overflow_laws algebra_simps)
qed

lemma floor_eq:
  assumes "pg_int_spec pg" and "int64 v"
  shows "fixeddecimal_floor pg v =
    (let c = v div 10000 * 10000 in if int64 c then Inr c else money_range)"
proof -
  have t: "to_int64 (v - v smod 10000) = v sdiv 10000 * 10000" and i: "int64 (v sdiv 10000 * 10000)"
    using trunc_value [OF assms(2)] in_s_wrap_s [of 64 "v - v smod 10000"] by simp_all
  have "v div 10000 = v sdiv 10000 - (if v < 0 \<and> v smod 10000 \<noteq> 0 then 1 else 0)"
  proof (cases "v < 0")
    case True
    then show ?thesis
      using zdiv_zminus1_eq_if [of 10000 "- v"] by (simp add: sdiv_neg smod_neg)
  qed (simp add: sdiv_nonneg)
  then show ?thesis
    using i assms t
    by (cases "v < 0 \<and> v smod 10000 \<noteq> 0")
      (auto simp: fixeddecimal_floor_def money_unit Let_def on_overflow_laws left_diff_distrib)
qed

section \<open>Properties\<close>

text \<open>
  C30 (sums). Addition and subtraction of money values give the exact result whenever it is
  a 64-bit value and the range error otherwise. With an integer or a smallint, in either
  argument position, they are the operation on money after converting the integer.
\<close>

theorem money_sums:
  assumes "pg_int_spec pg" and "int64 a"
  shows "(\<forall>b. int64 b \<longrightarrow>
      fixeddecimalpl pg a b = (if int64 (a + b) then Inr (a + b) else money_range) \<and>
      fixeddecimalmi pg a b = (if int64 (a - b) then Inr (a - b) else money_range)) \<and>
    (\<forall>n. int32 n \<longrightarrow>
      fixeddecimalint4pl a n = fixeddecimalpl pg a (int4fixeddecimal n) \<and>
      fixeddecimalint4mi a n = fixeddecimalmi pg a (int4fixeddecimal n) \<and>
      int4fixeddecimalpl n a = fixeddecimalpl pg (int4fixeddecimal n) a \<and>
      int4fixeddecimalmi n a = fixeddecimalmi pg (int4fixeddecimal n) a) \<and>
    (\<forall>n. int16 n \<longrightarrow>
      fixeddecimalint2pl a n = fixeddecimalpl pg a (int2fixeddecimal n) \<and>
      fixeddecimalint2mi a n = fixeddecimalmi pg a (int2fixeddecimal n) \<and>
      int2fixeddecimalpl n a = fixeddecimalpl pg (int2fixeddecimal n) a \<and>
      int2fixeddecimalmi n a = fixeddecimalmi pg (int2fixeddecimal n) a)"
  using assms money_pl.op_val money_mi.op_val
    money_int4_pl_agree.agree money_int4_mi_agree.agree int4_money_pl_agree.agree
    int4_money_mi_agree.agree money_int2_pl_agree.agree money_int2_mi_agree.agree
    int2_money_pl_agree.agree int2_money_mi_agree.agree
  by simp

theorem money_sums_witness:
  "fixeddecimalpl pg_int_builtin INT64_MAX 1 = money_range \<and>
   fixeddecimalint4mi 5 2 = Inr (- 19995)"
proof -
  have "fixeddecimalpl pg_int_builtin INT64_MAX 1 = money_range"
    using money_sums [of pg_int_builtin INT64_MAX] by (simp add: int64_iff INT64_MAX_def)
  moreover have "fixeddecimalint4mi 5 2 = Inr (- 19995)"
    using money_sums [of pg_int_builtin 5]
    by (simp add: int64_iff int32_iff int4fixeddecimal_def int4_scaled)
  ultimately show ?thesis by simp
qed

text \<open>
  C28 (bigint operands of sums). A bigint operand outside the range of money is refused even
  where the sum would fit; every other sum is exact or the range error.
\<close>

theorem money_bigint_sums:
  assumes "pg_int_spec pg" and "int64 a" and "int64 n"
  shows "fixeddecimalint8pl pg a n =
      (if int64 (10000 * n) \<and> int64 (a + 10000 * n) then Inr (a + 10000 * n) else money_range) \<and>
    fixeddecimalint8mi pg a n =
      (if int64 (10000 * n) \<and> int64 (a - 10000 * n) then Inr (a - 10000 * n) else money_range) \<and>
    int8fixeddecimalpl pg n a =
      (if int64 (10000 * n) \<and> int64 (10000 * n + a) then Inr (10000 * n + a) else money_range) \<and>
    int8fixeddecimalmi pg n a =
      (if int64 (10000 * n) \<and> int64 (10000 * n - a) then Inr (10000 * n - a) else money_range)"
  using assms money_int8_pl.op_val money_int8_mi.op_val int8_money_pl.op_val int8_money_mi.op_val
  by simp

theorem money_bigint_sums_witness:
  "fixeddecimalint8pl pg_int_builtin (- 20000) 922337203685478 = money_range"
  using money_bigint_sums [of pg_int_builtin "- 20000" 922337203685478] by (simp add: int64_iff)

text \<open>
  C31 (products with integers). The product of a money value and an integer of any width is
  exact or the range error; the test that divides the wrapped product again misses no
  overflow.
\<close>

theorem money_integer_products:
  assumes "pg_int_spec pg" and "int64 a" and "int64 n"
  shows "fixeddecimalint8mul pg a n = (if int64 (a * n) then Inr (a * n) else money_range) \<and>
    int8fixeddecimalmul pg n a = (if int64 (n * a) then Inr (n * a) else money_range) \<and>
    (int32 n \<longrightarrow>
      fixeddecimalint4mul a n = (if int64 (a * n) then Inr (a * n) else money_range) \<and>
      int4fixeddecimalmul n a = (if int64 (n * a) then Inr (n * a) else money_range)) \<and>
    (int16 n \<longrightarrow>
      fixeddecimalint2mul a n = (if int64 (a * n) then Inr (a * n) else money_range) \<and>
      int2fixeddecimalmul n a = (if int64 (n * a) then Inr (n * a) else money_range))"
  using assms money_int8_mul.op_val int8_money_mul.op_val money_int4_mul.op_val
    int4_money_mul.op_val money_int2_mul.op_val int2_money_mul.op_val
  by simp

theorem money_integer_products_witness:
  "fixeddecimalint4mul 4611686018427387904 4 = money_range \<and> fixeddecimalint2mul (- 3) 7 = Inr (- 21)"
  using money_integer_products [of pg_int_builtin 4611686018427387904 4]
    money_integer_products [of pg_int_builtin "- 3" 7]
  by (simp add: c_int)



text \<open>
  C33 (a product with the wrong sign). In the case excluded above the result is +1
  ten-thousandth: the rounding step looks at the sign of the truncated quotient, which is 0.
\<close>

theorem money_product_wrong_sign:
  assumes "int64 a" and "int64 b" and "\<bar>b\<bar> \<le> 922337203685477" and "a * b \<in> {- 9999 .. - 5000}"
  shows "fixeddecimalmul a b = Inr 1"
  using assms by (rule fixeddecimalmul_wrong_sign)

theorem money_product_wrong_sign_witness: "fixeddecimalmul (- 1) 5000 = Inr 1"
  by (rule money_product_wrong_sign) (simp_all add: int64_iff)

text \<open>
  C34 (quotients). Dividing money by money or by an integer truncates towards zero, reports
  a quotient outside the 64-bit range, and reports a zero divisor; the remainder is the one
  of that division.
\<close>

theorem money_quotients:
  assumes "int64 a" and "int64 b"
  shows "fixeddecimaldiv a b = (if b = 0 then division_by_zero
      else if int64 (a * 10000 sdiv b) then Inr (a * 10000 sdiv b) else money_range) \<and>
    fixeddecimalint8div a b = (if b = 0 then division_by_zero
      else if int64 (a sdiv b) then Inr (a sdiv b) else money_range) \<and>
    fixeddecimalint4div a b = fixeddecimalint8div a b \<and>
    fixeddecimalint2div a b = fixeddecimalint8div a b \<and>
    fixeddecimalmod a b = (if b = 0 then division_by_zero else Inr (a - a sdiv b * b))"
proof (cases "b = 0")
  case True
  then show ?thesis
    by (simp add: fixeddecimaldiv_def fixeddecimalint8div_def fixeddecimalint4div_def
        fixeddecimalint2div_def fixeddecimalmod_def)
next
  case False
  have "a smod b = a - a sdiv b * b" using sdiv_mult_smod_eq [of a b] by linarith
  then show ?thesis
    using False fixeddecimaldiv_eq [OF assms] int_division_eq [OF assms(1)] fixeddecimalmod_eq by simp
qed

theorem money_quotients_witness:
  "fixeddecimalint8div INT64_MIN (- 1) = money_range \<and> fixeddecimaldiv 5 0 = division_by_zero"
  using money_quotients [of INT64_MIN "- 1"] money_quotients [of 5 0]
  by (simp add: int64_iff INT64_MIN_def)

text \<open>
  Negation and absolute value fail on the smallest value only.
\<close>

theorem money_negation:
  assumes "int64 a"
  shows "fixeddecimalum a = (if a = INT64_MIN then money_range else Inr (- a)) \<and>
    fixeddecimalabs a = (if a = INT64_MIN then money_range else Inr \<bar>a\<bar>)"
  using assms negation_eq [OF assms] by (auto simp: int64_iff INT64_MIN_def)

theorem money_negation_witness: "fixeddecimalum INT64_MIN = money_range"
  using money_negation [of INT64_MIN] by (simp add: int64_iff INT64_MIN_def)

text \<open>
  C33 (conversions). Converting a money value to an integer type drops the fraction and
  reports a value the type cannot hold; an integer converted to money and back is unchanged.
\<close>

theorem money_conversions:
  assumes "pg_int_spec pg" and "int64 v" and "int64 n"
  shows "fixeddecimalint8 v = Inr (v sdiv 10000) \<and>
    fixeddecimalint4 v = (if int32 (v sdiv 10000) then Inr (v sdiv 10000)
      else ereport ERRCODE_NUMERIC_VALUE_OUT_OF_RANGE ''integer out of range'') \<and>
    fixeddecimalint2 v = (if int16 (v sdiv 10000) then Inr (v sdiv 10000)
      else ereport ERRCODE_NUMERIC_VALUE_OUT_OF_RANGE ''smallint out of range'') \<and>
    (int16 n \<longrightarrow> fixeddecimalint2 (int2fixeddecimal n) = Inr n) \<and>
    (int32 n \<longrightarrow> fixeddecimalint4 (int4fixeddecimal n) = Inr n) \<and>
    (\<forall>m. int8fixeddecimal pg n = Inr m \<longrightarrow> fixeddecimalint8 m = Inr n)"
proof -
  have back_conv: "10000 * k sdiv 10000 = k" for k :: int
    using mult_sdiv_self [of 10000 k] by simp
  have "fixeddecimalint2 (int2fixeddecimal n) = Inr n" if "int16 n"
    using that int64_scaled by (simp add: int2fixeddecimal_def int2_scaled to_integer_eq back_conv)
  moreover have "fixeddecimalint4 (int4fixeddecimal n) = Inr n" if "int32 n"
    using that int64_scaled by (simp add: int4fixeddecimal_def int4_scaled to_integer_eq back_conv)
  moreover have "fixeddecimalint8 m = Inr n" if "int8fixeddecimal pg n = Inr m" for m
    using that assms by (auto simp: int8_money_eq to_integer_eq back_conv split: if_splits)
  ultimately show ?thesis using to_integer_eq [OF assms(2)] by simp
qed

theorem money_conversions_witness:
  "fixeddecimalint2 (- 19999) = Inr (- 1) \<and> fixeddecimalint4 (int4fixeddecimal 7) = Inr 7"
  using money_conversions [of pg_int_builtin "- 19999" 7] by (simp add: c_int sdiv_neg)

text \<open>
  Ceiling and floor. They are the next multiples of one unit above and below, or the
  range error when that multiple does not fit.
\<close>

theorem money_ceiling_floor:
  assumes "pg_int_spec pg" and "int64 v"
  shows "fixeddecimal_ceiling pg v =
      (let c = - (- v div 10000) * 10000 in if int64 c then Inr c else money_range) \<and>
    fixeddecimal_floor pg v =
      (let c = v div 10000 * 10000 in if int64 c then Inr c else money_range)"
  using ceiling_eq [OF assms] floor_eq [OF assms] by simp

theorem money_ceiling_floor_witness:
  "fixeddecimal_floor pg_int_builtin (- 1) = Inr (- 10000) \<and>
   fixeddecimal_ceiling pg_int_builtin INT64_MAX = money_range"
  using money_ceiling_floor [of pg_int_builtin "- 1"] money_ceiling_floor [of pg_int_builtin INT64_MAX]
  by (simp add: int64_iff INT64_MAX_def Let_def)

end
