(* ===== verification/SmallMoney.thy ===== *)
theory SmallMoney
  imports Money_Arith
begin

text \<open>
  The operators of \<^verbatim>\<open>smallmoney.c\<close>. A smallmoney value is stored like money, in 64 bits, and
  always lies in the 32-bit range. The operators either call the 32-bit helpers of the
  server, whose \<open>int32\<close> parameters truncate their arguments, or compute in 64 or 128 bits
  and test the result. The divisions of an integer by a smallmoney value compute in
  \<open>float8\<close> and are left out.
\<close>

section \<open>The operators\<close>

abbreviation smallmoney_range :: "'a result" where
  "smallmoney_range \<equiv> ereport ERRCODE_NUMERIC_VALUE_OUT_OF_RANGE ''smallmoney out of range''"

text \<open>The test that ends the operators computing in 64 or 128 bits.\<close>

definition check32 :: "int \<Rightarrow> int result" where
  "check32 result = (if INT32_MAX < result \<or> result < INT32_MIN then smallmoney_range else Inr result)"

subsection \<open>Smallmoney with smallmoney\<close>

definition smallmoneypl :: "pg_int \<Rightarrow> int \<Rightarrow> int \<Rightarrow> int result" where
  "smallmoneypl pg arg1 arg2 =
     on_overflow (pg_add_s32_overflow pg (to_int32 arg1) (to_int32 arg2)) smallmoney_range Inr"

definition smallmoneymi :: "pg_int \<Rightarrow> int \<Rightarrow> int \<Rightarrow> int result" where
  "smallmoneymi pg arg1 arg2 =
     on_overflow (pg_sub_s32_overflow pg (to_int32 arg1) (to_int32 arg2)) smallmoney_range Inr"

definition smallmoneymul :: "int \<Rightarrow> int \<Rightarrow> int result" where
  "smallmoneymul arg1 arg2 =
     (let M = FIXEDDECIMAL_MULTIPLIER;
          result = to_int64 (arg1 * arg2) sdiv M;
          digits = c_abs ((to_int64 (arg1 smod M * arg2) smod M) smod M);
          result = (if FIXEDDECIMAL_ROUNDUP \<le> digits
                    then if result < 0 then result - 1 else result + 1 else result)
      in check32 result)"

definition smallmoneydiv :: "int \<Rightarrow> int \<Rightarrow> int result" where
  "smallmoneydiv arg1 arg2 =
     (if arg2 = 0 then division_by_zero
      else check32 (to_int64 (arg1 * FIXEDDECIMAL_MULTIPLIER) sdiv arg2))"

subsection \<open>Smallmoney with bigint\<close>

definition smallmoneyint8pl :: "pg_int \<Rightarrow> int \<Rightarrow> int \<Rightarrow> int result" where
  "smallmoneyint8pl pg arg1 arg2 =
     on_overflow (pg_mul_s64_overflow pg arg2 FIXEDDECIMAL_MULTIPLIER) smallmoney_range
       (\<lambda>adder. check32 (to_int64 (arg1 + adder)))"

definition smallmoneyint8mi :: "pg_int \<Rightarrow> int \<Rightarrow> int \<Rightarrow> int result" where
  "smallmoneyint8mi pg arg1 arg2 =
     on_overflow (pg_mul_s64_overflow pg arg2 FIXEDDECIMAL_MULTIPLIER) smallmoney_range
       (\<lambda>subtractor. check32 (to_int64 (arg1 - subtractor)))"

definition smallmoneyint8mul :: "int \<Rightarrow> int \<Rightarrow> int result" where
  "smallmoneyint8mul arg1 arg2 =
     check32 (to_int128 (arg1 * arg2))"

definition smallmoneyint8div :: "int \<Rightarrow> int \<Rightarrow> int result" where
  "smallmoneyint8div arg1 arg2 =
     (if arg2 = 0 then division_by_zero
      else if arg2 = - 1 then (if arg1 = INT32_MIN then smallmoney_range else Inr (to_int64 (- arg1)))
      else Inr ((arg1 sdiv arg2)))"

subsection \<open>Smallmoney with integer\<close>

definition smallmoneyint4pl :: "pg_int \<Rightarrow> int \<Rightarrow> int \<Rightarrow> int result" where
  "smallmoneyint4pl pg arg1 arg2 =
     on_overflow (pg_mul_s32_overflow pg arg2 (to_int32 FIXEDDECIMAL_MULTIPLIER)) smallmoney_range
       (\<lambda>adder. on_overflow (pg_add_s32_overflow pg (to_int32 arg1) adder) smallmoney_range Inr)"

definition smallmoneyint4mi :: "pg_int \<Rightarrow> int \<Rightarrow> int \<Rightarrow> int result" where
  "smallmoneyint4mi pg arg1 arg2 =
     on_overflow (pg_mul_s32_overflow pg arg2 (to_int32 FIXEDDECIMAL_MULTIPLIER)) smallmoney_range
       (\<lambda>subtractor. on_overflow (pg_sub_s32_overflow pg (to_int32 arg1) subtractor) smallmoney_range Inr)"

definition smallmoneyint4mul :: "pg_int \<Rightarrow> int \<Rightarrow> int \<Rightarrow> int result" where
  "smallmoneyint4mul pg arg1 arg2 =
     on_overflow (pg_mul_s32_overflow pg (to_int32 arg1) arg2) smallmoney_range Inr"

definition smallmoneyint4div :: "int \<Rightarrow> int \<Rightarrow> int result" where
  "smallmoneyint4div arg1 arg2 =
     (if arg2 = 0 then division_by_zero
      else if arg2 = - 1 then (if arg1 = INT32_MIN then smallmoney_range else Inr (to_int64 (- arg1)))
      else Inr ((arg1 sdiv arg2)))"

subsection \<open>Smallmoney with smallint\<close>

definition smallmoneyint2pl :: "pg_int \<Rightarrow> int \<Rightarrow> int \<Rightarrow> int result" where
  "smallmoneyint2pl pg arg1 arg2 =
     (let adder = to_int32 (arg2 * to_int32 FIXEDDECIMAL_MULTIPLIER)
      in on_overflow (pg_add_s32_overflow pg (to_int32 arg1) adder) smallmoney_range Inr)"

definition smallmoneyint2mi :: "pg_int \<Rightarrow> int \<Rightarrow> int \<Rightarrow> int result" where
  "smallmoneyint2mi pg arg1 arg2 =
     (let subtractor = to_int32 (arg2 * to_int32 FIXEDDECIMAL_MULTIPLIER)
      in on_overflow (pg_sub_s32_overflow pg (to_int32 arg1) subtractor) smallmoney_range Inr)"

definition smallmoneyint2mul :: "pg_int \<Rightarrow> int \<Rightarrow> int \<Rightarrow> int result" where
  "smallmoneyint2mul pg arg1 arg2 =
     on_overflow (pg_mul_s32_overflow pg (to_int32 arg1) arg2) smallmoney_range Inr"

definition smallmoneyint2div :: "int \<Rightarrow> int \<Rightarrow> int result" where
  "smallmoneyint2div arg1 arg2 =
     (if arg2 = 0 then division_by_zero
      else if arg2 = - 1 then (if arg1 = INT32_MIN then smallmoney_range else Inr (to_int32 (- arg1)))
      else Inr (to_int32 (arg1 sdiv arg2)))"

subsection \<open>Integer types on the left\<close>

definition int2smallmoneypl :: "pg_int \<Rightarrow> int \<Rightarrow> int \<Rightarrow> int result" where
  "int2smallmoneypl pg arg1 arg2 =
     (let adder = to_int32 (arg1 * FIXEDDECIMAL_MULTIPLIER)
      in on_overflow (pg_add_s32_overflow pg adder (to_int32 arg2)) smallmoney_range Inr)"

definition int2smallmoneymi :: "pg_int \<Rightarrow> int \<Rightarrow> int \<Rightarrow> int result" where
  "int2smallmoneymi pg arg1 arg2 =
     (let subtractor = to_int32 (arg1 * FIXEDDECIMAL_MULTIPLIER)
      in on_overflow (pg_sub_s32_overflow pg subtractor (to_int32 arg2)) smallmoney_range Inr)"

definition int2smallmoneymul :: "pg_int \<Rightarrow> int \<Rightarrow> int \<Rightarrow> int result" where
  "int2smallmoneymul pg arg1 arg2 =
     on_overflow (pg_mul_s32_overflow pg arg1 (to_int32 arg2)) smallmoney_range Inr"

definition int4smallmoneypl :: "pg_int \<Rightarrow> int \<Rightarrow> int \<Rightarrow> int result" where
  "int4smallmoneypl pg arg1 arg2 =
     on_overflow (pg_mul_s32_overflow pg arg1 (to_int32 FIXEDDECIMAL_MULTIPLIER)) smallmoney_range
       (\<lambda>adder. on_overflow (pg_add_s32_overflow pg adder (to_int32 arg2)) smallmoney_range Inr)"

definition int4smallmoneymi :: "pg_int \<Rightarrow> int \<Rightarrow> int \<Rightarrow> int result" where
  "int4smallmoneymi pg arg1 arg2 =
     on_overflow (pg_mul_s32_overflow pg arg1 (to_int32 FIXEDDECIMAL_MULTIPLIER)) smallmoney_range
       (\<lambda>subtractor. on_overflow (pg_sub_s32_overflow pg subtractor (to_int32 arg2)) smallmoney_range Inr)"

definition int4smallmoneymul :: "pg_int \<Rightarrow> int \<Rightarrow> int \<Rightarrow> int result" where
  "int4smallmoneymul pg arg1 arg2 =
     on_overflow (pg_mul_s32_overflow pg arg1 (to_int32 arg2)) smallmoney_range Inr"

definition int8smallmoneypl :: "pg_int \<Rightarrow> int \<Rightarrow> int \<Rightarrow> int result" where
  "int8smallmoneypl pg arg1 arg2 =
     on_overflow (pg_mul_s64_overflow pg arg1 FIXEDDECIMAL_MULTIPLIER) smallmoney_range
       (\<lambda>adder. check32 (to_int64 (adder + arg2)))"

definition int8smallmoneymi :: "pg_int \<Rightarrow> int \<Rightarrow> int \<Rightarrow> int result" where
  "int8smallmoneymi pg arg1 arg2 =
     on_overflow (pg_mul_s64_overflow pg arg1 FIXEDDECIMAL_MULTIPLIER) smallmoney_range
       (\<lambda>subtractor. check32 (to_int64 (subtractor - arg2)))"

definition int8smallmoneymul :: "int \<Rightarrow> int \<Rightarrow> int result" where
  "int8smallmoneymul arg1 arg2 =
     check32 (to_int128 (arg1 * arg2))"

abbreviation smallmoney_error :: pg_error where
  "smallmoney_error \<equiv> Report ERROR ERRCODE_NUMERIC_VALUE_OUT_OF_RANGE ''smallmoney out of range''"

section \<open>Helper facts\<close>

lemma check32_eq: "check32 r = (if int32 r then Inr r else smallmoney_range)"
  by (auto simp: check32_def c_int)

lemma unit32: "to_int32 FIXEDDECIMAL_MULTIPLIER = 10000" "int32 10000" "int64 10000"
  by (simp_all add: FIXEDDECIMAL_MULTIPLIER_def int32_iff int64_iff)

text \<open>A sum that wraps in 64 bits is far from the 32-bit range, so the test still sees it.\<close>

lemma check32_wrapped:
  assumes "\<bar>y\<bar> \<le> 2 ^ 63 + 2 ^ 31"
  shows "check32 (to_int64 y) = (if int32 y then Inr y else smallmoney_range)"
proof (cases "int64 y")
  case False
  then have w: "to_int64 y = (if 0 \<le> y then y - 2 ^ 64 else y + 2 ^ 64)"
    using assms wrap_s_shift [of 64 y "- 1"] wrap_s_shift [of 64 y 1] by (auto simp: int64_iff)
  have "\<not> int32 (to_int64 y)" "\<not> int32 y"
    using False assms unfolding w by (auto simp: int64_iff int32_iff)
  then show ?thesis by (simp add: check32_eq)
qed (simp add: check32_eq)

lemma check32_sums:
  assumes "int32 a" and "int64 x"
  shows "check32 (to_int64 (a + x)) = (if int32 (a + x) then Inr (a + x) else smallmoney_range)"
    and "check32 (to_int64 (x + a)) = (if int32 (x + a) then Inr (x + a) else smallmoney_range)"
    and "check32 (to_int64 (a - x)) = (if int32 (a - x) then Inr (a - x) else smallmoney_range)"
    and "check32 (to_int64 (x - a)) = (if int32 (x - a) then Inr (x - a) else smallmoney_range)"
proof -
  have "\<bar>a\<bar> \<le> 2 ^ 31" "\<bar>x\<bar> \<le> 2 ^ 63" using assms by (auto simp: c_int)
  then have "\<bar>a + x\<bar> \<le> 2 ^ 63 + 2 ^ 31" "\<bar>x + a\<bar> \<le> 2 ^ 63 + 2 ^ 31"
    "\<bar>a - x\<bar> \<le> 2 ^ 63 + 2 ^ 31" "\<bar>x - a\<bar> \<le> 2 ^ 63 + 2 ^ 31" by linarith+
  then show "check32 (to_int64 (a + x)) = (if int32 (a + x) then Inr (a + x) else smallmoney_range)"
    "check32 (to_int64 (x + a)) = (if int32 (x + a) then Inr (x + a) else smallmoney_range)"
    "check32 (to_int64 (a - x)) = (if int32 (a - x) then Inr (a - x) else smallmoney_range)"
    "check32 (to_int64 (x - a)) = (if int32 (x - a) then Inr (x - a) else smallmoney_range)"
    by (simp_all only: check32_wrapped)
qed

lemma small_products:
  assumes "int32 a" and "int64 b"
  shows "to_int128 (a * b) = a * b" and "to_int128 (b * a) = b * a"
  using mul_int128 assms int32_int64 by blast+

lemma small2_scaled:
  assumes "int16 n"
  shows "to_int32 (n * 10000) = 10000 * n" and "int32 (10000 * n)"
    and "to_int32 (n * FIXEDDECIMAL_MULTIPLIER) = 10000 * n"
  using assms by (simp_all add: int16_iff int32_iff FIXEDDECIMAL_MULTIPLIER_def)

section \<open>The operators keep the contract\<close>

interpretation small_pl: checked_op pg_int_spec "\<lambda>a b. int32 a \<and> int32 b" "\<lambda>a b. True" 32
  smallmoneypl "(+)" smallmoney_error
  by unfold_locales (simp add: smallmoneypl_def on_overflow_laws)

interpretation small_mi: checked_op pg_int_spec "\<lambda>a b. int32 a \<and> int32 b" "\<lambda>a b. True" 32
  smallmoneymi "(-)" smallmoney_error
  by unfold_locales (simp add: smallmoneymi_def on_overflow_laws)

interpretation small_int4_pl: checked_op pg_int_spec "\<lambda>a b. int32 a \<and> int32 b" "\<lambda>a b. int32 (10000 * b)" 32
  smallmoneyint4pl "\<lambda>a b. a + 10000 * b" smallmoney_error
  by unfold_locales (simp add: smallmoneyint4pl_def on_overflow_laws unit32 mult.commute)

interpretation int4_small_pl: checked_op pg_int_spec "\<lambda>a b. int32 a \<and> int32 b" "\<lambda>a b. int32 (10000 * a)" 32
  int4smallmoneypl "\<lambda>a b. 10000 * a + b" smallmoney_error
  by unfold_locales (simp add: int4smallmoneypl_def on_overflow_laws unit32 mult.commute)

interpretation small_int4_mi: checked_op pg_int_spec "\<lambda>a b. int32 a \<and> int32 b" "\<lambda>a b. int32 (10000 * b)" 32
  smallmoneyint4mi "\<lambda>a b. a - 10000 * b" smallmoney_error
  by unfold_locales (simp add: smallmoneyint4mi_def on_overflow_laws unit32 mult.commute)

interpretation int4_small_mi: checked_op pg_int_spec "\<lambda>a b. int32 a \<and> int32 b" "\<lambda>a b. int32 (10000 * a)" 32
  int4smallmoneymi "\<lambda>a b. 10000 * a - b" smallmoney_error
  by unfold_locales (simp add: int4smallmoneymi_def on_overflow_laws unit32 mult.commute)

interpretation small_int4_mul: checked_op pg_int_spec "\<lambda>a b. int32 a \<and> int32 b" "\<lambda>a b. True" 32
  smallmoneyint4mul "(*)" smallmoney_error
  by unfold_locales (simp add: smallmoneyint4mul_def on_overflow_laws)

interpretation int4_small_mul: checked_op pg_int_spec "\<lambda>a b. int32 a \<and> int32 b" "\<lambda>a b. True" 32
  int4smallmoneymul "(*)" smallmoney_error
  by unfold_locales (simp add: int4smallmoneymul_def on_overflow_laws)

interpretation small_int2_pl: checked_op pg_int_spec "\<lambda>a b. int32 a \<and> int16 b" "\<lambda>a b. True" 32
  smallmoneyint2pl "\<lambda>a b. a + 10000 * b" smallmoney_error
  by unfold_locales (simp add: smallmoneyint2pl_def Let_def on_overflow_laws small2_scaled unit32)

interpretation int2_small_pl: checked_op pg_int_spec "\<lambda>a b. int16 a \<and> int32 b" "\<lambda>a b. True" 32
  int2smallmoneypl "\<lambda>a b. 10000 * a + b" smallmoney_error
  by unfold_locales (simp add: int2smallmoneypl_def Let_def on_overflow_laws small2_scaled unit32)

interpretation small_int2_mi: checked_op pg_int_spec "\<lambda>a b. int32 a \<and> int16 b" "\<lambda>a b. True" 32
  smallmoneyint2mi "\<lambda>a b. a - 10000 * b" smallmoney_error
  by unfold_locales (simp add: smallmoneyint2mi_def Let_def on_overflow_laws small2_scaled unit32)

interpretation int2_small_mi: checked_op pg_int_spec "\<lambda>a b. int16 a \<and> int32 b" "\<lambda>a b. True" 32
  int2smallmoneymi "\<lambda>a b. 10000 * a - b" smallmoney_error
  by unfold_locales (simp add: int2smallmoneymi_def Let_def on_overflow_laws small2_scaled unit32)

interpretation small_int2_mul: checked_op pg_int_spec "\<lambda>a b. int32 a \<and> int16 b" "\<lambda>a b. True" 32
  smallmoneyint2mul "(*)" smallmoney_error
  by unfold_locales (simp add: smallmoneyint2mul_def on_overflow_laws int16_int32)

interpretation int2_small_mul: checked_op pg_int_spec "\<lambda>a b. int16 a \<and> int32 b" "\<lambda>a b. True" 32
  int2smallmoneymul "(*)" smallmoney_error
  by unfold_locales (simp add: int2smallmoneymul_def on_overflow_laws int16_int32)

interpretation small_int8_pl: checked_op pg_int_spec "\<lambda>a b. int32 a \<and> int64 b" "\<lambda>a b. int64 (10000 * b)" 32
  smallmoneyint8pl "\<lambda>a b. a + 10000 * b" smallmoney_error
  by unfold_locales
    (simp add: smallmoneyint8pl_def on_overflow_laws money_unit mult.commute [of _ 10000]
      check32_sums)

interpretation int8_small_pl: checked_op pg_int_spec "\<lambda>a b. int64 a \<and> int32 b" "\<lambda>a b. int64 (10000 * a)" 32
  int8smallmoneypl "\<lambda>a b. 10000 * a + b" smallmoney_error
  by unfold_locales
    (simp add: int8smallmoneypl_def on_overflow_laws money_unit mult.commute [of _ 10000]
      check32_sums)

interpretation small_int8_mi: checked_op pg_int_spec "\<lambda>a b. int32 a \<and> int64 b" "\<lambda>a b. int64 (10000 * b)" 32
  smallmoneyint8mi "\<lambda>a b. a - 10000 * b" smallmoney_error
  by unfold_locales
    (simp add: smallmoneyint8mi_def on_overflow_laws money_unit mult.commute [of _ 10000]
      check32_sums)

interpretation int8_small_mi: checked_op pg_int_spec "\<lambda>a b. int64 a \<and> int32 b" "\<lambda>a b. int64 (10000 * a)" 32
  int8smallmoneymi "\<lambda>a b. 10000 * a - b" smallmoney_error
  by unfold_locales
    (simp add: int8smallmoneymi_def on_overflow_laws money_unit mult.commute [of _ 10000]
      check32_sums)

interpretation small_int8_mul: checked_op pg_int_spec "\<lambda>a b. int32 a \<and> int64 b" "\<lambda>a b. True" 32
  "\<lambda>_. smallmoneyint8mul" "(*)" smallmoney_error
  by unfold_locales (simp add: smallmoneyint8mul_def check32_eq small_products)

interpretation int8_small_mul: checked_op pg_int_spec "\<lambda>a b. int64 a \<and> int32 b" "\<lambda>a b. True" 32
  "\<lambda>_. int8smallmoneymul" "(*)" smallmoney_error
  by unfold_locales (simp add: int8smallmoneymul_def check32_eq small_products)

section \<open>Multiplication and division\<close>

lemma smallmoneymul_eq:
  assumes "int32 a" and "int32 b"
  shows "smallmoneymul a b =
    (let p = a * b; q = p sdiv 10000;
         r = (if \<bar>p\<bar> mod 10000 < 5000 then q else if q < 0 then q - 1 else q + 1)
     in if int32 r then Inr r else smallmoney_range)"
proof -
  have d: "c_abs ((to_int64 (a smod 10000 * b) smod 10000) smod 10000) = \<bar>a * b\<bar> mod 10000"
    by (rule mul_digits) (use assms in \<open>auto simp: c_int\<close>)
  have p: "to_int64 (a * b) = a * b" using mul_small [OF assms] by simp
  show ?thesis
    unfolding smallmoneymul_def Let_def FIXEDDECIMAL_MULTIPLIER_def FIXEDDECIMAL_ROUNDUP_def
      p d check32_eq by (simp add: not_less)
qed

lemma smallmoney_like_money:
  assumes "int32 a" and "int32 b"
  shows "smallmoneymul a b =
    (case fixeddecimalmul a b of Inl e \<Rightarrow> smallmoney_range
     | Inr r \<Rightarrow> if int32 r then Inr r else smallmoney_range)"
proof -
  have "\<bar>b\<bar> \<le> 922337203685477" using assms(2) by (auto simp: c_int)
  with assms show ?thesis
    using smallmoneymul_eq [OF assms] fixeddecimalmul_eq [of a b] int32_int64
    by (auto simp: Let_def split: sum.splits)
qed

lemma smallmoneydiv_eq:
  assumes "int32 a" and "b \<noteq> 0"
  shows "smallmoneydiv a b =
    (if int32 (a * 10000 sdiv b) then Inr (a * 10000 sdiv b) else smallmoney_range)"
proof -
  have "to_int64 (a * 10000) = a * 10000" using assms(1) by (auto simp: c_int)
  then show ?thesis
    using assms(2) by (simp add: smallmoneydiv_def FIXEDDECIMAL_MULTIPLIER_def check32_eq)
qed

lemma int32_sdiv:
  assumes "int32 a" and "a \<noteq> INT32_MIN \<or> n \<noteq> - 1"
  shows "int32 (a sdiv n)"
proof (cases "\<bar>n\<bar> \<le> 1")
  case True
  then have "n = 0 \<or> n = 1 \<or> n = - 1" by arith
  with assms show ?thesis by (auto simp: c_int)
next
  case False
  then have "2 * \<bar>a sdiv n\<bar> \<le> \<bar>a\<bar>" by (intro abs_sdiv_half) simp
  with assms(1) show ?thesis unfolding int32_iff by arith
qed

lemma small_division_eq:
  assumes "int32 a" and "n \<noteq> 0"
  shows "smallmoneyint8div a n = (if int32 (a sdiv n) then Inr (a sdiv n) else smallmoney_range)"
    and "smallmoneyint4div a n = (if int32 (a sdiv n) then Inr (a sdiv n) else smallmoney_range)"
    and "smallmoneyint2div a n = (if int32 (a sdiv n) then Inr (a sdiv n) else smallmoney_range)"
proof -
  have neg: "int32 (- a) \<longleftrightarrow> a \<noteq> INT32_MIN" using assms(1) by (auto simp: c_int)
  have quot: "int32 (a sdiv n)" if "n \<noteq> - 1" using that assms int32_sdiv by blast
  show "smallmoneyint8div a n = (if int32 (a sdiv n) then Inr (a sdiv n) else smallmoney_range)"
    "smallmoneyint4div a n = (if int32 (a sdiv n) then Inr (a sdiv n) else smallmoney_range)"
    "smallmoneyint2div a n = (if int32 (a sdiv n) then Inr (a sdiv n) else smallmoney_range)"
    using assms neg quot int32_int64
    by (auto simp: smallmoneyint8div_def smallmoneyint4div_def smallmoneyint2div_def)
qed

section \<open>Properties\<close>



text \<open>
  C35 (agreement with money). The product of two smallmoney values is the money product when
  that is a smallmoney value and the range error otherwise; quotients truncate towards zero
  and report the one quotient that does not fit.
\<close>

theorem smallmoney_products_quotients:
  assumes "int32 a" and "int32 b"
  shows "smallmoneymul a b =
      (case fixeddecimalmul a b of Inl e \<Rightarrow> smallmoney_range
       | Inr r \<Rightarrow> if int32 r then Inr r else smallmoney_range) \<and>
    smallmoneydiv a b = (if b = 0 then division_by_zero
      else if int32 (a * 10000 sdiv b) then Inr (a * 10000 sdiv b) else smallmoney_range) \<and>
    smallmoneyint4div a b = (if b = 0 then division_by_zero
      else if a = INT32_MIN \<and> b = - 1 then smallmoney_range else Inr (a sdiv b))"
proof (cases "b = 0")
  case True
  then show ?thesis
    using smallmoney_like_money [OF assms] by (simp add: smallmoneydiv_def smallmoneyint4div_def)
next
  case False
  have "int32 (a sdiv b) \<longleftrightarrow> \<not> (a = INT32_MIN \<and> b = - 1)"
    using int32_sdiv [OF assms(1), of b] by (auto simp: c_int)
  then show ?thesis
    using False smallmoney_like_money [OF assms] smallmoneydiv_eq [OF assms(1) False]
      small_division_eq [OF assms(1) False]
    by simp
qed

theorem smallmoney_products_quotients_witness:
  "smallmoneyint4div INT32_MIN (- 1) = smallmoney_range \<and> smallmoneydiv 10000 30000 = Inr 3333"
  using smallmoney_products_quotients [of INT32_MIN "- 1"] smallmoney_products_quotients [of 10000 30000]
  by (simp add: int32_iff INT32_MIN_def sdiv_nonneg)

end
