(* ===== verification/Money_Agg.thy ===== *)
theory Money_Agg
  imports Money_Arith
begin

text \<open>
  The aggregates on money of \<^verbatim>\<open>fixeddecimal.c\<close>: the transition state of \<open>sum\<close> and \<open>avg\<close>, its
  accumulation, its text and binary forms and the function that combines the partial states
  of parallel workers. The state's memory context is the one thing dropped from it; which
  context is current when the combine function returns is kept, because its two return
  paths differ in it. What the server provides is a parameter: the wire format of 64-bit
  integers (\<open>pq_sendint64\<close>, \<open>pq_getmsgint64\<close>), \<open>int8in\<close> and \<open>int8pl\<close>.
\<close>

section \<open>The state and its operations\<close>

record FixedDecimalAggState =
  sumX :: int
  N :: int

record pg_wire =
  pq_sendint64 :: "int \<Rightarrow> string"
  pq_getmsgint64 :: "string \<Rightarrow> (int \<times> string) result"
  int8in :: "string \<Rightarrow> int result"
  int8pl :: "int \<Rightarrow> int \<Rightarrow> int result"

text \<open>
  What the server documents of them: a 64-bit integer is read back from the bytes it was
  sent as, \<open>int8in\<close> reads a decimal number, and \<open>int8pl\<close> adds or reports an overflow.
\<close>

definition pg_wire_spec :: "pg_wire \<Rightarrow> bool" where
  "pg_wire_spec w \<longleftrightarrow>
     (\<forall>v rest. int64 v \<longrightarrow> pq_getmsgint64 w (pq_sendint64 w v @ rest) = Inr (v, rest)) \<and>
     (\<forall>n. int64 (int n) \<longrightarrow> int8in w (dec n) = Inr (int n)) \<and>
     (\<forall>a b. int64 a \<and> int64 b \<longrightarrow>
        int8pl w a b = (if int64 (a + b) then Inr (a + b)
          else ereport ERRCODE_NUMERIC_VALUE_OUT_OF_RANGE ''bigint out of range''))"

abbreviation not_in_aggregate :: "'a result" where
  "not_in_aggregate \<equiv>
     ereport ERRCODE_INTERNAL_ERROR ''aggregate function called in non-aggregate context''"

text \<open>\<open>in_agg\<close> is what \<open>AggCheckCallContext\<close> returns.\<close>

definition makeFixedDecimalAggState :: "bool \<Rightarrow> FixedDecimalAggState result" where
  "makeFixedDecimalAggState in_agg =
     (if \<not> in_agg then not_in_aggregate else Inr \<lparr>sumX = 0, N = 0\<rparr>)"

definition fixeddecimal_accum :: "FixedDecimalAggState \<Rightarrow> int \<Rightarrow> FixedDecimalAggState result" where
  "fixeddecimal_accum state newval =
     (let state' = state\<lparr>N := to_int64 (N state + 1)\<rparr>
      in if 0 < N state
         then (let result = to_int64 (sumX state + newval)
               in if SAMESIGN (sumX state) newval \<and> \<not> SAMESIGN result (sumX state)
                  then money_range else Inr (state'\<lparr>sumX := result\<rparr>))
         else Inr (state'\<lparr>sumX := newval\<rparr>))"

definition fixeddecimal_avg_accum ::
  "bool \<Rightarrow> FixedDecimalAggState option \<Rightarrow> int option \<Rightarrow> FixedDecimalAggState result" where
  "fixeddecimal_avg_accum in_agg state0 arg =
     (case (case state0 of None \<Rightarrow> makeFixedDecimalAggState in_agg | Some s \<Rightarrow> Inr s) of
        Inl e \<Rightarrow> Inl e
      | Inr state \<Rightarrow> (case arg of None \<Rightarrow> Inr state | Some newval \<Rightarrow> fixeddecimal_accum state newval))"

definition fixeddecimal_avg :: "FixedDecimalAggState option \<Rightarrow> int option" where
  "fixeddecimal_avg state0 =
     (case state0 of None \<Rightarrow> None
      | Some state \<Rightarrow> if N state = 0 then None else Some (sumX state sdiv N state))"

definition fixeddecimal_sum :: "FixedDecimalAggState option \<Rightarrow> int option" where
  "fixeddecimal_sum state0 =
     (case state0 of None \<Rightarrow> None
      | Some state \<Rightarrow> if N state = 0 then None else Some (sumX state))"

subsection \<open>Text and binary forms\<close>

text \<open>
  \<open>strtok(s, ":")\<close>: the token after any leading separators, and what follows the separator
  that ends it; \<open>None\<close> is the NULL it returns when only separators are left.
\<close>

definition strtok :: "string \<Rightarrow> (string \<times> string) option" where
  "strtok s =
     (let t = dropWhile (\<lambda>c. c = CHR '':'') s
      in if t = [] then None
         else Some (takeWhile (\<lambda>c. c \<noteq> CHR '':'') t, drop 1 (dropWhile (\<lambda>c. c \<noteq> CHR '':'') t)))"

text \<open>The outer \<open>None\<close> is the crash on a NULL token.\<close>

definition fixeddecimalaggstatein :: "pg_wire \<Rightarrow> string \<Rightarrow> FixedDecimalAggState result option" where
  "fixeddecimalaggstatein w str =
     (case strtok str of None \<Rightarrow> None
      | Some (token, rest) \<Rightarrow>
          (case fixeddecimalin token (- 1) of Inl e \<Rightarrow> Some (Inl e)
           | Inr s \<Rightarrow>
               (case strtok rest of None \<Rightarrow> None
                | Some (token, _) \<Rightarrow>
                    (case int8in w token of Inl e \<Rightarrow> Some (Inl e)
                     | Inr n \<Rightarrow> Some (Inr \<lparr>sumX = s, N = n\<rparr>)))))"

definition fixeddecimalaggstateout :: "FixedDecimalAggState \<Rightarrow> string" where
  "fixeddecimalaggstateout state =
     fixeddecimal2str (sumX state) FIXEDDECIMAL_MULTIPLIER FIXEDDECIMAL_SCALE @ CHR '':'' #
     pg_int64tostr (N state)"

definition fixeddecimalaggstateserialize ::
  "pg_wire \<Rightarrow> bool \<Rightarrow> FixedDecimalAggState option \<Rightarrow> string option result" where
  "fixeddecimalaggstateserialize w in_agg state0 =
     (if \<not> in_agg then not_in_aggregate
      else (case state0 of None \<Rightarrow> Inr None
            | Some state \<Rightarrow> Inr (Some (pq_sendint64 w (N state) @ pq_sendint64 w (sumX state)))))"

text \<open>\<open>pq_getmsgend\<close> refuses bytes left over.\<close>

definition fixeddecimalaggstatedeserialize ::
  "pg_wire \<Rightarrow> bool \<Rightarrow> string option \<Rightarrow> FixedDecimalAggState option result" where
  "fixeddecimalaggstatedeserialize w in_agg sstate0 =
     (if \<not> in_agg then not_in_aggregate
      else (case sstate0 of None \<Rightarrow> Inr None
            | Some sstate \<Rightarrow>
                (case pq_getmsgint64 w sstate of Inl e \<Rightarrow> Inl e
                 | Inr (n, buf) \<Rightarrow>
                     (case pq_getmsgint64 w buf of Inl e \<Rightarrow> Inl e
                      | Inr (s, buf) \<Rightarrow>
                          if buf \<noteq> [] then ereport ERRCODE_PROTOCOL_VIOLATION ''invalid message format''
                          else Inr (Some \<lparr>sumX = s, N = n\<rparr>)))))"

subsection \<open>Combining partial states\<close>

text \<open>
  The result is the state and the memory context that is current on return: \<open>cur\<close> is the
  caller's, \<open>agg\<close> the aggregate's.
\<close>

definition fixeddecimalaggstatecombine ::
  "pg_int \<Rightarrow> pg_wire \<Rightarrow> bool \<Rightarrow> 'ctx \<Rightarrow> 'ctx \<Rightarrow> FixedDecimalAggState option \<Rightarrow>
   FixedDecimalAggState option \<Rightarrow> (FixedDecimalAggState \<times> 'ctx) result" where
  "fixeddecimalaggstatecombine pg w in_agg cur agg collectstate0 transstate0 =
     (if \<not> in_agg then not_in_aggregate
      else
        (let collectstate =
               (case collectstate0 of None \<Rightarrow> \<lparr>sumX = 0, N = 0\<rparr> | Some s \<Rightarrow> s)
         in case transstate0 of None \<Rightarrow> Inr (collectstate, agg)
            | Some transstate \<Rightarrow>
                (case fixeddecimalpl pg (sumX collectstate) (sumX transstate) of Inl e \<Rightarrow> Inl e
                 | Inr s \<Rightarrow>
                     (case int8pl w (N collectstate) (N transstate) of Inl e \<Rightarrow> Inl e
                      | Inr n \<Rightarrow> Inr (collectstate\<lparr>sumX := s, N := n\<rparr>, cur)))))"

section \<open>Reference notions\<close>

text \<open>The server's loop over the rows of a group, starting without a state.\<close>

fun accumulate ::
  "bool \<Rightarrow> FixedDecimalAggState option \<Rightarrow> int option list \<Rightarrow> FixedDecimalAggState option result" where
  "accumulate in_agg state [] = Inr state"
| "accumulate in_agg state (x # xs) =
     (case fixeddecimal_avg_accum in_agg state x of Inl e \<Rightarrow> Inl e
      | Inr state' \<Rightarrow> accumulate in_agg (Some state') xs)"

definition non_null :: "int option list \<Rightarrow> int list" where
  "non_null xs = List.map_filter (\<lambda>x. x) xs"

definition agg_of :: "int list \<Rightarrow> FixedDecimalAggState" where
  "agg_of vs = \<lparr>sumX = sum_list vs, N = int (length vs)\<rparr>"

text \<open>Every partial sum is a money value.\<close>

fun partial_sums_fit :: "int \<Rightarrow> int list \<Rightarrow> bool" where
  "partial_sums_fit s [] = True"
| "partial_sums_fit s (v # vs) = (int64 (s + v) \<and> partial_sums_fit (s + v) vs)"

text \<open>The wire format the server documents: eight bytes, the most significant first.\<close>

definition wire_bytes :: "int \<Rightarrow> string" where
  "wire_bytes v = map (\<lambda>i. char_of ((v div 256 ^ i) mod 256)) (rev [0..<8])"

definition wire_int :: "string \<Rightarrow> int" where
  "wire_int bs = to_int64 (foldl (\<lambda>a c. a * 256 + of_char c) 0 bs)"

definition pg_wire_be :: pg_wire where
  "pg_wire_be =
     \<lparr>pq_sendint64 = wire_bytes,
      pq_getmsgint64 = (\<lambda>s. if length s < 8
         then ereport ERRCODE_PROTOCOL_VIOLATION ''insufficient data left in message''
         else Inr (wire_int (take 8 s), drop 8 s)),
      int8in = (\<lambda>s. Inr (horner 0 s)),
      int8pl = (\<lambda>a b. if int64 (a + b) then Inr (a + b)
         else ereport ERRCODE_NUMERIC_VALUE_OUT_OF_RANGE ''bigint out of range'')\<rparr>"

section \<open>The server's part\<close>

lemma base256_step: "(v :: int) mod (256 ^ k * 256) = 256 ^ k * (v div 256 ^ k mod 256) + v mod 256 ^ k"
  by (rule zmod_zmult2_eq) simp

lemma foldl_bytes:
  "foldl (\<lambda>a c. a * 256 + of_char c) a (map (\<lambda>i. char_of ((v div 256 ^ i) mod 256)) (rev [0..<n])) =
   a * 256 ^ n + (v :: int) mod 256 ^ n"
proof (induction n arbitrary: a)
  case (Suc n)
  then show ?case using base256_step [of v n] by (simp add: algebra_simps)
qed simp

lemma wire_roundtrip:
  assumes "int64 v"
  shows "wire_int (wire_bytes v) = v"
proof -
  have e: "v mod 256 ^ 8 + v div 256 ^ 8 * 2 ^ 64 = v"
    using mod_div_mult_eq [of v "256 ^ 8"] by simp
  have "to_int64 (v mod 256 ^ 8) = v"
    using assms wrap_s_shift [of 64 "v mod 256 ^ 8" "v div 256 ^ 8"] unfolding e by simp
  then show ?thesis unfolding wire_int_def wire_bytes_def foldl_bytes by simp
qed

lemma length_wire_bytes [simp]: "length (wire_bytes v) = 8"
  by (simp add: wire_bytes_def)

lemma pg_wire_spec_be [simp]: "pg_wire_spec pg_wire_be"
  by (simp add: pg_wire_spec_def pg_wire_be_def wire_roundtrip horner_dec)

lemma pg_wire_laws:
  assumes "pg_wire_spec w"
  shows "int64 v \<Longrightarrow> pq_getmsgint64 w (pq_sendint64 w v @ rest) = Inr (v, rest)"
    and "int64 (int n) \<Longrightarrow> int8in w (dec n) = Inr (int n)"
    and "int64 a \<Longrightarrow> int64 b \<Longrightarrow> int64 (a + b) \<Longrightarrow> int8pl w a b = Inr (a + b)"
  using assms by (simp_all add: pg_wire_spec_def)

section \<open>Accumulation\<close>

lemma non_null_simps [simp]:
  "non_null [] = []" "non_null (None # xs) = non_null xs" "non_null (Some v # xs) = v # non_null xs"
  by (simp_all add: non_null_def List.map_filter_simps)

lemma accum_agg_of:
  assumes "int64 (sum_list us)" and "int64 v" and "int64 (int (length us) + 1)"
  shows "fixeddecimal_accum (agg_of us) v =
    (if int64 (sum_list us + v) then Inr (agg_of (us @ [v])) else money_range)"
proof (cases us)
  case Nil
  with assms show ?thesis by (simp add: fixeddecimal_accum_def agg_of_def int64_iff)
next
  case (Cons u us')
  with assms show ?thesis
    using add_checked [OF assms(1,2), of money_range]
    by (auto simp: fixeddecimal_accum_def agg_of_def Let_def add.commute split: if_splits)
qed

lemma accumulate_agg_of:
  assumes "int64 (sum_list us)" and "list_all int64 (non_null xs)"
    and "int64 (int (length us) + int (length xs))"
  shows "accumulate True (Some (agg_of us)) xs =
    (if partial_sums_fit (sum_list us) (non_null xs) then Inr (Some (agg_of (us @ non_null xs)))
     else money_range)"
  using assms
proof (induction xs arbitrary: us)
  case (Cons x xs)
  show ?case
  proof (cases x)
    case None
    with Cons.prems have "int64 (int (length us) + int (length xs))" by (simp add: int64_iff)
    with None Cons show ?thesis by (simp add: fixeddecimal_avg_accum_def)
  next
    case (Some v)
    have "int64 (int (length us) + 1)" using Cons.prems by (simp add: int64_iff)
    with Some Cons.prems show ?thesis
      using Cons.IH [of "us @ [v]"]
      by (simp add: fixeddecimal_avg_accum_def accum_agg_of add.commute add.left_commute)
  qed
qed simp

lemma accumulate_none:
  assumes "list_all int64 (non_null xs)" and "int64 (int (length xs))"
  shows "accumulate True None xs =
    (if xs = [] then Inr None
     else if partial_sums_fit 0 (non_null xs) then Inr (Some (agg_of (non_null xs))) else money_range)"
proof (cases xs)
  case (Cons x xs')
  have "makeFixedDecimalAggState True = Inr (agg_of [])"
    by (simp add: makeFixedDecimalAggState_def agg_of_def)
  then have "accumulate True None xs = accumulate True (Some (agg_of [])) xs"
    using Cons by (simp add: fixeddecimal_avg_accum_def)
  then show ?thesis using accumulate_agg_of [of "[]" xs] assms Cons by (simp add: int64_iff)
qed simp

lemma partial_sums_append:
  "partial_sums_fit s (us @ vs) \<longleftrightarrow> partial_sums_fit s us \<and> partial_sums_fit (s + sum_list us) vs"
  by (induction us arbitrary: s) (auto simp: add.assoc)

lemma partial_sums_last: "partial_sums_fit s vs \<Longrightarrow> int64 s \<Longrightarrow> int64 (s + sum_list vs)"
  by (induction vs arbitrary: s) (auto simp: add.assoc [symmetric])

lemma digits_no_colon: "digits ds \<Longrightarrow> CHR '':'' \<notin> set ds"
  by (auto simp: list_all_iff isdigit_def)

lemma strtok_token:
  assumes "CHR '':'' \<notin> set s" and "s \<noteq> []"
  shows "strtok (s @ CHR '':'' # r) = Some (s, r)" and "strtok s = Some (s, [])"
proof -
  have skip: "dropWhile (\<lambda>c. c = CHR '':'') (s @ t) = s @ t" for t
    using assms by (cases s) auto
  have all: "\<forall>x \<in> set s. x \<noteq> CHR '':''" using assms(1) by blast
  then have none: "dropWhile (\<lambda>c. c \<noteq> CHR '':'') s = []" by (simp add: dropWhile_eq_Nil_conv)
  show "strtok (s @ CHR '':'' # r) = Some (s, r)"
    using all assms(2) unfolding strtok_def Let_def skip
    by (simp add: takeWhile_append2 dropWhile_append2)
  show "strtok s = Some (s, [])"
    using all assms(2) unfolding strtok_def Let_def skip [of "[]", simplified] none
    by (simp add: takeWhile_eq_all_conv)
qed

section \<open>Properties\<close>

text \<open>
  C36 (sum and avg). Over the rows of a group the aggregates return NULL when every value is
  NULL, the exact sum of the others, and its quotient by their number truncated towards zero;
  they report an overflow exactly when some partial sum, in row order, leaves the 64-bit range.
\<close>

theorem aggregate_sum_avg:
  assumes "list_all int64 (non_null xs)" and "int64 (int (length xs))" and "vs = non_null xs"
  shows "if partial_sums_fit 0 vs
    then (\<exists>state. accumulate True None xs = Inr state \<and>
      fixeddecimal_sum state = (if vs = [] then None else Some (sum_list vs)) \<and>
      fixeddecimal_avg state = (if vs = [] then None else Some (sum_list vs sdiv int (length vs))))
    else accumulate True None xs = money_range"
  unfolding assms(3) accumulate_none [OF assms(1,2)]
  by (simp add: fixeddecimal_sum_def fixeddecimal_avg_def agg_of_def)

theorem aggregate_sum_avg_witness:
  "\<exists>state. accumulate True None [Some 5, None, Some (- 12)] = Inr state \<and>
     fixeddecimal_sum state = Some (- 7) \<and> fixeddecimal_avg state = Some (- 3)"
proof -
  let ?xs = "[Some 5, None, Some (- 12 :: int)]"
  have "list_all int64 (non_null ?xs)" "int64 (int (length ?xs))" "[5, - 12] = non_null ?xs"
    "partial_sums_fit 0 [5, - 12]" by (simp_all add: int64_iff)
  note * = aggregate_sum_avg [OF this(1-3), unfolded if_P [OF this(4)]]
  have "(- 7 :: int) sdiv 2 = - 3" by (simp add: sdiv_neg)
  with * show ?thesis by (simp del: accumulate.simps)
qed

text \<open>
  C37 (parallel aggregation). Combining the states of two groups of rows gives the state of
  all the rows, or the range error when the total does not fit.
\<close>

theorem combine_states:
  assumes "pg_int_spec pg" and "pg_wire_spec w"
    and "accumulate True None xs = Inr (Some s)" and "accumulate True None ys = Inr (Some t)"
    and "list_all int64 (non_null xs)" and "list_all int64 (non_null ys)"
    and "int64 (int (length xs) + int (length ys))"
  shows "fixeddecimalaggstatecombine pg w True cur agg (Some s) (Some t) =
    (if int64 (sum_list (non_null (xs @ ys)))
     then Inr (agg_of (non_null (xs @ ys)), cur) else money_range)"
proof -
  have len: "length (non_null zs) \<le> length zs" for zs
    by (induction zs) (auto simp: non_null_def List.map_filter_def le_SucI)
  have app: "non_null (xs @ ys) = non_null xs @ non_null ys"
    by (simp add: non_null_def List.map_filter_def)
  have i: "int64 (int (length xs))" "int64 (int (length ys))" using assms(7) by (simp_all add: int64_iff)
  have s: "s = agg_of (non_null xs)" "partial_sums_fit 0 (non_null xs)"
    and t: "t = agg_of (non_null ys)" "partial_sums_fit 0 (non_null ys)"
    using accumulate_none [OF assms(5) i(1)] accumulate_none [OF assms(6) i(2)] assms(3,4)
    by (auto split: if_splits)
  have n: "int64 (int (length (non_null xs)))" "int64 (int (length (non_null ys)))"
    "int64 (int (length (non_null xs)) + int (length (non_null ys)))"
    using assms(7) len [of xs] len [of ys] by (simp_all add: int64_iff)
  have sums: "int64 (sum_list (non_null xs))" "int64 (sum_list (non_null ys))"
    using partial_sums_last [OF s(2)] partial_sums_last [OF t(2)] by (simp_all add: int64_iff)
  have wire: "int8pl w (int (length (non_null xs))) (int (length (non_null ys))) =
      Inr (int (length (non_null xs)) + int (length (non_null ys)))"
    using pg_wire_laws(3) [OF assms(2)] n by simp
  show ?thesis
    using money_pl.op_val [OF assms(1), of "sum_list (non_null xs)" "sum_list (non_null ys)"] sums
    by (simp add: fixeddecimalaggstatecombine_def s(1) t(1) agg_of_def wire app)
qed

theorem combine_states_witness:
  "fixeddecimalaggstatecombine pg_int_builtin pg_wire_be True (0 :: nat) 1
     (Some \<lparr>sumX = 5, N = 1\<rparr>) (Some \<lparr>sumX = 7, N = 1\<rparr>) = Inr (\<lparr>sumX = 12, N = 2\<rparr>, 0)"
proof -
  have "accumulate True None [Some 5] = Inr (Some \<lparr>sumX = 5, N = 1\<rparr>)"
    "accumulate True None [None, Some 7] = Inr (Some \<lparr>sumX = 7, N = 1\<rparr>)"
    by (simp_all add: fixeddecimal_avg_accum_def makeFixedDecimalAggState_def
        fixeddecimal_accum_def int64_iff)
  then show ?thesis
    using combine_states [of pg_int_builtin pg_wire_be "[Some 5]" _ "[None, Some 7]" _ 0 "1 :: nat"]
    by (simp add: int64_iff agg_of_def)
qed

text \<open>
  C38 (forms of the state). A state is read back unchanged from its binary form and from its
  text form.
\<close>

theorem state_roundtrip:
  assumes "pg_wire_spec w" and "int64 (sumX state)" and "int64 (N state)" and "0 \<le> N state"
  shows "(case fixeddecimalaggstateserialize w True (Some state) of Inl e \<Rightarrow> False
      | Inr bytes \<Rightarrow> fixeddecimalaggstatedeserialize w True bytes = Inr (Some state)) \<and>
    fixeddecimalaggstatein w (fixeddecimalaggstateout state) = Some (Inr state)"
proof -
  note wire = pg_wire_laws(1) [OF assms(1)]
  have "pq_getmsgint64 w (pq_sendint64 w (sumX state)) = Inr (sumX state, [])"
    using wire [of "sumX state" "[]"] assms by simp
  then have bin: "fixeddecimalaggstatedeserialize w True
      (Some (pq_sendint64 w (N state) @ pq_sendint64 w (sumX state))) = Inr (Some state)"
    using assms wire by (simp add: fixeddecimalaggstatedeserialize_def)
  let ?s = "fixeddecimalout (sumX state)" and ?n = "dec (nat (N state))"
  have nc: "CHR '':'' \<notin> set ?s" "CHR '':'' \<notin> set ?n" "?n \<noteq> []" "?s \<noteq> []"
    using digits_dec digits_pad dec_not_Nil by (auto simp: fixeddecimalout_eq digits_no_colon)
  have tok: "strtok (?s @ CHR '':'' # ?n) = Some (?s, ?n)" "strtok ?n = Some (?n, [])"
    using strtok_token nc by simp_all
  have "int8in w ?n = Inr (N state)"
    using pg_wire_laws(2) [OF assms(1), of "nat (N state)"] assms by simp
  then have "fixeddecimalaggstatein w (fixeddecimalaggstateout state) = Some (Inr state)"
    using tok assms
    by (simp add: fixeddecimalaggstatein_def fixeddecimalaggstateout_def pg_int64tostr_dec
        fixeddecimalout_def [symmetric] fixeddecimalin_def scan_out apply_typmod_def VARHDRSZ_def)
  with bin show ?thesis by (simp add: fixeddecimalaggstateserialize_def)
qed

theorem state_roundtrip_witness:
  "fixeddecimalaggstatein pg_wire_be (fixeddecimalaggstateout \<lparr>sumX = INT64_MIN, N = 3\<rparr>) =
     Some (Inr \<lparr>sumX = INT64_MIN, N = 3\<rparr>)"
  using state_roundtrip [of pg_wire_be "\<lparr>sumX = INT64_MIN, N = 3\<rparr>"]
  by (simp add: int64_iff INT64_MIN_def)

text \<open>
  Combining with a NULL state
  returns the collected state, but with the aggregate's memory context current instead of
  the caller's.
\<close>

lemma combine_null_context:
  "fixeddecimalaggstatecombine pg w True cur agg collect None =
     Inr (case collect of None \<Rightarrow> \<lparr>sumX = 0, N = 0\<rparr> | Some s \<Rightarrow> s, agg)"
  by (simp add: fixeddecimalaggstatecombine_def)

end
