(* ===== verification/Memory.thy ===== *)
theory Memory
  imports Prelude
begin

text \<open>
  Bytes, the arithmetic of \<open>size_t\<close>, the server's allocator as a parameter with its
  documented behaviour, and accesses to buffers with their bounds: what the vector of the
  T-SQL extension and the buffers of the TDS extension share.
\<close>

type_synonym byte = "8 word"

text \<open>Arithmetic on \<open>size_t\<close>.\<close>

definition size_t_mul :: "nat \<Rightarrow> nat \<Rightarrow> nat" where
  "size_t_mul a b = (a * b) mod 2 ^ 64"

definition size_t_add :: "nat \<Rightarrow> nat \<Rightarrow> nat" where
  "size_t_add a b = (a + b) mod 2 ^ 64"

definition size_t_sub :: "nat \<Rightarrow> nat \<Rightarrow> nat" where
  "size_t_sub a b = (a + (2 ^ 64 - b)) mod 2 ^ 64"

text \<open>Subtraction of unsigned 32-bit integers, and an \<open>int\<close> converted to \<open>size_t\<close>.\<close>

definition uint32_sub :: "nat \<Rightarrow> nat \<Rightarrow> nat" where
  "uint32_sub a b = nat ((int a - int b) mod 2 ^ 32)"

definition size_t_of_int :: "int \<Rightarrow> nat" where
  "size_t_of_int x = nat (x mod 2 ^ 64)"

text \<open>
  The allocator belongs to the server and is a parameter. Its documented behaviour: a
  request is granted or reported, requests above \<open>MaxAllocSize\<close> are always reported,
  \<open>palloc0\<close> returns zeroed memory and \<open>repalloc\<close> keeps the contents up to the smaller of
  the two sizes.
\<close>

definition MaxAllocSize :: nat where "MaxAllocSize = 1073741823"

record pg_mem =
  palloc :: "nat \<Rightarrow> byte list result"
  palloc0 :: "nat \<Rightarrow> byte list result"
  repalloc :: "byte list \<Rightarrow> nat \<Rightarrow> byte list result"

definition alloc_ok :: "nat \<Rightarrow> byte list result \<Rightarrow> (byte list \<Rightarrow> bool) \<Rightarrow> bool" where
  "alloc_ok n r P \<longleftrightarrow>
     (case r of Inl e \<Rightarrow> is_report e | Inr d \<Rightarrow> n \<le> MaxAllocSize \<and> length d = n \<and> P d)"

definition pg_mem_spec :: "pg_mem \<Rightarrow> bool" where
  "pg_mem_spec m \<longleftrightarrow>
     (\<forall>n. alloc_ok n (palloc m n) (\<lambda>_. True)) \<and>
     (\<forall>n. alloc_ok n (palloc0 m n) (\<lambda>d. d = replicate n 0)) \<and>
     (\<forall>d n. alloc_ok n (repalloc m d n) (\<lambda>d'. take (length d) d' = take n d))"

text \<open>An instance: everything up to \<open>MaxAllocSize\<close> is granted, new memory is zero.\<close>

definition alloc_or_report :: "nat \<Rightarrow> byte list \<Rightarrow> byte list result" where
  "alloc_or_report n d =
     (if n \<le> MaxAllocSize then Inr d
      else ereport ERRCODE_INTERNAL_ERROR ''invalid memory alloc request size %zu'')"

definition pg_mem_simple :: pg_mem where
  "pg_mem_simple =
     \<lparr>palloc = (\<lambda>n. alloc_or_report n (replicate n 0)),
      palloc0 = (\<lambda>n. alloc_or_report n (replicate n 0)),
      repalloc = (\<lambda>d n. alloc_or_report n (take n d @ replicate (n - length d) 0))\<rparr>"

text \<open>\<open>memcpy\<close> into a buffer and reading through a pointer into it, with their bounds.\<close>

definition memcpy_at :: "byte list \<Rightarrow> nat \<Rightarrow> byte list \<Rightarrow> byte list result" where
  "memcpy_at d off src =
     (if off + length src \<le> length d
      then Inr (take off d @ src @ drop (off + length src) d)
      else Inl (Invalid_access ''memcpy out of bounds''))"

definition read_at :: "byte list \<Rightarrow> nat \<Rightarrow> nat \<Rightarrow> byte list result" where
  "read_at d off n =
     (if off + n \<le> length d then Inr (take n (drop off d))
      else Inl (Invalid_access ''read out of bounds''))"

lemma size_t_small [simp]:
  "a * b \<le> 2 * MaxAllocSize \<Longrightarrow> size_t_mul a b = a * b"
  "a + b \<le> 2 * MaxAllocSize \<Longrightarrow> size_t_add a b = a + b"
  "b \<le> a \<Longrightarrow> a \<le> 2 * MaxAllocSize \<Longrightarrow> size_t_sub a b = a - b"
proof -
  show "b \<le> a \<Longrightarrow> a \<le> 2 * MaxAllocSize \<Longrightarrow> size_t_sub a b = a - b"
  proof -
    assume le: "b \<le> a" "a \<le> 2 * MaxAllocSize"
    then have "a + (2 ^ 64 - b) = (a - b) + 2 ^ 64" "a - b < 2 ^ 64"
      by (simp_all add: MaxAllocSize_def)
    then show ?thesis
      unfolding size_t_sub_def by (metis mod_add_self2 mod_less)
  qed
qed (simp_all add: size_t_mul_def size_t_add_def MaxAllocSize_def)

lemma alloc_laws:
  assumes "pg_mem_spec m"
  shows "palloc m n = Inl e \<Longrightarrow> is_report e"
    and "palloc0 m n = Inl e \<Longrightarrow> is_report e"
    and "palloc0 m n = Inr d \<Longrightarrow> n \<le> MaxAllocSize \<and> d = replicate n 0"
    and "repalloc m d n = Inl e \<Longrightarrow> is_report e"
    and "repalloc m d n = Inr d' \<Longrightarrow>
           n \<le> MaxAllocSize \<and> length d' = n \<and> take (length d) d' = take n d"
  using assms unfolding pg_mem_spec_def alloc_ok_def
  by (force split: sum.splits)+

lemma alloc_length: "pg_mem_spec m \<Longrightarrow> palloc m n = Inr d \<Longrightarrow> length d = n"
  unfolding pg_mem_spec_def alloc_ok_def by (force split: sum.splits)

lemma pg_mem_simple_ok [simp]: "pg_mem_spec pg_mem_simple"
  by (auto simp: pg_mem_spec_def pg_mem_simple_def alloc_ok_def alloc_or_report_def
      is_report_def min_def)

lemma uint32_sub_small: "b \<le> a \<Longrightarrow> a < 2 ^ 32 \<Longrightarrow> uint32_sub a b = a - b"
proof -
  assume "b \<le> a" "a < 2 ^ 32"
  then have "(int a - int b) mod 2 ^ 32 = int a - int b"
    by (intro mod_pos_pos_trivial) auto
  with \<open>b \<le> a\<close> show ?thesis
    by (simp add: uint32_sub_def)
qed

lemma size_t_of_int_small: "0 \<le> x \<Longrightarrow> x < 2 ^ 64 \<Longrightarrow> size_t_of_int x = nat x"
  by (simp add: size_t_of_int_def)

lemma memcpy_at_ok:
  "off + length src \<le> length d \<Longrightarrow>
     memcpy_at d off src = Inr (take off d @ src @ drop (off + length src) d)"
  by (simp add: memcpy_at_def)

lemma read_at_ok: "off + n \<le> length d \<Longrightarrow> read_at d off n = Inr (take n (drop off d))"
  by (simp add: read_at_def)

end
