(* ===== verification/DynaVec.thy ===== *)
theory DynaVec
  imports Memory
begin

text \<open>
  The expandable vector and the stack on top of it, \<^verbatim>\<open>dynavec.c\<close> and \<^verbatim>\<open>dynastack.c\<close>:
  a buffer of bytes with a capacity, a used size and an element size. The compiler and the
  executor of T-SQL procedures keep their code, their loop and their TRY...CATCH stacks in
  it. The theory models the operations on the bytes, states what a client may rely on as
  the locale \<open>vector\<close>, and shows that the operations implement a list of elements.
\<close>

named_theorems vec_defs \<open>the operations of the vector\<close>

section \<open>The vector\<close>

record DynaVec =
  dv_data :: "byte list"
  dv_capacity :: nat
  dv_size :: nat
  dv_elem_size :: nat

definition DEFAULT_INIT_NUM_ELEMS :: nat where "DEFAULT_INIT_NUM_ELEMS = 16"

definition sizeof_DynaVec :: nat where "sizeof_DynaVec = 32"

definition vec_at :: "DynaVec \<Rightarrow> nat \<Rightarrow> nat" where
  "vec_at vec index = size_t_mul index (dv_elem_size vec)"

text \<open>The functions that return a pointer return the offset into \<open>data\<close> it points to.\<close>

definition vec_size :: "DynaVec \<Rightarrow> nat" where
  "vec_size vec = dv_size vec div dv_elem_size vec"

definition vec_back :: "DynaVec \<Rightarrow> nat option" where
  "vec_back vec =
     (if dv_size vec < dv_elem_size vec then None
      else Some (vec_at vec (size_t_sub (dv_size vec div dv_elem_size vec) 1)))"

definition create_vector2 :: "pg_mem \<Rightarrow> nat \<Rightarrow> nat \<Rightarrow> DynaVec result" where
  "create_vector2 m elem_size init_num_elems =
     and_then (palloc m sizeof_DynaVec) (\<lambda>_.
     let total_bytes = size_t_mul elem_size init_num_elems in
     and_then (palloc0 m total_bytes) (\<lambda>d.
     Inr \<lparr>dv_data = d, dv_capacity = total_bytes, dv_size = 0, dv_elem_size = elem_size\<rparr>))"

definition create_vector :: "pg_mem \<Rightarrow> nat \<Rightarrow> DynaVec result" where
  "create_vector m elem_size = create_vector2 m elem_size DEFAULT_INIT_NUM_ELEMS"

text \<open>The loop of \<open>create_vector3\<close>, from index \<open>i\<close> with \<open>n\<close> rounds left.\<close>

fun fill_elems :: "DynaVec \<Rightarrow> byte list \<Rightarrow> nat \<Rightarrow> nat \<Rightarrow> DynaVec result" where
  "fill_elems vec init_val i 0 = Inr vec"
| "fill_elems vec init_val i (Suc n) =
     and_then (memcpy_at (dv_data vec) (vec_at vec i) init_val) (\<lambda>d.
     fill_elems (vec\<lparr>dv_data := d\<rparr>) init_val (Suc i) n)"

definition create_vector3 :: "pg_mem \<Rightarrow> nat \<Rightarrow> nat \<Rightarrow> byte list \<Rightarrow> DynaVec result" where
  "create_vector3 m elem_size init_num_elems init_val =
     and_then (create_vector2 m elem_size init_num_elems) (\<lambda>vec.
     fill_elems vec (take elem_size init_val) 0 init_num_elems)"

definition create_vector_copy :: "pg_mem \<Rightarrow> DynaVec \<Rightarrow> DynaVec result" where
  "create_vector_copy m src =
     and_then (create_vector2 m (dv_elem_size src) (vec_size src)) (\<lambda>vec.
     and_then (read_at (dv_data src) 0 (dv_size src)) (\<lambda>bytes.
     and_then (memcpy_at (dv_data vec) 0 bytes) (\<lambda>d.
     Inr (vec\<lparr>dv_data := d, dv_size := dv_size src\<rparr>))))"

definition vec_expand :: "pg_mem \<Rightarrow> DynaVec \<Rightarrow> DynaVec result" where
  "vec_expand m vec =
     (let new_cap = size_t_mul (dv_capacity vec) 2 in
      and_then (repalloc m (dv_data vec) new_cap) (\<lambda>d.
      Inr (vec\<lparr>dv_data := d, dv_capacity := new_cap\<rparr>)))"

definition vec_push_back :: "pg_mem \<Rightarrow> DynaVec \<Rightarrow> byte list \<Rightarrow> DynaVec result" where
  "vec_push_back m vec elem =
     and_then (if size_t_sub (dv_capacity vec) (dv_size vec) < dv_elem_size vec
               then vec_expand m vec else Inr vec) (\<lambda>vec.
     and_then (memcpy_at (dv_data vec) (dv_size vec) (take (dv_elem_size vec) elem)) (\<lambda>d.
     Inr (vec\<lparr>dv_data := d, dv_size := size_t_add (dv_size vec) (dv_elem_size vec)\<rparr>)))"

definition vec_pop_back :: "DynaVec \<Rightarrow> DynaVec" where
  "vec_pop_back vec =
     (if 0 < dv_size vec then vec\<lparr>dv_size := size_t_sub (dv_size vec) (dv_elem_size vec)\<rparr>
      else vec)"

text \<open>What \<open>destroy_vector\<close> leaves in the structure it frees.\<close>

definition destroy_vector :: "DynaVec \<Rightarrow> DynaVec" where
  "destroy_vector vec = vec\<lparr>dv_data := [], dv_capacity := 0, dv_size := 0\<rparr>"

section \<open>The stack\<close>

definition create_stack :: "pg_mem \<Rightarrow> nat \<Rightarrow> DynaVec result" where
  "create_stack m elem_size = create_vector m elem_size"

definition create_stack2 :: "pg_mem \<Rightarrow> nat \<Rightarrow> nat \<Rightarrow> DynaVec result" where
  "create_stack2 m elem_size init_num_elems = create_vector2 m elem_size init_num_elems"

definition destroy_stack :: "DynaVec \<Rightarrow> DynaVec" where
  "destroy_stack stack = destroy_vector stack"

definition stack_top :: "DynaVec \<Rightarrow> nat option" where
  "stack_top stack = vec_back stack"

definition stack_pop :: "DynaVec \<Rightarrow> DynaVec" where
  "stack_pop stack = vec_pop_back stack"

definition stack_push :: "pg_mem \<Rightarrow> DynaVec \<Rightarrow> byte list \<Rightarrow> DynaVec result" where
  "stack_push m stack elem = vec_push_back m stack elem"

definition stack_is_empty :: "DynaVec \<Rightarrow> bool" where
  "stack_is_empty stack \<longleftrightarrow> dv_size stack = 0"

definition stack_size :: "DynaVec \<Rightarrow> nat" where
  "stack_size stack = vec_size stack"

text \<open>Reading the element a returned pointer points to.\<close>

definition elem_at :: "DynaVec \<Rightarrow> nat \<Rightarrow> byte list result" where
  "elem_at vec i = read_at (dv_data vec) (vec_at vec i) (dv_elem_size vec)"

definition top_elem :: "DynaVec \<Rightarrow> byte list result" where
  "top_elem vec =
     (case stack_top vec of
        None \<Rightarrow> Inl (Invalid_access ''NULL'')
      | Some off \<Rightarrow> read_at (dv_data vec) off (dv_elem_size vec))"

section \<open>The interface\<close>

text \<open>
  What the clients rely on: an invariant and an abstraction to a list of elements that
  the operations respect. The parameter \<open>p\<close> is the allocator.
\<close>

datatype 'e stack_op = Push 'e | Pop

text \<open>A run of pushes and pops, on a structure and on a list.\<close>

fun run_ops ::
  "('v \<Rightarrow> 'e \<Rightarrow> 'v result) \<Rightarrow> ('v \<Rightarrow> 'v) \<Rightarrow> 'e stack_op list \<Rightarrow> 'v \<Rightarrow> 'v result" where
  "run_ops push pop [] v = Inr v"
| "run_ops push pop (Push e # ops) v = and_then (push v e) (run_ops push pop ops)"
| "run_ops push pop (Pop # ops) v = run_ops push pop ops (pop v)"

fun run_list :: "'e stack_op list \<Rightarrow> 'e list \<Rightarrow> 'e list" where
  "run_list [] xs = xs"
| "run_list (Push e # ops) xs = run_list ops (xs @ [e])"
| "run_list (Pop # ops) xs = run_list ops (butlast xs)"

definition pushes :: "'e stack_op list \<Rightarrow> nat" where
  "pushes ops = length (filter (\<lambda>op. op \<noteq> Pop) ops)"

locale vector =
  fixes ok :: "'p \<Rightarrow> bool"
    and inv :: "'v \<Rightarrow> bool"
    and fits :: "'v \<Rightarrow> 'e \<Rightarrow> bool"
    and elems :: "'v \<Rightarrow> 'e list"
    and push :: "'p \<Rightarrow> 'v \<Rightarrow> 'e \<Rightarrow> 'v result"
    and pop :: "'v \<Rightarrow> 'v"
    and get :: "'v \<Rightarrow> nat \<Rightarrow> 'e result"
    and top :: "'v \<Rightarrow> 'e result"
    and count :: "'v \<Rightarrow> nat"
  assumes push_inv: "ok p \<Longrightarrow> inv v \<Longrightarrow> fits v e \<Longrightarrow> push p v e = Inr v' \<Longrightarrow> inv v'"
    and push_elems: "ok p \<Longrightarrow> inv v \<Longrightarrow> fits v e \<Longrightarrow> push p v e = Inr v' \<Longrightarrow> elems v' = elems v @ [e]"
    and push_fits: "push p v e = Inr v' \<Longrightarrow> fits v' = fits v"
    and push_report: "ok p \<Longrightarrow> inv v \<Longrightarrow> fits v e \<Longrightarrow> push p v e = Inl err \<Longrightarrow> is_report err"
    and pop_inv: "inv v \<Longrightarrow> inv (pop v)"
    and pop_elems: "inv v \<Longrightarrow> elems (pop v) = butlast (elems v)"
    and pop_fits: "fits (pop v) = fits v"
    and get_elems: "inv v \<Longrightarrow> i < length (elems v) \<Longrightarrow> get v i = Inr (elems v ! i)"
    and top_elems: "inv v \<Longrightarrow> elems v \<noteq> [] \<Longrightarrow> top v = Inr (last (elems v))"
    and count_elems: "inv v \<Longrightarrow> count v = length (elems v)"
begin

text \<open>The run on the structure is the run on the list it stands for.\<close>

lemma run_refines:
  assumes "ok p" "inv v" "\<And>e. Push e \<in> set ops \<Longrightarrow> fits v e"
  shows "case run_ops (push p) pop ops v of
           Inl err \<Rightarrow> is_report err
         | Inr v' \<Rightarrow> inv v' \<and> fits v' = fits v \<and>
             elems v' = run_list ops (elems v)"
  using assms(2,3)
proof (induction ops arbitrary: v)
  case (Cons op ops)
  show ?case
  proof (cases op)
    case (Push e)
    with Cons.prems have fe: "fits v e" by simp
    show ?thesis
    proof (cases "push p v e")
      case (Inl err)
      with Push fe show ?thesis
        using push_report [OF assms(1) Cons.prems(1)] by simp
    next
      case (Inr v')
      note v' = push_inv [OF assms(1) Cons.prems(1) fe Inr]
        push_elems [OF assms(1) Cons.prems(1) fe Inr] push_fits [OF Inr]
      from Cons.IH [of v'] Cons.prems(2) v' Push Inr show ?thesis
        by (auto split: sum.splits)
    qed
  next
    case Pop
    with Cons.IH [of "pop v"] Cons.prems show ?thesis
      by (auto simp: pop_inv pop_elems pop_fits split: sum.splits)
  qed
qed simp

text \<open>What was pushed last is on top, and popping it restores the elements.\<close>

lemma push_then:
  assumes "ok p" "inv v" "fits v e" "push p v e = Inr v'"
  shows "top v' = Inr e" "elems (pop v') = elems v" "count v' = Suc (count v)"
    "\<And>i. i < count v \<Longrightarrow> get v' i = get v i"
  using push_inv [OF assms] push_elems [OF assms] assms(2)
  by (auto simp: top_elems pop_elems count_elems get_elems nth_append)

end

section \<open>The bytes of the elements\<close>

definition chunk :: "nat \<Rightarrow> byte list \<Rightarrow> nat \<Rightarrow> byte list" where
  "chunk n d i = take n (drop (i * n) d)"

definition elems :: "DynaVec \<Rightarrow> byte list list" where
  "elems v = map (chunk (dv_elem_size v) (dv_data v)) [0..<vec_size v]"

text \<open>
  Well-formed vectors; \<open>vec_ok\<close> are those with some capacity, as all vectors are that were
  created with a positive number of elements.
\<close>

definition vec_wf :: "DynaVec \<Rightarrow> bool" where
  "vec_wf v \<longleftrightarrow> 0 < dv_elem_size v \<and> dv_elem_size v dvd dv_size v \<and>
     dv_elem_size v dvd dv_capacity v \<and> dv_size v \<le> dv_capacity v \<and>
     dv_capacity v \<le> MaxAllocSize \<and> length (dv_data v) = dv_capacity v"

definition vec_ok :: "DynaVec \<Rightarrow> bool" where
  "vec_ok v \<longleftrightarrow> vec_wf v \<and> 0 < dv_capacity v"

lemma vec_wf_space:
  assumes "vec_wf v" and "\<not> dv_capacity v - dv_size v < dv_elem_size v"
  shows "dv_size v + dv_elem_size v \<le> dv_capacity v"
  using assms by (auto simp: vec_wf_def)

lemma chunk_take: "(i + 1) * n \<le> k \<Longrightarrow> chunk n (take k d) i = chunk n d i"
  by (simp add: chunk_def drop_take take_take min_def algebra_simps)

lemma elems_eqI:
  assumes "dv_elem_size v' = dv_elem_size v" and "dv_size v' = dv_size v"
    and "take (dv_size v) (dv_data v') = take (dv_size v) (dv_data v)"
  shows "elems v' = elems v"
proof -
  have "chunk (dv_elem_size v) (dv_data v') i = chunk (dv_elem_size v) (dv_data v) i"
    if "i < vec_size v" for i
  proof -
    have "(i + 1) * dv_elem_size v \<le> dv_size v"
      using that unfolding vec_size_def
      by (metis Suc_eq_plus1 Suc_leI div_times_less_eq_dividend le_trans mult_le_mono1)
    then show ?thesis
      using assms(3) by (metis chunk_take)
  qed
  then show ?thesis
    using assms(1,2) by (simp add: elems_def vec_size_def)
qed

lemma vec_expand_ok:
  assumes m: "pg_mem_spec m" and v: "vec_ok v"
  shows "case vec_expand m v of
           Inl e \<Rightarrow> repalloc m (dv_data v) (2 * dv_capacity v) = Inl e \<and> is_report e
         | Inr v' \<Rightarrow> vec_ok v' \<and> dv_capacity v' = 2 * dv_capacity v \<and> dv_size v' = dv_size v \<and>
             dv_elem_size v' = dv_elem_size v \<and> elems v' = elems v"
proof -
  have cap: "size_t_mul (dv_capacity v) 2 = 2 * dv_capacity v"
    using v by (simp add: vec_ok_def vec_wf_def mult.commute)
  show ?thesis
  proof (cases "repalloc m (dv_data v) (2 * dv_capacity v)")
    case (Inl e)
    with alloc_laws(4) [OF m] show ?thesis by (simp add: vec_expand_def cap)
  next
    case (Inr d)
    note d = alloc_laws(5) [OF m Inr]
    let ?v' = "v\<lparr>dv_data := d, dv_capacity := 2 * dv_capacity v\<rparr>"
    have "take (dv_size v) d = take (dv_size v) (dv_data v)"
      using d v by (auto simp: vec_ok_def vec_wf_def dest: arg_cong [of _ _ "take (dv_size v)"])
    then have "elems ?v' = elems v"
      by (intro elems_eqI) simp_all
    with d v Inr show ?thesis
      by (simp add: vec_expand_def cap vec_ok_def vec_wf_def)
  qed
qed

text \<open>Appending where there is room.\<close>

definition append_elem :: "DynaVec \<Rightarrow> byte list \<Rightarrow> DynaVec" where
  "append_elem v e =
     v\<lparr>dv_data := take (dv_size v) (dv_data v) @ e @ drop (dv_size v + dv_elem_size v) (dv_data v),
       dv_size := dv_size v + dv_elem_size v\<rparr>"

lemma append_elem_ok:
  assumes v: "vec_ok v" and room: "dv_size v + dv_elem_size v \<le> dv_capacity v"
    and e: "length e = dv_elem_size v"
  shows "vec_ok (append_elem v e)" "elems (append_elem v e) = elems v @ [e]"
proof -
  show "vec_ok (append_elem v e)"
    using assms by (auto simp: vec_ok_def vec_wf_def append_elem_def)
  obtain k where k: "dv_size v = k * dv_elem_size v" and es: "0 < dv_elem_size v"
    using v by (auto simp: vec_ok_def vec_wf_def elim!: dvdE)
  have len: "dv_size v \<le> length (dv_data v)"
    using v by (simp add: vec_ok_def vec_wf_def)
  let ?d = "dv_data (append_elem v e)"
  have new: "chunk (dv_elem_size v) ?d k = e"
    using len e by (simp add: chunk_def append_elem_def flip: k)
  have "take (dv_size v) ?d = take (dv_size v) (dv_data v)"
    using len by (simp add: append_elem_def)
  then have "elems (append_elem v e\<lparr>dv_size := dv_size v\<rparr>) = elems v"
    by (intro elems_eqI) (simp_all add: append_elem_def)
  then have old: "map (chunk (dv_elem_size v) ?d) [0..<k] = elems v"
    using k es by (simp add: elems_def vec_size_def append_elem_def)
  have "vec_size (append_elem v e) = Suc k"
    using k es by (simp add: vec_size_def append_elem_def)
  then show "elems (append_elem v e) = elems v @ [e]"
    using old new by (simp add: elems_def) (simp add: append_elem_def)
qed

lemma vec_push_room:
  assumes v: "vec_ok v" and room: "dv_size v + dv_elem_size v \<le> dv_capacity v"
    and e: "length e = dv_elem_size v"
  shows "vec_push_back m v e = Inr (append_elem v e)"
proof -
  have "dv_capacity v \<le> MaxAllocSize" "length (dv_data v) = dv_capacity v"
    using v by (simp_all add: vec_ok_def vec_wf_def)
  moreover have "\<not> dv_capacity v - dv_size v < dv_elem_size v"
    using room by arith
  ultimately show ?thesis
    using room e by (simp add: vec_push_back_def memcpy_at_def append_elem_def)
qed

lemma vec_push_full:
  assumes v: "vec_ok v" and full: "dv_capacity v < dv_size v + dv_elem_size v"
    and m: "pg_mem_spec m"
    and e: "length e = dv_elem_size v"
  shows "vec_push_back m v e = and_then (vec_expand m v) (\<lambda>v'. Inr (append_elem v' e))"
proof -
  have le: "dv_size v \<le> dv_capacity v" "dv_capacity v \<le> 2 * MaxAllocSize"
    "dv_elem_size v \<le> dv_capacity v" "dv_capacity v - dv_size v < dv_elem_size v"
    using v full by (auto simp: vec_ok_def vec_wf_def dvd_imp_le)
  have "vec_push_back m v e = and_then (vec_expand m v) (\<lambda>v'. vec_push_back m v' e)"
  proof (cases "vec_expand m v")
    case (Inr v')
    with vec_expand_ok [OF m v] le full show ?thesis
      by (simp add: vec_push_back_def [of m v] vec_push_back_def [of m v'])
         (auto simp: vec_ok_def vec_wf_def)
  qed (use full le in \<open>simp add: vec_push_back_def\<close>)
  also have "\<dots> = and_then (vec_expand m v) (\<lambda>v'. Inr (append_elem v' e))"
  proof (cases "vec_expand m v")
    case (Inr v')
    with vec_expand_ok [OF m v] e le vec_push_room [of v' e m] show ?thesis by simp
  qed simp
  finally show ?thesis .
qed

lemma vec_push_ok:
  assumes m: "pg_mem_spec m" and v: "vec_ok v" and e: "length e = dv_elem_size v"
  shows "case vec_push_back m v e of
           Inl err \<Rightarrow> dv_capacity v < dv_size v + dv_elem_size v \<and>
             repalloc m (dv_data v) (2 * dv_capacity v) = Inl err \<and> is_report err
         | Inr v' \<Rightarrow> vec_ok v' \<and> elems v' = elems v @ [e] \<and>
             dv_elem_size v' = dv_elem_size v \<and> dv_size v' = dv_size v + dv_elem_size v \<and>
             dv_capacity v' = (if dv_size v + dv_elem_size v \<le> dv_capacity v
                               then dv_capacity v else 2 * dv_capacity v)"
proof (cases "dv_size v + dv_elem_size v \<le> dv_capacity v")
  case True
  with append_elem_ok [OF v True e] vec_push_room [OF v True e] show ?thesis
    by (simp add: append_elem_def)
next
  case False
  then have full: "dv_capacity v < dv_size v + dv_elem_size v" by simp
  have le: "dv_size v \<le> dv_capacity v" "dv_elem_size v \<le> dv_capacity v"
    using v by (auto simp: vec_ok_def vec_wf_def dvd_imp_le)
  show ?thesis
  proof (cases "vec_expand m v")
    case (Inl err)
    with full vec_expand_ok [OF m v] vec_push_full [OF v full m e] show ?thesis by simp
  next
    case (Inr v')
    with False le e vec_expand_ok [OF m v] vec_push_full [OF v full m e]
      append_elem_ok [of v' e] show ?thesis
      by (simp add: append_elem_def)
  qed
qed

lemma vec_pop_ok:
  assumes "vec_ok v"
  shows "vec_ok (vec_pop_back v)" "elems (vec_pop_back v) = butlast (elems v)"
proof -
  obtain k where k: "dv_size v = k * dv_elem_size v" and es: "0 < dv_elem_size v"
    using assms by (auto simp: vec_ok_def vec_wf_def elim!: dvdE)
  have le: "dv_size v \<le> MaxAllocSize"
    using assms by (auto simp: vec_ok_def vec_wf_def)
  have pop: "vec_pop_back v = v\<lparr>dv_size := (k - 1) * dv_elem_size v\<rparr>"
  proof (cases k)
    case (Suc j)
    with k es le show ?thesis
      by (simp add: vec_pop_back_def)
  qed (use k in \<open>simp add: vec_pop_back_def\<close>)
  have "(k - 1) * dv_elem_size v \<le> k * dv_elem_size v"
    by simp
  then show "vec_ok (vec_pop_back v)"
    using assms k unfolding vec_ok_def vec_wf_def pop by auto
  show "elems (vec_pop_back v) = butlast (elems v)"
    using k es by (cases k) (simp_all add: pop elems_def vec_size_def)
qed

lemma elem_at_ok:
  assumes v: "vec_wf v" and i: "i < length (elems v)"
  shows "elem_at v i = Inr (elems v ! i)"
proof -
  have "i < vec_size v"
    using i by (simp add: elems_def)
  then have "i * dv_elem_size v + dv_elem_size v \<le> dv_size v"
    unfolding vec_size_def
    by (metis Suc_leI div_times_less_eq_dividend le_trans mult_Suc add.commute mult_le_mono1)
  with v \<open>i < vec_size v\<close> show ?thesis
    by (auto simp: elem_at_def vec_at_def read_at_def elems_def chunk_def vec_wf_def)
qed

lemma top_elem_ok:
  assumes v: "vec_wf v" and ne: "elems v \<noteq> []"
  shows "top_elem v = Inr (last (elems v))"
proof -
  have size: "0 < vec_size v" "vec_size v = length (elems v)"
    using ne by (simp_all add: elems_def)
  then have "\<not> dv_size v < dv_elem_size v"
    by (auto simp: vec_size_def)
  moreover have "vec_size v \<le> MaxAllocSize"
    using v unfolding vec_wf_def vec_size_def by (meson div_le_dividend le_trans)
  ultimately have "top_elem v = elem_at v (vec_size v - 1)"
    using size(1) by (simp add: top_elem_def stack_top_def vec_back_def elem_at_def
        flip: vec_size_def)
  then show ?thesis
    using elem_at_ok [OF v, of "vec_size v - 1"] size ne by (simp add: last_conv_nth)
qed

lemma vec_ok_wf: "vec_ok v \<Longrightarrow> vec_wf v"
  by (simp add: vec_ok_def)

lemma push_keeps_elem_size:
  "vec_push_back m v e = Inr v' \<Longrightarrow> dv_elem_size v' = dv_elem_size v"
  by (auto simp: vec_push_back_def vec_expand_def Let_def and_then_Inr_iff split: if_splits)

lemma pop_keeps [simp]:
  "dv_elem_size (vec_pop_back v) = dv_elem_size v"
  "dv_capacity (vec_pop_back v) = dv_capacity v"
  by (simp_all add: vec_pop_back_def)

lemma vec_size_elems: "vec_size v = length (elems v)"
  by (simp add: elems_def)

interpretation dv: vector pg_mem_spec vec_ok "\<lambda>v e. length e = dv_elem_size v" elems
  vec_push_back vec_pop_back elem_at top_elem vec_size
proof unfold_locales
  fix p v v' and e :: "byte list" and err
  assume "pg_mem_spec p" "vec_ok v" "length e = dv_elem_size v"
  note push = vec_push_ok [OF this]
  show "vec_push_back p v e = Inr v' \<Longrightarrow> vec_ok v'"
    and "vec_push_back p v e = Inr v' \<Longrightarrow> elems v' = elems v @ [e]"
    and "vec_push_back p v e = Inl err \<Longrightarrow> is_report err"
    using push by simp_all
qed (simp_all add: push_keeps_elem_size vec_pop_ok elem_at_ok top_elem_ok vec_size_elems vec_ok_wf)

text \<open>The stack functions are the same operations under another name.\<close>

lemmas stack_defs = stack_push_def [abs_def] stack_pop_def [abs_def] stack_size_def [abs_def]

interpretation ds: vector pg_mem_spec vec_ok "\<lambda>v e. length e = dv_elem_size v" elems
  stack_push stack_pop elem_at top_elem stack_size
  unfolding stack_defs by (rule dv.vector_axioms)

section \<open>Creation\<close>

lemma create_vector2_ok:
  assumes m: "pg_mem_spec m" and pos: "0 < es" "es * n < 2 ^ 64"
  shows "case create_vector2 m es n of
           Inl e \<Rightarrow> is_report e
         | Inr v \<Rightarrow> vec_wf v \<and> elems v = [] \<and> dv_elem_size v = es \<and> dv_size v = 0 \<and>
             dv_capacity v = es * n \<and> dv_data v = replicate (es * n) 0"
proof -
  have total: "size_t_mul es n = es * n"
    using pos by (simp add: size_t_mul_def)
  show ?thesis
    using alloc_laws(1,2) [OF m] alloc_laws(3) [OF m, of "es * n"] pos
    by (auto simp: create_vector2_def Let_def total elems_def vec_size_def vec_wf_def
        and_then_def split: sum.splits)
qed

lemma create_vector_copy_ok:
  assumes m: "pg_mem_spec m" and v: "vec_wf v"
  shows "case create_vector_copy m v of
           Inl e \<Rightarrow> is_report e
         | Inr c \<Rightarrow> vec_wf c \<and> elems c = elems v \<and> dv_elem_size c = dv_elem_size v \<and>
             dv_capacity c = dv_size v \<and> dv_size c = dv_size v"
proof -
  have k: "dv_elem_size v * vec_size v = dv_size v" and es: "0 < dv_elem_size v"
    and small: "dv_size v < 2 ^ 64"
    using v by (auto simp: vec_wf_def vec_size_def MaxAllocSize_def)
  note new = create_vector2_ok [OF m es, of "vec_size v", unfolded k, OF small]
  have read: "read_at (dv_data v) 0 (dv_size v) = Inr (take (dv_size v) (dv_data v))"
    and len: "length (take (dv_size v) (dv_data v)) = dv_size v"
    using v by (auto simp: vec_wf_def read_at_def)
  show ?thesis
  proof (cases "create_vector2 m (dv_elem_size v) (vec_size v)")
    case (Inl e)
    with new show ?thesis by (simp add: create_vector_copy_def)
  next
    case (Inr c)
    let ?c = "c\<lparr>dv_data := take (dv_size v) (dv_data v), dv_size := dv_size v\<rparr>"
    from Inr new have c: "dv_elem_size c = dv_elem_size v" "dv_capacity c = dv_size v"
      "length (dv_data c) = dv_size v"
      by (auto simp: vec_wf_def)
    then have "create_vector_copy m v = Inr ?c"
      using Inr len by (simp add: create_vector_copy_def read memcpy_at_def)
    moreover have "elems ?c = elems v"
      using c by (intro elems_eqI) simp_all
    moreover have "vec_wf ?c"
      using v c by (auto simp: vec_wf_def)
    ultimately show ?thesis
      using c by simp
  qed
qed

lemma run_capacity:
  assumes "pg_mem_spec m" "vec_ok v" "\<And>e. Push e \<in> set ops \<Longrightarrow> length e = dv_elem_size v"
    and "run_ops (vec_push_back m) vec_pop_back ops v = Inr v'"
  shows "dv_capacity v' \<le> max (dv_capacity v) (2 * (dv_size v + pushes ops * dv_elem_size v))"
  using assms(2-)
proof (induction ops arbitrary: v)
  case (Cons op ops)
  show ?case
  proof (cases op)
    case (Push e)
    with Cons.prems obtain v1 where v1: "vec_push_back m v e = Inr v1"
      and run: "run_ops (vec_push_back m) vec_pop_back ops v1 = Inr v'"
      by (auto simp: and_then_Inr_iff)
    have "length e = dv_elem_size v" using Cons.prems Push by simp
    note push = vec_push_ok [OF assms(1) Cons.prems(1) this, unfolded v1, simplified]
    have "dv_capacity v' \<le> max (dv_capacity v1) (2 * (dv_size v1 + pushes ops * dv_elem_size v1))"
      using Cons.prems push by (intro Cons.IH run) simp_all
    with push Push show ?thesis
      by (auto simp: pushes_def algebra_simps split: if_splits)
  next
    case Pop
    have "dv_size (vec_pop_back v) \<le> dv_size v"
      using Cons.prems(1) by (auto simp: vec_pop_back_def vec_ok_def vec_wf_def dvd_imp_le)
    moreover have "dv_capacity v' \<le> max (dv_capacity (vec_pop_back v))
        (2 * (dv_size (vec_pop_back v) + pushes ops * dv_elem_size (vec_pop_back v)))"
      using Cons.prems Pop by (intro Cons.IH) (simp_all add: vec_pop_ok)
    ultimately show ?thesis
      using Pop by (auto simp: pushes_def)
  qed
qed simp

section \<open>Properties\<close>



text \<open>
  C40. A copy of a vector holds the same elements. Its buffer has exactly the size of
  those elements, so the copy of an empty vector has capacity 0, which doubling never
  raises: pushing an element onto such a copy never succeeds, and with an allocator that
  grants the request it writes outside of the buffer. (The two callers only read their
  copies.)
\<close>

theorem vector_copy:
  assumes "pg_mem_spec m" and "vec_wf v" and "create_vector_copy m v = Inr c"
  shows "(\<forall>i < vec_size v. elem_at c i = elem_at v i) \<and> vec_size c = vec_size v \<and>
         (vec_size v = 0 \<longrightarrow> length e = dv_elem_size v \<longrightarrow>
            vec_push_back m c e =
              (case repalloc m [] 0 of
                 Inl err \<Rightarrow> Inl err
               | Inr d \<Rightarrow> Inl (Invalid_access ''memcpy out of bounds'')))"
proof -
  from create_vector_copy_ok [OF assms(1,2)] assms(3)
  have c: "vec_wf c" "elems c = elems v" "dv_elem_size c = dv_elem_size v"
    "dv_capacity c = dv_size v" "dv_size c = dv_size v"
    by simp_all
  have push: "vec_push_back m c e =
      (case repalloc m [] 0 of
         Inl err \<Rightarrow> Inl err | Inr d \<Rightarrow> Inl (Invalid_access ''memcpy out of bounds''))"
    if "vec_size v = 0" "length e = dv_elem_size v"
  proof -
    have empty: "dv_size v = 0" "0 < dv_elem_size v"
      using that(1) assms(2) by (auto simp: vec_size_def vec_wf_def dvd_div_eq_0_iff)
    then have "dv_data c = []"
      using c(1,4) by (simp add: vec_wf_def)
    with empty c that(2) alloc_laws(5) [OF assms(1), of "[]" 0] show ?thesis
      by (auto simp: vec_push_back_def vec_expand_def memcpy_at_def Let_def split: sum.splits)
  qed
  show ?thesis
    using elem_at_ok [OF c(1)] elem_at_ok [OF assms(2)] c(2) push
    by (simp add: vec_size_elems)
qed

theorem vector_copy_witness:
  "(let v = \<lparr>dv_data = [0, 0], dv_capacity = 2, dv_size = 0, dv_elem_size = 2\<rparr> in
    vec_wf v \<and>
    (case create_vector_copy pg_mem_simple v of
       Inl err \<Rightarrow> False
     | Inr c \<Rightarrow> vec_push_back pg_mem_simple c [1, 2]
                  = Inl (Invalid_access ''memcpy out of bounds'')))"
proof -
  let ?v = "\<lparr>dv_data = [0, 0], dv_capacity = 2, dv_size = 0, dv_elem_size = 2\<rparr>"
  let ?c = "\<lparr>dv_data = [], dv_capacity = 0, dv_size = 0, dv_elem_size = 2\<rparr>"
  have wf: "vec_wf ?v"
    by (simp add: vec_wf_def MaxAllocSize_def)
  have copy: "create_vector_copy pg_mem_simple ?v = Inr ?c"
    by (simp add: create_vector_copy_def create_vector2_def pg_mem_simple_def
        alloc_or_report_def Let_def MaxAllocSize_def sizeof_DynaVec_def vec_size_def
        size_t_mul_def read_at_def memcpy_at_def)
  have "repalloc pg_mem_simple [] 0 = Inr []"
    by (simp add: pg_mem_simple_def alloc_or_report_def)
  with vector_copy [OF pg_mem_simple_ok wf copy, of "[1, 2]"] show ?thesis
    by (simp add: Let_def wf copy vec_size_def)
qed

end
