(* ===== verification/Tsql_Ast.thy ===== *)
theory Tsql_Ast
  imports Prelude "HOL-Library.Sublist"
begin

text \<open>
  The statement trees of T-SQL procedures (\<^verbatim>\<open>pltsql.h\<close>, \<^verbatim>\<open>pltsql-2.h\<close>), the executable
  nodes the code generator adds to them, and the tables its passes share
  (\<^verbatim>\<open>compile_context.h\<close>). A statement carries the address of its node, which the passes
  use as a hash key and print into generated labels. Vectors and stacks are lists here;
  the theory \<open>DynaVec\<close> shows that the vector of the code implements them.
\<close>

section \<open>Statements\<close>

text \<open>The statement types without child statements.\<close>

datatype leaf_type =
    PLTSQL_STMT_ASSIGN | PLTSQL_STMT_CASE | PLTSQL_STMT_LOOP | PLTSQL_STMT_FORI
     | PLTSQL_STMT_FORS | PLTSQL_STMT_FORC | PLTSQL_STMT_FOREACH_A
     | PLTSQL_STMT_RETURN_NEXT | PLTSQL_STMT_RETURN_QUERY | PLTSQL_STMT_RAISE
     | PLTSQL_STMT_ASSERT | PLTSQL_STMT_EXECSQL | PLTSQL_STMT_DYNEXECUTE
     | PLTSQL_STMT_DYNFORS | PLTSQL_STMT_GETDIAG | PLTSQL_STMT_OPEN | PLTSQL_STMT_FETCH
     | PLTSQL_STMT_CLOSE | PLTSQL_STMT_PERFORM | PLTSQL_STMT_CALL | PLTSQL_STMT_COMMIT
     | PLTSQL_STMT_ROLLBACK | PLTSQL_STMT_SET | PLTSQL_STMT_PRINT
     | PLTSQL_STMT_QUERY_SET | PLTSQL_STMT_PUSH_RESULT | PLTSQL_STMT_EXEC
     | PLTSQL_STMT_EXEC_BATCH | PLTSQL_STMT_EXEC_SP | PLTSQL_STMT_DECL_TABLE
     | PLTSQL_STMT_RETURN_TABLE | PLTSQL_STMT_DEALLOCATE | PLTSQL_STMT_DECL_CURSOR
     | PLTSQL_STMT_RAISERROR | PLTSQL_STMT_THROW | PLTSQL_STMT_USEDB
     | PLTSQL_STMT_SET_EXPLAIN_MODE | PLTSQL_STMT_KILL | PLTSQL_STMT_INSERT_BULK
     | PLTSQL_STMT_GRANTDB | PLTSQL_STMT_CHANGE_DBOWNER | PLTSQL_STMT_DBCC
     | PLTSQL_STMT_ALTER_DB | PLTSQL_STMT_FULLTEXTINDEX | PLTSQL_STMT_GRANTSCHEMA
     | PLTSQL_STMT_PARTITION_FUNCTION | PLTSQL_STMT_PARTITION_SCHEME

datatype node = Node (addr: nat) (lineno: int)

type_synonym expr = string

text \<open>
  \<open>NULL\<close> is the null pointer, which stands for an absent branch. \<open>If\<close> has the condition,
  the THEN and the ELSE branch; \<open>Exit\<close> is BREAK if its flag \<open>is_exit\<close> is set and CONTINUE
  otherwise; \<open>Try_catch\<close> has the body and the handler. The parsers only build GOTO
  statements without a condition; the condition of a jump is the code generator's.
\<close>

datatype stmt =
    NULL
  | Block node "stmt list"
  | Leaf node leaf_type
  | Init node "stmt list"
  | If node expr stmt stmt
  | While node expr "stmt list"
  | Exit node bool
  | Return node
  | Goto node string
  | Label node string
  | Try_catch node stmt stmt

text \<open>The addresses of all nodes of a tree.\<close>

primrec addrs :: "stmt \<Rightarrow> nat list" where
  "addrs NULL = []"
| "addrs (Block n ss) = addr n # concat (map addrs ss)"
| "addrs (Leaf n ty) = [addr n]"
| "addrs (Init n ss) = addr n # concat (map addrs ss)"
| "addrs (If n e s t) = addr n # addrs s @ addrs t"
| "addrs (While n e ss) = addr n # concat (map addrs ss)"
| "addrs (Exit n b) = [addr n]"
| "addrs (Return n) = [addr n]"
| "addrs (Goto n l) = [addr n]"
| "addrs (Label n l) = [addr n]"
| "addrs (Try_catch n s t) = addr n # addrs s @ addrs t"

text \<open>The leaf types \<open>general_walker_func\<close> dispatches; the others end in its report.\<close>

definition walker_supports :: "leaf_type \<Rightarrow> bool" where
  "walker_supports ty \<longleftrightarrow> ty \<in> {
      PLTSQL_STMT_ASSIGN, PLTSQL_STMT_RETURN_QUERY, PLTSQL_STMT_EXECSQL, PLTSQL_STMT_OPEN
     , PLTSQL_STMT_FETCH, PLTSQL_STMT_CLOSE, PLTSQL_STMT_COMMIT, PLTSQL_STMT_ROLLBACK
     , PLTSQL_STMT_PRINT, PLTSQL_STMT_QUERY_SET, PLTSQL_STMT_PUSH_RESULT
     , PLTSQL_STMT_EXEC, PLTSQL_STMT_EXEC_BATCH, PLTSQL_STMT_EXEC_SP
     , PLTSQL_STMT_DECL_TABLE, PLTSQL_STMT_RETURN_TABLE, PLTSQL_STMT_DEALLOCATE
     , PLTSQL_STMT_DECL_CURSOR, PLTSQL_STMT_RAISERROR, PLTSQL_STMT_THROW
     , PLTSQL_STMT_USEDB, PLTSQL_STMT_KILL, PLTSQL_STMT_INSERT_BULK
     , PLTSQL_STMT_SET_EXPLAIN_MODE, PLTSQL_STMT_GRANTDB, PLTSQL_STMT_CHANGE_DBOWNER
     , PLTSQL_STMT_DBCC, PLTSQL_STMT_ALTER_DB, PLTSQL_STMT_FULLTEXTINDEX
     , PLTSQL_STMT_GRANTSCHEMA, PLTSQL_STMT_PARTITION_FUNCTION
     , PLTSQL_STMT_PARTITION_SCHEME}"

section \<open>Executable nodes\<close>

text \<open>
  The generated labels print a kind, the line and the address of a node; the label of the
  end of the procedure prints the address of the walker. User labels are identifiers,
  which never start with a dollar sign as the generated ones do. The hash tables of labels
  compare at most \<open>NAMEDATALEN - 1\<close> characters.
\<close>

datatype label =
    User_label string
  | LOOP_BEGIN node | LOOP_END node
  | CATCH_BEGIN node | CATCH_END node
  | ELSE_BEGIN node | ELSE_END node
  | END_OF_PROC

definition NAMEDATALEN :: nat where "NAMEDATALEN = 64"

definition name_key :: "string \<Rightarrow> string" where
  "name_key s = take (NAMEDATALEN - 1) s"

definition label_key :: "label \<Rightarrow> label" where
  "label_key l = (case l of User_label s \<Rightarrow> User_label (name_key s) | _ \<Rightarrow> l)"

text \<open>
  What the executor runs: leaf statements, RETURN, jumps with an optional condition, and
  the nodes that save and restore an error context. Jumps and saves have a target label
  and a target pc.
\<close>

datatype instr =
    Exec node leaf_type
  | Exec_return node
  | Exec_goto int "expr option" label int
  | Exec_save_ctx int label int
  | Exec_restore_ctx_full int
  | Exec_restore_ctx_partial int

record PLtsql_function =
  action :: "stmt list"
  exec_codes :: "instr list option"
  exec_codes_valid :: bool

section \<open>Tables shared by the passes\<close>

datatype TryCatchInfo = TryCatchInfo (tc_stmt: nat) (in_try_block: bool)

record ScopeContext =
  nesting_trycatch_infos :: "TryCatchInfo list"
  nesting_loops :: "nat list"

record CompileContext =
  stmt_scope_context :: "nat \<rightharpoonup> ScopeContext"
  label_stmt_map :: "string \<rightharpoonup> node"

definition create_compile_context :: CompileContext where
  "create_compile_context = \<lparr>stmt_scope_context = Map.empty, label_stmt_map = Map.empty\<rparr>"

abbreviation null_deref :: "'a result" where
  "null_deref \<equiv> Inl (Invalid_access ''NULL'')"

lemma label_key_simps [simp]:
  "label_key (User_label s) = User_label (name_key s)"
  "label_key (LOOP_BEGIN n) = LOOP_BEGIN n" "label_key (LOOP_END n) = LOOP_END n"
  "label_key (CATCH_BEGIN n) = CATCH_BEGIN n" "label_key (CATCH_END n) = CATCH_END n"
  "label_key (ELSE_BEGIN n) = ELSE_BEGIN n" "label_key (ELSE_END n) = ELSE_END n"
  "label_key END_OF_PROC = END_OF_PROC"
  by (simp_all add: label_key_def)

lemma name_key_idem [simp]: "name_key (name_key s) = name_key s"
  by (simp add: name_key_def)

end
