(* ===== verification/Analyzer.thy ===== *)
theory Analyzer
  imports Tsql_Ast
begin

text \<open>
  The static checks on a T-SQL procedure, \<^verbatim>\<open>analyzer.c\<close>, as the walk of
  \<^verbatim>\<open>stmt_walker.c\<close> that runs its actions. The walk saves the scope of every GOTO, label,
  loop, BREAK, CONTINUE and RETURN for the code generator, collects the labels and the GOTO
  statements, and rejects a GOTO into a loop or a TRY...CATCH block. The main result says
  which procedures are accepted, in terms of the tree alone, and what the tables hold then.
\<close>

section \<open>The walk\<close>

record AnalyzerContext =
  trycatch_info_stack :: "TryCatchInfo list"
  loop_stack :: "nat list"
  gotos :: "(node \<times> string) list"
  cmpl_ctx :: CompileContext

definition make_analyzer_context :: "CompileContext \<Rightarrow> AnalyzerContext" where
  "make_analyzer_context cc =
     \<lparr>trycatch_info_stack = [], loop_stack = [], gotos = [], cmpl_ctx = cc\<rparr>"

definition save_scope :: "node \<Rightarrow> AnalyzerContext \<Rightarrow> AnalyzerContext" where
  "save_scope n ctx =
     ctx\<lparr>cmpl_ctx := (cmpl_ctx ctx)
       \<lparr>stmt_scope_context := (stmt_scope_context (cmpl_ctx ctx))
          (addr n \<mapsto> \<lparr>nesting_trycatch_infos = trycatch_info_stack ctx,
                      nesting_loops = loop_stack ctx\<rparr>)\<rparr>\<rparr>"

definition analyzer_goto_act :: "node \<Rightarrow> string \<Rightarrow> AnalyzerContext \<Rightarrow> AnalyzerContext" where
  "analyzer_goto_act n target_label ctx =
     (let ctx = save_scope n ctx in ctx\<lparr>gotos := gotos ctx @ [(n, target_label)]\<rparr>)"

definition analyzer_label_act ::
  "node \<Rightarrow> string \<Rightarrow> AnalyzerContext \<Rightarrow> AnalyzerContext result" where
  "analyzer_label_act n label ctx =
     (case label_stmt_map (cmpl_ctx ctx) (name_key label) of
        Some _ \<Rightarrow> ereport ERRCODE_FEATURE_NOT_SUPPORTED
          ''Label %s not unique wihtin one procedure in line %d, previous defined in line %d''
      | None \<Rightarrow> Inr (save_scope n (ctx\<lparr>cmpl_ctx := (cmpl_ctx ctx)
          \<lparr>label_stmt_map := (label_stmt_map (cmpl_ctx ctx))(name_key label \<mapsto> n)\<rparr>\<rparr>)))"

definition analyzer_exit_act ::
  "node \<Rightarrow> bool \<Rightarrow> AnalyzerContext \<Rightarrow> AnalyzerContext result" where
  "analyzer_exit_act n is_exit ctx =
     (if loop_stack ctx = [] then
        (if is_exit
         then ereport ERRCODE_FEATURE_NOT_SUPPORTED
                ''Do not support BREAK outside of a WHILE loop, line %d''
         else ereport ERRCODE_FEATURE_NOT_SUPPORTED
                ''Do not support CONTINUE outside of a WHILE loop, line %d'')
      else Inr (save_scope n ctx))"

definition analyzer_return_act :: "node \<Rightarrow> AnalyzerContext \<Rightarrow> AnalyzerContext" where
  "analyzer_return_act n ctx = save_scope n ctx"

text \<open>The steps of the recursive actions before, between and after their children.\<close>

definition enter_loop :: "node \<Rightarrow> AnalyzerContext \<Rightarrow> AnalyzerContext" where
  "enter_loop n ctx = save_scope n (ctx\<lparr>loop_stack := loop_stack ctx @ [addr n]\<rparr>)"

definition leave_loop :: "AnalyzerContext \<Rightarrow> AnalyzerContext" where
  "leave_loop ctx = ctx\<lparr>loop_stack := butlast (loop_stack ctx)\<rparr>"

definition enter_try :: "node \<Rightarrow> AnalyzerContext \<Rightarrow> AnalyzerContext" where
  "enter_try n ctx =
     ctx\<lparr>trycatch_info_stack := trycatch_info_stack ctx @ [TryCatchInfo (addr n) True]\<rparr>"

definition enter_catch :: "AnalyzerContext \<Rightarrow> AnalyzerContext result" where
  "enter_catch ctx =
     (if trycatch_info_stack ctx = [] then null_deref
      else Inr (ctx\<lparr>trycatch_info_stack := butlast (trycatch_info_stack ctx)
             @ [TryCatchInfo (tc_stmt (last (trycatch_info_stack ctx))) False]\<rparr>))"

definition leave_catch :: "AnalyzerContext \<Rightarrow> AnalyzerContext" where
  "leave_catch ctx = ctx\<lparr>trycatch_info_stack := butlast (trycatch_info_stack ctx)\<rparr>"

text \<open>
  \<open>general_walker_func\<close> with the actions of the analyzer. A statement without an action is
  left to \<open>stmt_walker\<close>, which visits the children. Both always return false here, so
  nothing stops the walk but a report.
\<close>

fun analyzer_walk :: "stmt \<Rightarrow> AnalyzerContext \<Rightarrow> AnalyzerContext result"
  and analyzer_walks :: "stmt list \<Rightarrow> AnalyzerContext \<Rightarrow> AnalyzerContext result" where
  "analyzer_walk NULL ctx = Inr ctx"
| "analyzer_walk (Block n ss) ctx = analyzer_walks ss ctx"
| "analyzer_walk (Leaf n ty) ctx =
     (if walker_supports ty then Inr ctx
      else ereport ERRCODE_FEATURE_NOT_SUPPORTED ''Unsupported statment type %d'')"
| "analyzer_walk (Init n ss) ctx = analyzer_walks ss ctx"
| "analyzer_walk (If n e s t) ctx =
     and_then (analyzer_walk s ctx) (\<lambda>ctx. analyzer_walk t ctx)"
| "analyzer_walk (While n e ss) ctx =
     and_then (analyzer_walks ss (enter_loop n ctx)) (\<lambda>ctx. Inr (leave_loop ctx))"
| "analyzer_walk (Exit n b) ctx = analyzer_exit_act n b ctx"
| "analyzer_walk (Return n) ctx = Inr (analyzer_return_act n ctx)"
| "analyzer_walk (Goto n l) ctx = Inr (analyzer_goto_act n l ctx)"
| "analyzer_walk (Label n l) ctx = analyzer_label_act n l ctx"
| "analyzer_walk (Try_catch n s t) ctx =
     and_then (analyzer_walk s (enter_try n ctx)) (\<lambda>ctx.
     and_then (enter_catch ctx) (\<lambda>ctx.
     and_then (analyzer_walk t ctx) (\<lambda>ctx. Inr (leave_catch ctx))))"
| "analyzer_walks [] ctx = Inr ctx"
| "analyzer_walks (s # ss) ctx =
     and_then (analyzer_walk s ctx) (\<lambda>ctx. analyzer_walks ss ctx)"

section \<open>The checks on GOTO\<close>

text \<open>The loop of both checks compares the two stacks element by element.\<close>

fun same_upto_shorter :: "'a list \<Rightarrow> 'a list \<Rightarrow> bool" where
  "same_upto_shorter (x # xs) (y # ys) = (if x \<noteq> y then False else same_upto_shorter xs ys)"
| "same_upto_shorter _ _ = True"

definition check_goto_try_catch :: "TryCatchInfo list \<Rightarrow> TryCatchInfo list \<Rightarrow> bool" where
  "check_goto_try_catch src_stack dest_stack =
     (if length src_stack < length dest_stack then False
      else same_upto_shorter src_stack dest_stack)"

definition check_goto_loop :: "nat list \<Rightarrow> nat list \<Rightarrow> bool" where
  "check_goto_loop src_stack dest_stack =
     (if length src_stack < length dest_stack then False
      else same_upto_shorter src_stack dest_stack)"

definition check_one_goto :: "CompileContext \<Rightarrow> node \<times> string \<Rightarrow> unit result" where
  "check_one_goto cc g =
     (case label_stmt_map cc (name_key (snd g)) of
        None \<Rightarrow> ereport ERRCODE_FEATURE_NOT_SUPPORTED ''GOTO target Label %s not defined''
      | Some label \<Rightarrow>
         (case (stmt_scope_context cc (addr (fst g)), stmt_scope_context cc (addr label)) of
            (Some src, Some dest) \<Rightarrow>
              (if \<not> check_goto_try_catch (nesting_trycatch_infos src) (nesting_trycatch_infos dest)
               then ereport ERRCODE_FEATURE_NOT_SUPPORTED
                      ''GOTO into an try catch block not supported, label %s''
               else if \<not> check_goto_loop (nesting_loops src) (nesting_loops dest)
               then ereport ERRCODE_FEATURE_NOT_SUPPORTED
                      ''GOTO into an while loop not supported, label %s''
               else Inr ())
          | _ \<Rightarrow> null_deref))"

fun check_unsupported_goto :: "CompileContext \<Rightarrow> (node \<times> string) list \<Rightarrow> unit result" where
  "check_unsupported_goto cc [] = Inr ()"
| "check_unsupported_goto cc (g # gs) =
     and_then (check_one_goto cc g) (\<lambda>_. check_unsupported_goto cc gs)"

definition analyze :: "PLtsql_function option \<Rightarrow> CompileContext \<Rightarrow> CompileContext result" where
  "analyze func cc =
     (case func of
        None \<Rightarrow> Inr cc
      | Some f \<Rightarrow>
         (if exec_codes f \<noteq> None then Inr cc
          else and_then (analyzer_walks (action f) (make_analyzer_context cc)) (\<lambda>ctx.
               and_then (check_unsupported_goto (cmpl_ctx ctx) (gotos ctx)) (\<lambda>_.
               Inr (cmpl_ctx ctx)))))"

section \<open>What the tree says\<close>

text \<open>
  The nesting of each node: the enclosing TRY...CATCH statements, with the side the node is
  on, and the enclosing loops. A loop is part of its own nesting.
\<close>

type_synonym nesting = "TryCatchInfo list \<times> nat list"

fun nest :: "nesting \<Rightarrow> stmt \<Rightarrow> (nat \<times> nesting) list"
  and nests :: "nesting \<Rightarrow> stmt list \<Rightarrow> (nat \<times> nesting) list" where
  "nest K NULL = []"
| "nest K (Block n ss) = (addr n, K) # nests K ss"
| "nest K (Leaf n ty) = [(addr n, K)]"
| "nest K (Init n ss) = (addr n, K) # nests K ss"
| "nest K (If n e s t) = (addr n, K) # nest K s @ nest K t"
| "nest K (While n e ss) =
     (let K' = (fst K, snd K @ [addr n]) in (addr n, K') # nests K' ss)"
| "nest K (Exit n b) = [(addr n, K)]"
| "nest K (Return n) = [(addr n, K)]"
| "nest K (Goto n l) = [(addr n, K)]"
| "nest K (Label n l) = [(addr n, K)]"
| "nest K (Try_catch n s t) =
     (addr n, K) # nest (fst K @ [TryCatchInfo (addr n) True], snd K) s
       @ nest (fst K @ [TryCatchInfo (addr n) False], snd K) t"
| "nests K [] = []"
| "nests K (s # ss) = nest K s @ nests K ss"

text \<open>The labels a tree defines, by their key, and the GOTO statements in it.\<close>

fun labels_of :: "stmt \<Rightarrow> (string \<times> node) list"
  and labelss_of :: "stmt list \<Rightarrow> (string \<times> node) list" where
  "labels_of (Block n ss) = labelss_of ss"
| "labels_of (Init n ss) = labelss_of ss"
| "labels_of (If n e s t) = labels_of s @ labels_of t"
| "labels_of (While n e ss) = labelss_of ss"
| "labels_of (Label n l) = [(name_key l, n)]"
| "labels_of (Try_catch n s t) = labels_of s @ labels_of t"
| "labels_of _ = []"
| "labelss_of [] = []"
| "labelss_of (s # ss) = labels_of s @ labelss_of ss"

fun gotos_of :: "stmt \<Rightarrow> (node \<times> string) list"
  and gotoss_of :: "stmt list \<Rightarrow> (node \<times> string) list" where
  "gotos_of (Block n ss) = gotoss_of ss"
| "gotos_of (Init n ss) = gotoss_of ss"
| "gotos_of (If n e s t) = gotos_of s @ gotos_of t"
| "gotos_of (While n e ss) = gotoss_of ss"
| "gotos_of (Goto n l) = [(n, l)]"
| "gotos_of (Try_catch n s t) = gotos_of s @ gotos_of t"
| "gotos_of _ = []"
| "gotoss_of [] = []"
| "gotoss_of (s # ss) = gotos_of s @ gotoss_of ss"

text \<open>All statement types are supported, and BREAK and CONTINUE are inside of a loop.\<close>

fun checked :: "bool \<Rightarrow> stmt \<Rightarrow> bool"
  and checkeds :: "bool \<Rightarrow> stmt list \<Rightarrow> bool" where
  "checked in_loop (Block n ss) = checkeds in_loop ss"
| "checked in_loop (Leaf n ty) = walker_supports ty"
| "checked in_loop (Init n ss) = checkeds in_loop ss"
| "checked in_loop (If n e s t) = (checked in_loop s \<and> checked in_loop t)"
| "checked in_loop (While n e ss) = checkeds True ss"
| "checked in_loop (Exit n b) = in_loop"
| "checked in_loop (Try_catch n s t) = (checked in_loop s \<and> checked in_loop t)"
| "checked in_loop _ = True"
| "checkeds in_loop [] = True"
| "checkeds in_loop (s # ss) = (checked in_loop s \<and> checkeds in_loop ss)"

text \<open>
  A GOTO is allowed when its label exists and everything that encloses the label also
  encloses the GOTO: it may leave loops and TRY...CATCH blocks, but not enter one.
\<close>

definition goto_allowed :: "stmt list \<Rightarrow> node \<times> string \<Rightarrow> bool" where
  "goto_allowed prog g \<longleftrightarrow>
     (case map_of (labelss_of prog) (name_key (snd g)) of
        None \<Rightarrow> False
      | Some label \<Rightarrow>
         (case (map_of (nests ([], []) prog) (addr (fst g)), map_of (nests ([], []) prog) (addr label)) of
            (Some src, Some dest) \<Rightarrow> prefix (fst dest) (fst src) \<and> prefix (snd dest) (snd src)
          | _ \<Rightarrow> False))"

definition accepted :: "stmt list \<Rightarrow> bool" where
  "accepted prog \<longleftrightarrow>
     checkeds False prog \<and> distinct (map fst (labelss_of prog)) \<and>
     (\<forall>g \<in> set (gotoss_of prog). goto_allowed prog g)"

section \<open>What the walk leaves in the tables\<close>

definition scope_of :: "nesting \<Rightarrow> ScopeContext" where
  "scope_of K = \<lparr>nesting_trycatch_infos = fst K, nesting_loops = snd K\<rparr>"

text \<open>The scopes the walk saves, in its order.\<close>

fun scopes :: "nesting \<Rightarrow> stmt \<Rightarrow> (nat \<times> ScopeContext) list"
  and scopess :: "nesting \<Rightarrow> stmt list \<Rightarrow> (nat \<times> ScopeContext) list" where
  "scopes K (Block n ss) = scopess K ss"
| "scopes K (Init n ss) = scopess K ss"
| "scopes K (If n e s t) = scopes K s @ scopes K t"
| "scopes K (While n e ss) =
     (let K' = (fst K, snd K @ [addr n]) in (addr n, scope_of K') # scopess K' ss)"
| "scopes K (Exit n b) = [(addr n, scope_of K)]"
| "scopes K (Return n) = [(addr n, scope_of K)]"
| "scopes K (Goto n l) = [(addr n, scope_of K)]"
| "scopes K (Label n l) = [(addr n, scope_of K)]"
| "scopes K (Try_catch n s t) =
     scopes (fst K @ [TryCatchInfo (addr n) True], snd K) s
       @ scopes (fst K @ [TryCatchInfo (addr n) False], snd K) t"
| "scopes K _ = []"
| "scopess K [] = []"
| "scopess K (s # ss) = scopes K s @ scopess K ss"

definition ctx_nesting :: "AnalyzerContext \<Rightarrow> nesting" where
  "ctx_nesting ctx = (trycatch_info_stack ctx, loop_stack ctx)"

text \<open>The effect of a walk that collects these scopes, labels and GOTO statements.\<close>

definition collect ::
  "(nat \<times> ScopeContext) list \<Rightarrow> (string \<times> node) list \<Rightarrow> (node \<times> string) list \<Rightarrow>
     AnalyzerContext \<Rightarrow> AnalyzerContext" where
  "collect sc lb gt ctx =
     ctx\<lparr>gotos := gotos ctx @ gt,
         cmpl_ctx := \<lparr>stmt_scope_context = stmt_scope_context (cmpl_ctx ctx) ++ map_of (rev sc),
                      label_stmt_map = label_stmt_map (cmpl_ctx ctx) ++ map_of (rev lb)\<rparr>\<rparr>"

lemma collect_simps [simp]:
  "loop_stack (collect sc lb gt ctx) = loop_stack ctx"
  "trycatch_info_stack (collect sc lb gt ctx) = trycatch_info_stack ctx"
  "gotos (collect sc lb gt ctx) = gotos ctx @ gt"
  "stmt_scope_context (cmpl_ctx (collect sc lb gt ctx))
     = stmt_scope_context (cmpl_ctx ctx) ++ map_of (rev sc)"
  "label_stmt_map (cmpl_ctx (collect sc lb gt ctx))
     = label_stmt_map (cmpl_ctx ctx) ++ map_of (rev lb)"
  "ctx_nesting (collect sc lb gt ctx) = ctx_nesting ctx"
  "collect [] [] [] ctx = ctx"
  "collect sc' lb' gt' (collect sc lb gt ctx) = collect (sc @ sc') (lb @ lb') (gt @ gt') ctx"
  by (simp_all add: collect_def ctx_nesting_def)

lemma save_scope_collect: "save_scope n ctx = collect [(addr n, scope_of (ctx_nesting ctx))] [] [] ctx"
  by (simp add: save_scope_def collect_def scope_of_def ctx_nesting_def)

lemmas act_defs = analyzer_goto_act_def analyzer_label_act_def analyzer_exit_act_def
  analyzer_return_act_def enter_loop_def leave_loop_def enter_try_def enter_catch_def
  leave_catch_def Let_def

definition fresh_labels :: "(string \<times> node) list \<Rightarrow> AnalyzerContext \<Rightarrow> bool" where
  "fresh_labels lb ctx \<longleftrightarrow> distinct (map fst lb) \<and>
     (\<forall>k \<in> set (map fst lb). label_stmt_map (cmpl_ctx ctx) k = None)"

lemma fresh_labels_Nil [simp]: "fresh_labels [] ctx"
  by (simp add: fresh_labels_def)

lemma fresh_labels_append:
  "fresh_labels (lb @ lb') ctx \<longleftrightarrow>
     fresh_labels lb ctx \<and> fresh_labels lb' (collect sc lb gt ctx)"
  by (auto simp: fresh_labels_def map_add_def map_of_eq_None_iff split: option.splits)
     (force simp: map_of_eq_None_iff dest: map_of_SomeD)+

lemma enter_loop_collect:
  "enter_loop n ctx =
     collect [(addr n, scope_of (fst (ctx_nesting ctx), snd (ctx_nesting ctx) @ [addr n]))] [] []
       (ctx\<lparr>loop_stack := loop_stack ctx @ [addr n]\<rparr>)"
  by (simp add: enter_loop_def save_scope_collect ctx_nesting_def)

lemma leave_loop_collect [simp]:
  "leave_loop (collect sc lb gt (ctx\<lparr>loop_stack := loop_stack ctx @ [a]\<rparr>)) = collect sc lb gt ctx"
  by (simp add: leave_loop_def collect_def)

lemma try_catch_collect [simp]:
  "enter_catch (collect sc lb gt (enter_try n ctx)) =
     Inr (collect sc lb gt
       (ctx\<lparr>trycatch_info_stack := trycatch_info_stack ctx @ [TryCatchInfo (addr n) False]\<rparr>))"
  "leave_catch (collect sc lb gt (ctx\<lparr>trycatch_info_stack := trycatch_info_stack ctx @ [i]\<rparr>))
     = collect sc lb gt ctx"
  by (simp_all add: enter_catch_def enter_try_def leave_catch_def collect_def)

lemma nesting_simps [simp]:
  "ctx_nesting (ctx\<lparr>loop_stack := ls\<rparr>) = (fst (ctx_nesting ctx), ls)"
  "ctx_nesting (ctx\<lparr>trycatch_info_stack := ts\<rparr>) = (ts, snd (ctx_nesting ctx))"
  "fst (ctx_nesting ctx) = trycatch_info_stack ctx"
  "snd (ctx_nesting ctx) = loop_stack ctx"
  "ctx_nesting (enter_try n ctx) =
     (trycatch_info_stack ctx @ [TryCatchInfo (addr n) True], loop_stack ctx)"
  "loop_stack (enter_try n ctx) = loop_stack ctx"
  by (simp_all add: ctx_nesting_def enter_try_def)

lemma fresh_labels_simps [simp]:
  "fresh_labels lb (ctx\<lparr>loop_stack := ls\<rparr>) = fresh_labels lb ctx"
  "fresh_labels lb (ctx\<lparr>trycatch_info_stack := ts\<rparr>) = fresh_labels lb ctx"
  "fresh_labels lb (enter_try n ctx) = fresh_labels lb ctx"
  "fresh_labels lb (collect sc [] gt ctx) = fresh_labels lb ctx"
  by (simp_all add: fresh_labels_def enter_try_def)

text \<open>The walk succeeds exactly on checked trees with new labels, and collects what it should.\<close>

definition walk_spec ::
  "AnalyzerContext result \<Rightarrow> bool \<Rightarrow> AnalyzerContext \<Rightarrow> bool" where
  "walk_spec r P ctx \<longleftrightarrow> (if P then r = Inr ctx else (\<exists>e. r = Inl e \<and> is_report e))"

lemma walk_spec_and_then:
  assumes "walk_spec r P ctx" and "P \<Longrightarrow> walk_spec (k ctx) Q ctx'"
  shows "walk_spec (and_then r k) (P \<and> Q) ctx'"
  using assms by (auto simp: walk_spec_def split: if_splits)

lemma walk_spec_Inr [simp]: "walk_spec (Inr ctx) True ctx' \<longleftrightarrow> ctx = ctx'"
  by (simp add: walk_spec_def)

lemma walk_spec_seq:
  assumes "walk_spec r (P \<and> fresh_labels lb ctx) (collect sc lb gt ctx)"
    and "r = Inr (collect sc lb gt ctx) \<Longrightarrow>
      walk_spec (k (collect sc lb gt ctx)) (Q \<and> fresh_labels lb' (collect sc lb gt ctx))
        (collect (sc @ sc') (lb @ lb') (gt @ gt') ctx)"
  shows "walk_spec (and_then r k) ((P \<and> Q) \<and> fresh_labels (lb @ lb') ctx)
    (collect (sc @ sc') (lb @ lb') (gt @ gt') ctx)"
proof -
  have "walk_spec (and_then r k)
     ((P \<and> fresh_labels lb ctx) \<and> (Q \<and> fresh_labels lb' (collect sc lb gt ctx)))
     (collect (sc @ sc') (lb @ lb') (gt @ gt') ctx)"
    using assms(1)
  proof (rule walk_spec_and_then)
    assume "P \<and> fresh_labels lb ctx"
    with assms(1) have "r = Inr (collect sc lb gt ctx)"
      by (simp add: walk_spec_def)
    then show "walk_spec (k (collect sc lb gt ctx)) (Q \<and> fresh_labels lb' (collect sc lb gt ctx))
      (collect (sc @ sc') (lb @ lb') (gt @ gt') ctx)"
      by (rule assms(2))
  qed
  then show ?thesis
    by (simp add: walk_spec_def fresh_labels_append [where sc = sc and gt = gt] conj_ac
        cong: conj_cong)
qed

lemma walk_spec_post:
  assumes "walk_spec r P ctx" and "P \<Longrightarrow> k ctx = Inr ctx'"
  shows "walk_spec (and_then r k) P ctx'"
  using assms by (auto simp: walk_spec_def split: if_splits)

lemma analyzer_walk_spec:
  "walk_spec (analyzer_walk s ctx)
     (checked (loop_stack ctx \<noteq> []) s \<and> fresh_labels (labels_of s) ctx)
     (collect (scopes (ctx_nesting ctx) s) (labels_of s) (gotos_of s) ctx)"
  "walk_spec (analyzer_walks ss ctx)
     (checkeds (loop_stack ctx \<noteq> []) ss \<and> fresh_labels (labelss_of ss) ctx)
     (collect (scopess (ctx_nesting ctx) ss) (labelss_of ss) (gotoss_of ss) ctx)"
proof (induction s ctx and ss ctx rule: analyzer_walk_analyzer_walks.induct)
  case (5 n e s t ctx)
  show ?case
    unfolding analyzer_walk.simps checked.simps labels_of.simps scopes.simps gotos_of.simps
    by (rule walk_spec_seq [OF "5.IH"(1)]) (drule "5.IH"(2), simp)
next
  case (6 n e ss ctx)
  show ?case
    using 6 by (auto simp: enter_loop_collect Let_def elim!: walk_spec_post)
next
  case (10 n l ctx)
  show ?case
    by (auto simp: walk_spec_def analyzer_label_act_def save_scope_collect fresh_labels_def
        collect_def ctx_nesting_def split: option.splits)
next
  case (11 n s t ctx)
  let ?ctx' = "ctx\<lparr>trycatch_info_stack := trycatch_info_stack ctx @ [TryCatchInfo (addr n) False]\<rparr>"
  let ?sc = "scopes (trycatch_info_stack ctx @ [TryCatchInfo (addr n) True], loop_stack ctx) s"
  note s = "11.IH"(1)
  show ?case
  proof (cases "checked (loop_stack ctx \<noteq> []) s \<and> fresh_labels (labels_of s) ctx")
    case True
    with s have walk: "analyzer_walk s (enter_try n ctx) =
        Inr (collect ?sc (labels_of s) (gotos_of s) (enter_try n ctx))"
      by (simp add: walk_spec_def)
    note t = "11.IH"(2) [OF walk try_catch_collect(1)]
    have "fresh_labels (labels_of t) (collect ?sc (labels_of s) (gotos_of s) ?ctx')
        \<longleftrightarrow> fresh_labels (labels_of s @ labels_of t) ctx"
      using True fresh_labels_append [of "labels_of s" "labels_of t" ?ctx' ?sc "gotos_of s"] by simp
    with t True show ?thesis
      by (auto simp: walk walk_spec_def)
  next
    case False
    with s show ?thesis
      by (auto simp: walk_spec_def fresh_labels_append [of _ _ _ ?sc "gotos_of s"])
  qed
next
  case (13 s ss ctx)
  show ?case
    unfolding analyzer_walks.simps checkeds.simps labelss_of.simps scopess.simps gotoss_of.simps
    by (rule walk_spec_seq [OF "13.IH"(1)]) (drule "13.IH"(2), simp)
qed (auto simp: walk_spec_def act_defs save_scope_collect)

section \<open>Tables and tree agree\<close>

lemma nest_addrs:
  "map fst (nest K s) = addrs s"
  "map fst (nests K ss) = concat (map addrs ss)"
  by (induction K s and K ss rule: nest_nests.induct) (auto simp: Let_def)

lemma scopes_nest:
  "set (scopes K s) \<subseteq> (\<lambda>(a, K'). (a, scope_of K')) ` set (nest K s)"
  "set (scopess K ss) \<subseteq> (\<lambda>(a, K'). (a, scope_of K')) ` set (nests K ss)"
  by (induction K s and K ss rule: scopes_scopess.induct) (auto simp: Let_def)

lemma scopes_addrs:
  "fst ` set (scopes K s) \<subseteq> set (addrs s)"
  "fst ` set (scopess K ss) \<subseteq> set (concat (map addrs ss))"
  by (induction K s and K ss rule: scopes_scopess.induct) (auto simp: Let_def)

lemma scopes_distinct:
  "distinct (addrs s) \<Longrightarrow> distinct (map fst (scopes K s))"
  "distinct (concat (map addrs ss)) \<Longrightarrow> distinct (map fst (scopess K ss))"
proof (induction K s and K ss rule: scopes_scopess.induct)
  case (3 K n e s t)
  then show ?case using scopes_addrs(1) [of K s] scopes_addrs(1) [of K t] by fastforce
next
  case (4 K n e ss)
  then show ?case
    using scopes_addrs(2) [of "(fst K, snd K @ [addr n])" ss] by (auto simp: Let_def)
next
  case (9 K n s t)
  then show ?case
    using scopes_addrs(1) [of "(fst K @ [TryCatchInfo (addr n) True], snd K)" s]
      scopes_addrs(1) [of "(fst K @ [TryCatchInfo (addr n) False], snd K)" t] by fastforce
next
  case (12 K s ss)
  then show ?case
    using scopes_addrs(1) [of K s] scopes_addrs(2) [of K ss] by fastforce
qed auto

lemma goto_scopes:
  "(n, l) \<in> set (gotos_of s) \<Longrightarrow> addr n \<in> fst ` set (scopes K s)"
  "(n, l) \<in> set (gotoss_of ss) \<Longrightarrow> addr n \<in> fst ` set (scopess K ss)"
  by (induction K s and K ss rule: scopes_scopess.induct) (auto simp: Let_def image_Un)

lemma label_scopes:
  "(k, n) \<in> set (labels_of s) \<Longrightarrow> addr n \<in> fst ` set (scopes K s)"
  "(k, n) \<in> set (labelss_of ss) \<Longrightarrow> addr n \<in> fst ` set (scopess K ss)"
  by (induction K s and K ss rule: scopes_scopess.induct) (auto simp: Let_def image_Un)

text \<open>The tables of an accepted procedure.\<close>

definition tables :: "stmt list \<Rightarrow> CompileContext" where
  "tables prog = \<lparr>stmt_scope_context = map_of (scopess ([], []) prog),
                  label_stmt_map = map_of (labelss_of prog)\<rparr>"

lemma map_of_rev_distinct: "distinct (map fst xs) \<Longrightarrow> map_of (rev xs) = map_of xs"
  by (subst map_of_inject_set) (simp_all flip: rev_map)

text \<open>A saved scope is the nesting of its node.\<close>

lemma tables_scope:
  assumes "distinct (concat (map addrs prog))" and "a \<in> fst ` set (scopess ([], []) prog)"
  obtains K where "stmt_scope_context (tables prog) a = Some (scope_of K)"
    and "map_of (nests ([], []) prog) a = Some K"
proof -
  have d: "distinct (map fst (nests ([], []) prog))"
    using assms(1) by (simp add: nest_addrs)
  obtain sc where sc: "map_of (scopess ([], []) prog) a = Some sc"
    using assms(2) by (cases "map_of (scopess ([], []) prog) a") (auto simp: map_of_eq_None_iff)
  with scopes_nest(2) [of "([], [])" prog] obtain K where
    "(a, K) \<in> set (nests ([], []) prog)" "sc = scope_of K"
    by (auto dest!: map_of_SomeD)
  with that [of K] sc d show ?thesis
    by (simp add: tables_def)
qed

lemma same_upto_shorter_prefix:
  "length ys \<le> length xs \<Longrightarrow> same_upto_shorter xs ys \<longleftrightarrow> prefix ys xs"
  by (induction xs ys rule: same_upto_shorter.induct) auto

lemma check_prefix:
  "check_goto_try_catch src dest \<longleftrightarrow> prefix dest src"
  "check_goto_loop src' dest' \<longleftrightarrow> prefix dest' src'"
  using prefix_length_le [of dest src] prefix_length_le [of dest' src']
  by (auto simp: check_goto_try_catch_def check_goto_loop_def same_upto_shorter_prefix)

lemma check_one_goto_spec:
  assumes "distinct (concat (map addrs prog))" and "g \<in> set (gotoss_of prog)"
  shows "if goto_allowed prog g then check_one_goto (tables prog) g = Inr ()
         else \<exists>e. check_one_goto (tables prog) g = Inl e \<and> is_report e"
proof (cases "map_of (labelss_of prog) (name_key (snd g))")
  case None
  then show ?thesis
    by (simp add: check_one_goto_def goto_allowed_def tables_def)
next
  case (Some label)
  have "addr (fst g) \<in> fst ` set (scopess ([], []) prog)"
    using assms(2) goto_scopes(2) [of "fst g" "snd g"] by simp
  then obtain K where K: "stmt_scope_context (tables prog) (addr (fst g)) = Some (scope_of K)"
    "map_of (nests ([], []) prog) (addr (fst g)) = Some K"
    by (rule tables_scope [OF assms(1)])
  have "addr label \<in> fst ` set (scopess ([], []) prog)"
    using Some by (auto dest!: map_of_SomeD intro: label_scopes(2))
  then obtain K' where K': "stmt_scope_context (tables prog) (addr label) = Some (scope_of K')"
    "map_of (nests ([], []) prog) (addr label) = Some K'"
    by (rule tables_scope [OF assms(1)])
  have "label_stmt_map (tables prog) (name_key (snd g)) = Some label"
    using Some by (simp add: tables_def)
  with Some K K' show ?thesis
    by (simp add: check_one_goto_def goto_allowed_def check_prefix scope_of_def)
qed

lemma check_unsupported_goto_spec:
  assumes "distinct (concat (map addrs prog))" and "set gs \<subseteq> set (gotoss_of prog)"
  shows "if \<forall>g \<in> set gs. goto_allowed prog g then check_unsupported_goto (tables prog) gs = Inr ()
         else \<exists>e. check_unsupported_goto (tables prog) gs = Inl e \<and> is_report e"
  using assms(2)
proof (induction gs)
  case (Cons g gs)
  then show ?case
    using check_one_goto_spec [OF assms(1), of g] by (auto split: if_splits)
qed simp

lemma walk_collects_tables:
  assumes "distinct (concat (map addrs prog))" and "distinct (map fst (labelss_of prog))"
  shows "cmpl_ctx (collect (scopess ([], []) prog) (labelss_of prog) gt
           (make_analyzer_context create_compile_context)) = tables prog"
  using assms by (simp add: collect_def make_analyzer_context_def create_compile_context_def
      tables_def map_of_rev_distinct scopes_distinct)

lemma analyze_spec:
  assumes "distinct (concat (map addrs (action f)))" and "exec_codes f = None"
  shows "if accepted (action f)
         then analyze (Some f) create_compile_context = Inr (tables (action f))
         else \<exists>e. analyze (Some f) create_compile_context = Inl e \<and> is_report e"
proof -
  let ?ctx = "make_analyzer_context create_compile_context"
  have start: "loop_stack ?ctx = []" "ctx_nesting ?ctx = ([], [])" "gotos ?ctx = []"
    "fresh_labels lb ?ctx \<longleftrightarrow> distinct (map fst lb)" for lb
    by (simp_all add: make_analyzer_context_def ctx_nesting_def fresh_labels_def
        create_compile_context_def)
  note walk = analyzer_walk_spec(2) [of "action f" ?ctx, unfolded start, simplified]
  show ?thesis
  proof (cases "checkeds False (action f) \<and> distinct (map fst (labelss_of (action f)))")
    case True
    with walk have "analyzer_walks (action f) ?ctx =
        Inr (collect (scopess ([], []) (action f)) (labelss_of (action f)) (gotoss_of (action f)) ?ctx)"
      by (simp add: walk_spec_def)
    with True check_unsupported_goto_spec [OF assms(1) order_refl] assms(2) show ?thesis
      by (auto simp: analyze_def accepted_def walk_collects_tables [OF assms(1)] start
          split: if_splits)
  next
    case False
    with walk assms(2) show ?thesis
      by (auto simp: analyze_def accepted_def walk_spec_def)
  qed
qed

section \<open>Properties\<close>

text \<open>
  C4. The analyzer accepts a procedure (with distinct node addresses, not compiled yet)
  exactly when all its statement types are supported, its labels are distinct in their
  first 63 characters, every BREAK and CONTINUE is inside of a loop, and every GOTO has a
  label whose enclosing loops and TRY...CATCH blocks, sides included, all enclose the GOTO.
  The tables it leaves are the ones computed from the tree; otherwise it reports an error,
  and it never follows a NULL pointer.
\<close>

theorem analyze_accepts:
  assumes "distinct (concat (map addrs (action f)))" and "exec_codes f = None"
  shows "if accepted (action f)
         then analyze (Some f) create_compile_context = Inr (tables (action f))
         else \<exists>e. analyze (Some f) create_compile_context = Inl e \<and> is_report e"
  by (rule analyze_spec [OF assms])

theorem analyze_accepts_witness:
  "(let prog = [Label (Node 1 1) ''again'',
                Try_catch (Node 2 2)
                  (Block (Node 3 3) [While (Node 4 4) ''c'' [Goto (Node 5 5) ''again'']])
                  (Goto (Node 6 6) ''again'')] in
    analyze (Some \<lparr>action = prog, exec_codes = None, exec_codes_valid = False\<rparr>)
      create_compile_context = Inr (tables prog)) \<and>
   (\<exists>e. analyze (Some \<lparr>action = [Goto (Node 1 1) ''in'',
                Try_catch (Node 2 2) (Label (Node 3 3) ''in'') NULL],
              exec_codes = None, exec_codes_valid = False\<rparr>) create_compile_context = Inl e)"
proof -
  let ?prog = "[Label (Node 1 1) ''again'',
                Try_catch (Node 2 2)
                  (Block (Node 3 3) [While (Node 4 4) ''c'' [Goto (Node 5 5) ''again'']])
                  (Goto (Node 6 6) ''again'')]"
  let ?bad = "[Goto (Node 1 1) ''in'',
                Try_catch (Node 2 2) (Label (Node 3 3) ''in'') NULL]"
  let ?f = "\<lambda>prog. \<lparr>action = prog, exec_codes = None, exec_codes_valid = False\<rparr>"
  have "accepted ?prog" "\<not> accepted ?bad"
    by (simp_all add: accepted_def goto_allowed_def Let_def)
  with analyze_accepts [of "?f ?prog"] analyze_accepts [of "?f ?bad"] show ?thesis
    by (auto simp: Let_def)
qed

end
