(* ===== verification/Codegen.thy ===== *)
theory Codegen
  imports Analyzer
begin

text \<open>
  The code generator for T-SQL procedures, \<^verbatim>\<open>codegen.c\<close>: a walk over the statement tree
  that emits executable nodes and registers labels, followed by the resolution of labels.
  The first part models it. The second part describes its output as an assembly listing
  and types every position of it with the TRY...CATCH blocks that enclose it. The results:
  generation never fails on what the analyzer accepts, and the generated saves and restores
  of error contexts match the block structure on every path.
\<close>

section \<open>The code generator\<close>

record CodegenContext =
  codes :: "instr list"
  label_index :: "label \<rightharpoonup> nat"
  loop_contexts :: "node list"

definition make_codegen_context :: CodegenContext where
  "make_codegen_context = \<lparr>codes = [], label_index = Map.empty, loop_contexts = []\<rparr>"

definition add_stmt :: "instr \<Rightarrow> CodegenContext \<Rightarrow> CodegenContext" where
  "add_stmt i ctx = ctx\<lparr>codes := codes ctx @ [i]\<rparr>"

definition create_goto :: "int \<Rightarrow> expr option \<Rightarrow> label \<Rightarrow> instr" where
  "create_goto ln cond target_label = Exec_goto ln cond target_label (- 1)"

definition create_save_ctx :: "int \<Rightarrow> label \<Rightarrow> instr" where
  "create_save_ctx ln target_label = Exec_save_ctx ln target_label (- 1)"

definition create_restore_ctx_full :: "int \<Rightarrow> instr" where
  "create_restore_ctx_full ln = Exec_restore_ctx_full ln"

definition create_restore_ctx_partial :: "int \<Rightarrow> instr" where
  "create_restore_ctx_partial ln = Exec_restore_ctx_partial ln"

definition create_and_register_label :: "label \<Rightarrow> CodegenContext \<Rightarrow> CodegenContext" where
  "create_and_register_label l ctx =
     ctx\<lparr>label_index := (label_index ctx)(label_key l \<mapsto> length (codes ctx))\<rparr>"

text \<open>The loop that emits one restore per block, from the innermost one down to \<open>dst_depth\<close>.\<close>

fun restore_down ::
  "int \<Rightarrow> TryCatchInfo list \<Rightarrow> nat \<Rightarrow> nat \<Rightarrow> CodegenContext \<Rightarrow> CodegenContext" where
  "restore_down ln infos dst_depth i ctx =
     (if i > dst_depth
      then restore_down ln infos dst_depth (i - 1)
             (add_stmt (if in_try_block (infos ! (i - 1))
                        then create_restore_ctx_full ln
                        else create_restore_ctx_partial ln) ctx)
      else ctx)"

definition cleanup_exception_context ::
  "CompileContext \<Rightarrow> node \<Rightarrow> node \<Rightarrow> CodegenContext \<Rightarrow> CodegenContext result" where
  "cleanup_exception_context cc src dst ctx =
     (case (stmt_scope_context cc (addr src), stmt_scope_context cc (addr dst)) of
        (Some src_scope, Some dst_scope) \<Rightarrow>
          (let src_infos = nesting_trycatch_infos src_scope;
               src_depth = length src_infos;
               dst_depth = length (nesting_trycatch_infos dst_scope)
           in Inr (if src_depth > dst_depth
                   then restore_down (lineno src) src_infos dst_depth src_depth ctx else ctx))
      | _ \<Rightarrow> null_deref)"

definition cleanup_all_exception_context ::
  "CompileContext \<Rightarrow> node \<Rightarrow> CodegenContext \<Rightarrow> CodegenContext result" where
  "cleanup_all_exception_context cc src ctx =
     (case stmt_scope_context cc (addr src) of
        None \<Rightarrow> null_deref
      | Some src_scope \<Rightarrow>
          (let src_infos = nesting_trycatch_infos src_scope
           in Inr (restore_down (lineno src) src_infos 0 (length src_infos) ctx)))"

text \<open>The leaf types \<open>stmt_default_act\<close> emits.\<close>

definition codegen_supports :: "leaf_type \<Rightarrow> bool" where
  "codegen_supports ty \<longleftrightarrow> ty \<in> {
      PLTSQL_STMT_ASSIGN, PLTSQL_STMT_RETURN_QUERY, PLTSQL_STMT_EXECSQL, PLTSQL_STMT_OPEN
     , PLTSQL_STMT_FETCH, PLTSQL_STMT_CLOSE, PLTSQL_STMT_COMMIT, PLTSQL_STMT_ROLLBACK
     , PLTSQL_STMT_PRINT, PLTSQL_STMT_KILL, PLTSQL_STMT_QUERY_SET
     , PLTSQL_STMT_PUSH_RESULT, PLTSQL_STMT_EXEC, PLTSQL_STMT_EXEC_BATCH
     , PLTSQL_STMT_EXEC_SP, PLTSQL_STMT_DECL_TABLE, PLTSQL_STMT_RETURN_TABLE
     , PLTSQL_STMT_DEALLOCATE, PLTSQL_STMT_DECL_CURSOR, PLTSQL_STMT_RAISERROR
     , PLTSQL_STMT_THROW, PLTSQL_STMT_USEDB, PLTSQL_STMT_GRANTDB
     , PLTSQL_STMT_CHANGE_DBOWNER, PLTSQL_STMT_FULLTEXTINDEX, PLTSQL_STMT_GRANTSCHEMA
     , PLTSQL_STMT_PARTITION_FUNCTION, PLTSQL_STMT_PARTITION_SCHEME
     , PLTSQL_STMT_INSERT_BULK, PLTSQL_STMT_DBCC, PLTSQL_STMT_SET_EXPLAIN_MODE
     , PLTSQL_STMT_ALTER_DB}"

definition stmt_default_act ::
  "node \<Rightarrow> leaf_type \<Rightarrow> CodegenContext \<Rightarrow> CodegenContext result" where
  "stmt_default_act n ty ctx =
     (if codegen_supports ty then Inr (add_stmt (Exec n ty) ctx)
      else ereport ERRCODE_FEATURE_NOT_SUPPORTED ''Unsupported statment type %d in codegen'')"

definition stmt_label_act :: "string \<Rightarrow> CodegenContext \<Rightarrow> CodegenContext" where
  "stmt_label_act label ctx = create_and_register_label (User_label label) ctx"

definition stmt_exit_act ::
  "CompileContext \<Rightarrow> node \<Rightarrow> bool \<Rightarrow> CodegenContext \<Rightarrow> CodegenContext result" where
  "stmt_exit_act cc n is_exit ctx =
     (if loop_contexts ctx = [] then null_deref
      else let stmt_while = last (loop_contexts ctx);
               stmt_goto = create_goto (lineno n) None
                 (if is_exit then LOOP_END stmt_while else LOOP_BEGIN stmt_while)
           in and_then (cleanup_exception_context cc n stmt_while ctx) (\<lambda>ctx.
              Inr (add_stmt stmt_goto ctx)))"

definition stmt_return_act ::
  "CompileContext \<Rightarrow> node \<Rightarrow> CodegenContext \<Rightarrow> CodegenContext result" where
  "stmt_return_act cc n ctx =
     (let stmt_goto = create_goto (lineno n) None END_OF_PROC;
          ctx = add_stmt (Exec_return n) ctx
      in and_then (cleanup_all_exception_context cc n ctx) (\<lambda>ctx.
         Inr (add_stmt stmt_goto ctx)))"

definition stmt_goto_act ::
  "CompileContext \<Rightarrow> node \<Rightarrow> string \<Rightarrow> CodegenContext \<Rightarrow> CodegenContext result" where
  "stmt_goto_act cc n target_label ctx =
     (case label_stmt_map cc (name_key target_label) of
        None \<Rightarrow> null_deref
      | Some dest_stmt \<Rightarrow>
          and_then (cleanup_exception_context cc n dest_stmt ctx) (\<lambda>ctx.
          Inr (add_stmt (create_goto (lineno n) None (User_label target_label)) ctx)))"

text \<open>
  \<open>general_walker_func\<close> with the actions of the code generator. A type the walker does
  not know is reported before any action.
\<close>

fun codegen_walk ::
  "CompileContext \<Rightarrow> stmt \<Rightarrow> CodegenContext \<Rightarrow> CodegenContext result"
  and codegen_walks ::
  "CompileContext \<Rightarrow> stmt list \<Rightarrow> CodegenContext \<Rightarrow> CodegenContext result" where
  "codegen_walk cc NULL ctx = Inr ctx"
| "codegen_walk cc (Block n ss) ctx = codegen_walks cc ss ctx"
| "codegen_walk cc (Leaf n ty) ctx =
     (if walker_supports ty then stmt_default_act n ty ctx
      else ereport ERRCODE_FEATURE_NOT_SUPPORTED ''Unsupported statment type %d'')"
| "codegen_walk cc (Init n ss) ctx = codegen_walks cc ss ctx"
| "codegen_walk cc (If n cond then_body else_body) ctx =
     (let goto1 = create_goto (lineno n) (Some cond)
            (if else_body \<noteq> NULL then ELSE_BEGIN n else ELSE_END n)
      in and_then (codegen_walk cc then_body (add_stmt goto1 ctx)) (\<lambda>ctx.
         if else_body \<noteq> NULL then
           and_then (codegen_walk cc else_body
             (create_and_register_label (ELSE_BEGIN n)
               (add_stmt (create_goto (lineno n) None (ELSE_END n)) ctx))) (\<lambda>ctx.
           Inr (create_and_register_label (ELSE_END n) ctx))
         else Inr (create_and_register_label (ELSE_END n) ctx)))"
| "codegen_walk cc (While n cond body) ctx =
     (let ctx = ctx\<lparr>loop_contexts := loop_contexts ctx @ [n]\<rparr>;
          ctx = create_and_register_label (LOOP_BEGIN n) ctx;
          ctx = add_stmt (create_goto (lineno n) (Some cond) (LOOP_END n)) ctx
      in and_then (codegen_walks cc body ctx) (\<lambda>ctx.
         let ctx = add_stmt (create_goto (lineno n) None (LOOP_BEGIN n)) ctx;
             ctx = create_and_register_label (LOOP_END n) ctx
         in Inr (ctx\<lparr>loop_contexts := butlast (loop_contexts ctx)\<rparr>)))"
| "codegen_walk cc (Exit n is_exit) ctx = stmt_exit_act cc n is_exit ctx"
| "codegen_walk cc (Return n) ctx = stmt_return_act cc n ctx"
| "codegen_walk cc (Goto n target_label) ctx = stmt_goto_act cc n target_label ctx"
| "codegen_walk cc (Label n label) ctx = Inr (stmt_label_act label ctx)"
| "codegen_walk cc (Try_catch n body handler) ctx =
     and_then (codegen_walk cc body
       (add_stmt (create_save_ctx (lineno n) (CATCH_BEGIN n)) ctx)) (\<lambda>ctx.
     let ctx = add_stmt (create_restore_ctx_full (lineno n)) ctx;
         ctx = add_stmt (create_goto (lineno n) None (CATCH_END n)) ctx;
         ctx = create_and_register_label (CATCH_BEGIN n) ctx
     in and_then (codegen_walk cc handler ctx) (\<lambda>ctx.
        let ctx = add_stmt (create_restore_ctx_partial (lineno n)) ctx
        in Inr (create_and_register_label (CATCH_END n) ctx)))"
| "codegen_walks cc [] ctx = Inr ctx"
| "codegen_walks cc (s # ss) ctx =
     and_then (codegen_walk cc s ctx) (\<lambda>ctx. codegen_walks cc ss ctx)"

definition get_label_index :: "CodegenContext \<Rightarrow> label \<Rightarrow> int result" where
  "get_label_index ctx label =
     (case label_index ctx (label_key label) of
        None \<Rightarrow> ereport ERRCODE_FEATURE_NOT_SUPPORTED ''Label NOT found  %s''
      | Some pc \<Rightarrow> Inr (to_int32 (int pc)))"

definition resolve_label :: "CodegenContext \<Rightarrow> instr \<Rightarrow> instr result" where
  "resolve_label ctx i =
     (case i of
        Exec_goto ln cond target_label _ \<Rightarrow>
          and_then (get_label_index ctx target_label) (\<lambda>pc. Inr (Exec_goto ln cond target_label pc))
      | Exec_save_ctx ln target_label _ \<Rightarrow>
          and_then (get_label_index ctx target_label) (\<lambda>pc. Inr (Exec_save_ctx ln target_label pc))
      | _ \<Rightarrow> Inr i)"

fun resolve_labels :: "CodegenContext \<Rightarrow> instr list \<Rightarrow> instr list result" where
  "resolve_labels ctx [] = Inr []"
| "resolve_labels ctx (i # is) =
     and_then (resolve_label ctx i) (\<lambda>i'.
     and_then (resolve_labels ctx is) (\<lambda>is'. Inr (i' # is')))"

text \<open>What \<open>gen_exec_code\<close> runs under its PG_TRY.\<close>

definition generate :: "CompileContext \<Rightarrow> stmt list \<Rightarrow> instr list result" where
  "generate cc prog =
     and_then (codegen_walks cc prog make_codegen_context) (\<lambda>ctx.
     let ctx = create_and_register_label END_OF_PROC ctx
     in resolve_labels ctx (codes ctx))"

definition gen_exec_code ::
  "PLtsql_function option \<Rightarrow> CompileContext \<Rightarrow> PLtsql_function option \<times> pg_error option" where
  "gen_exec_code func cc =
     (case func of
        None \<Rightarrow> (None, None)
      | Some f \<Rightarrow>
         (if exec_codes f \<noteq> None then (Some f, None)
          else case generate cc (action f) of
                 Inl e \<Rightarrow> (Some (f\<lparr>exec_codes_valid := False\<rparr>), Some e)
               | Inr cs \<Rightarrow> (Some (f\<lparr>exec_codes_valid := True, exec_codes := Some cs\<rparr>), None)))"

section \<open>The assembly listing\<close>

text \<open>
  A listing is a list of instructions and label definitions. Each label carries the
  TRY...CATCH blocks that enclose it; \<open>asm\<close> lists the code of a statement that is enclosed
  by the blocks \<open>T\<close>, with the innermost loop and its blocks in \<open>W\<close> and the blocks of the
  user labels in \<open>U\<close>.
\<close>

type_synonym blocks = "TryCatchInfo list"

datatype item = Lab label blocks | Ins instr

definition restores :: "int \<Rightarrow> blocks \<Rightarrow> nat \<Rightarrow> instr list" where
  "restores ln T d =
     map (\<lambda>info. if in_try_block info then Exec_restore_ctx_full ln
                 else Exec_restore_ctx_partial ln) (rev (drop d T))"

fun asm :: "(string \<Rightarrow> blocks) \<Rightarrow> blocks \<Rightarrow> (node \<times> blocks) option \<Rightarrow> stmt \<Rightarrow> item list"
  and asms :: "(string \<Rightarrow> blocks) \<Rightarrow> blocks \<Rightarrow> (node \<times> blocks) option \<Rightarrow> stmt list \<Rightarrow> item list" where
  "asm U T W NULL = []"
| "asm U T W (Block n ss) = asms U T W ss"
| "asm U T W (Leaf n ty) = [Ins (Exec n ty)]"
| "asm U T W (Init n ss) = asms U T W ss"
| "asm U T W (If n e s t) =
     Ins (create_goto (lineno n) (Some e) (if t \<noteq> NULL then ELSE_BEGIN n else ELSE_END n))
       # asm U T W s
       @ (if t \<noteq> NULL
          then [Ins (create_goto (lineno n) None (ELSE_END n)), Lab (ELSE_BEGIN n) T] @ asm U T W t
          else [])
       @ [Lab (ELSE_END n) T]"
| "asm U T W (While n e ss) =
     [Lab (LOOP_BEGIN n) T, Ins (create_goto (lineno n) (Some e) (LOOP_END n))]
       @ asms U T (Some (n, T)) ss
       @ [Ins (create_goto (lineno n) None (LOOP_BEGIN n)), Lab (LOOP_END n) T]"
| "asm U T W (Exit n b) =
     (case W of
        None \<Rightarrow> []
      | Some (w, Tw) \<Rightarrow>
          map Ins (restores (lineno n) T (length Tw)
            @ [create_goto (lineno n) None (if b then LOOP_END w else LOOP_BEGIN w)]))"
| "asm U T W (Return n) =
     map Ins (Exec_return n # restores (lineno n) T 0 @ [create_goto (lineno n) None END_OF_PROC])"
| "asm U T W (Goto n l) =
     map Ins (restores (lineno n) T (length (U (name_key l)))
       @ [create_goto (lineno n) None (User_label l)])"
| "asm U T W (Label n l) = [Lab (User_label (name_key l)) T]"
| "asm U T W (Try_catch n s t) =
     Ins (create_save_ctx (lineno n) (CATCH_BEGIN n))
       # asm U (T @ [TryCatchInfo (addr n) True]) W s
       @ [Ins (Exec_restore_ctx_full (lineno n)),
          Ins (create_goto (lineno n) None (CATCH_END n)),
          Lab (CATCH_BEGIN n) (T @ [TryCatchInfo (addr n) False])]
       @ asm U (T @ [TryCatchInfo (addr n) False]) W t
       @ [Ins (Exec_restore_ctx_partial (lineno n)), Lab (CATCH_END n) T]"
| "asms U T W [] = []"
| "asms U T W (s # ss) = asm U T W s @ asms U T W ss"

text \<open>Emitting a listing.\<close>

fun emit :: "item list \<Rightarrow> CodegenContext \<Rightarrow> CodegenContext" where
  "emit [] ctx = ctx"
| "emit (Lab l T # is) ctx = emit is (create_and_register_label l ctx)"
| "emit (Ins i # is) ctx = emit is (add_stmt i ctx)"

lemma emit_append: "emit (xs @ ys) ctx = emit ys (emit xs ctx)"
  by (induction xs ctx rule: emit.induct) simp_all

lemma emit_loops [simp]: "loop_contexts (emit is ctx) = loop_contexts ctx"
  by (induction "is" ctx rule: emit.induct) (simp_all add: create_and_register_label_def add_stmt_def)

lemma loop_update_commute:
  "add_stmt i (ctx\<lparr>loop_contexts := ls\<rparr>) = add_stmt i ctx\<lparr>loop_contexts := ls\<rparr>"
  "create_and_register_label l (ctx\<lparr>loop_contexts := ls\<rparr>)
     = create_and_register_label l ctx\<lparr>loop_contexts := ls\<rparr>"
  by (cases ctx; simp add: add_stmt_def create_and_register_label_def)+

lemma loop_update_id: "loop_contexts ctx = ls \<Longrightarrow> ctx\<lparr>loop_contexts := ls\<rparr> = ctx"
  by (cases ctx) simp

lemma loop_contexts_simps [simp]:
  "loop_contexts (add_stmt i ctx) = loop_contexts ctx"
  "loop_contexts (create_and_register_label l ctx) = loop_contexts ctx"
  by (simp_all add: add_stmt_def create_and_register_label_def)

lemma emit_loop_update [simp]:
  "emit is (ctx\<lparr>loop_contexts := ls\<rparr>) = emit is ctx\<lparr>loop_contexts := ls\<rparr>"
  by (induction "is" ctx rule: emit.induct) (simp_all add: loop_update_commute)

lemma emit_add_stmt: "emit (map Ins is) ctx = ctx\<lparr>codes := codes ctx @ is\<rparr>"
  by (induction "is" arbitrary: ctx) (simp_all add: add_stmt_def)

lemma restores_step:
  assumes "d < i" "i \<le> length T"
  shows "restores ln (take i T) d =
    (if in_try_block (T ! (i - 1)) then Exec_restore_ctx_full ln else Exec_restore_ctx_partial ln)
      # restores ln (take (i - 1) T) d"
proof -
  obtain j where j: "i = Suc j" using assms(1) by (cases i) auto
  then have "take i T = take j T @ [T ! j]"
    using assms(2) by (simp add: take_Suc_conv_app_nth)
  then show ?thesis
    using j assms by (simp add: restores_def drop_take)
qed

lemma restore_down_eq:
  "i \<le> length T \<Longrightarrow>
   restore_down ln T d i ctx = emit (map Ins (restores ln (take i T) d)) ctx"
proof (induction ln T d i ctx rule: restore_down.induct)
  case (1 ln T d i ctx)
  show ?case
  proof (cases "i > d")
    case True
    with 1 show ?thesis
      by (subst restore_down.simps)
         (simp add: restores_step create_restore_ctx_full_def create_restore_ctx_partial_def
           del: restore_down.simps)
  next
    case False
    then show ?thesis
      by (subst restore_down.simps) (simp add: restores_def del: restore_down.simps)
  qed
qed

lemma cleanup_eq:
  assumes "stmt_scope_context cc (addr n) = Some sc" "nesting_trycatch_infos sc = T"
    and "stmt_scope_context cc (addr m) = Some sc'" "nesting_trycatch_infos sc' = T'"
  shows "cleanup_exception_context cc n m ctx =
    Inr (emit (map Ins (restores (lineno n) T (length T'))) ctx)"
  using assms
  by (simp add: cleanup_exception_context_def Let_def restore_down_eq del: restore_down.simps)
     (simp add: restores_def)

lemma cleanup_all_eq:
  assumes "stmt_scope_context cc (addr n) = Some sc" "nesting_trycatch_infos sc = T"
  shows "cleanup_all_exception_context cc n ctx = Inr (emit (map Ins (restores (lineno n) T 0)) ctx)"
  using assms
  by (simp add: cleanup_all_exception_context_def Let_def restore_down_eq del: restore_down.simps)

section \<open>The walk emits the listing\<close>

lemma supports_eq: "codegen_supports ty \<longleftrightarrow> walker_supports ty"
  by (auto simp: codegen_supports_def walker_supports_def)

text \<open>What the walk needs to know of the tables of the analyzer.\<close>

definition loop_known :: "CompileContext \<Rightarrow> (node \<times> blocks) option \<Rightarrow> CodegenContext \<Rightarrow> bool" where
  "loop_known cc W ctx \<longleftrightarrow>
     (case W of
        None \<Rightarrow> True
      | Some (w, Tw) \<Rightarrow>
          loop_contexts ctx \<noteq> [] \<and> last (loop_contexts ctx) = w \<and>
          map_option nesting_trycatch_infos (stmt_scope_context cc (addr w)) = Some Tw)"

definition gotos_known ::
  "CompileContext \<Rightarrow> (string \<Rightarrow> blocks) \<Rightarrow> (node \<times> string) list \<Rightarrow> bool" where
  "gotos_known cc U gs \<longleftrightarrow>
     (\<forall>(n, l) \<in> set gs. \<exists>m. label_stmt_map cc (name_key l) = Some m \<and>
        map_option nesting_trycatch_infos (stmt_scope_context cc (addr m)) = Some (U (name_key l)))"

definition scopes_known :: "CompileContext \<Rightarrow> (nat \<times> ScopeContext) list \<Rightarrow> bool" where
  "scopes_known cc scs \<longleftrightarrow> (\<forall>(a, sc) \<in> set scs. stmt_scope_context cc a = Some sc)"

lemma known_simps [simp]:
  "scopes_known cc [] \<longleftrightarrow> True"
  "scopes_known cc ((a, sc) # scs) \<longleftrightarrow> stmt_scope_context cc a = Some sc \<and> scopes_known cc scs"
  "scopes_known cc (xs @ ys) \<longleftrightarrow> scopes_known cc xs \<and> scopes_known cc ys"
  "gotos_known cc U []"
  "gotos_known cc U (gs @ gs') \<longleftrightarrow> gotos_known cc U gs \<and> gotos_known cc U gs'"
  "loop_known cc None ctx"
  "loop_known cc W (emit is ctx) = loop_known cc W ctx"
  "loop_known cc W (add_stmt i ctx) = loop_known cc W ctx"
  "loop_known cc W (create_and_register_label l ctx) = loop_known cc W ctx"
  by (fastforce simp: scopes_known_def gotos_known_def loop_known_def add_stmt_def
      create_and_register_label_def split: option.splits)+

lemma codegen_walk_emits:
  "checked (W \<noteq> None) s \<Longrightarrow> scopes_known cc (scopes (T, L) s) \<Longrightarrow> gotos_known cc U (gotos_of s) \<Longrightarrow>
     loop_known cc W ctx \<Longrightarrow> codegen_walk cc s ctx = Inr (emit (asm U T W s) ctx)"
  "checkeds (W \<noteq> None) ss \<Longrightarrow> scopes_known cc (scopess (T, L) ss) \<Longrightarrow> gotos_known cc U (gotoss_of ss) \<Longrightarrow>
     loop_known cc W ctx \<Longrightarrow> codegen_walks cc ss ctx = Inr (emit (asms U T W ss) ctx)"
proof (induction U T W s and U T W ss arbitrary: L ctx and L ctx rule: asm_asms.induct)
  case (3 U T W n ty)
  then show ?case by (simp add: stmt_default_act_def supports_eq)
next
  case (5 U T W n e s t)
  show ?case
    using "5.IH"(1) [of L] "5.IH"(2) [of L] "5.prems"
    by (simp add: Let_def emit_append)
next
  case (6 U T W n e ss)
  show ?case
    using "6.IH" [of "L @ [addr n]"] "6.prems"
    by (simp add: Let_def emit_append loop_known_def scope_of_def loop_update_commute
        loop_update_id)
next
  case (7 U T W n b)
  then show ?case
    by (auto simp: stmt_exit_act_def loop_known_def Let_def emit_append cleanup_eq scope_of_def
        split: option.splits)
next
  case (8 U T W n)
  then show ?case
    by (simp add: stmt_return_act_def Let_def cleanup_all_eq scope_of_def emit_append)
next
  case (9 U T W n l)
  then show ?case
    by (auto simp: stmt_goto_act_def gotos_known_def cleanup_eq scope_of_def emit_append)
next
  case (10 U T W n l)
  then show ?case
    by (simp add: stmt_label_act_def create_and_register_label_def)
next
  case (11 U T W n s t)
  show ?case
    using "11.IH"(1) [of L] "11.IH"(2) [of L] "11.prems"
    by (simp add: Let_def emit_append create_restore_ctx_full_def create_restore_ctx_partial_def)
next
  case (13 U T W s ss)
  show ?case
    using "13.IH"(1) [of L] "13.IH"(2) [of L] "13.prems"
    by (simp add: emit_append)
qed simp_all

section \<open>Positions of labels\<close>

fun instrs :: "item list \<Rightarrow> instr list" where
  "instrs [] = []"
| "instrs (Lab l T # is) = instrs is"
| "instrs (Ins i # is) = i # instrs is"

fun positions :: "nat \<Rightarrow> item list \<Rightarrow> (label \<times> nat) list" where
  "positions k [] = []"
| "positions k (Lab l T # is) = (label_key l, k) # positions k is"
| "positions k (Ins i # is) = positions (Suc k) is"

lemma emit_eq:
  "codes (emit is ctx) = codes ctx @ instrs is"
  "label_index (emit is ctx) = label_index ctx ++ map_of (rev (positions (length (codes ctx)) is))"
  by (induction "is" ctx rule: emit.induct) (simp_all add: add_stmt_def create_and_register_label_def)

fun labs :: "item list \<Rightarrow> (label \<times> blocks) list" where
  "labs [] = []"
| "labs (Lab l T # is) = (label_key l, T) # labs is"
| "labs (Ins i # is) = labs is"

lemma labs_append [simp]: "labs (xs @ ys) = labs xs @ labs ys"
  by (induction xs rule: labs.induct) simp_all

lemma labs_map_Ins [simp]: "labs (map Ins is) = []"
  by (induction "is") simp_all

lemma instrs_append [simp]: "instrs (xs @ ys) = instrs xs @ instrs ys"
  by (induction xs rule: instrs.induct) simp_all

lemma instrs_map_Ins [simp]: "instrs (map Ins is) = is"
  by (induction "is") simp_all

lemma positions_labs: "map fst (positions k is) = map fst (labs is)"
  by (induction k "is" rule: positions.induct) simp_all

text \<open>Every label is defined once.\<close>

definition owner :: "label \<Rightarrow> nat option" where
  "owner l = (case l of User_label s \<Rightarrow> None | END_OF_PROC \<Rightarrow> None
     | LOOP_BEGIN n \<Rightarrow> Some (addr n) | LOOP_END n \<Rightarrow> Some (addr n)
     | CATCH_BEGIN n \<Rightarrow> Some (addr n) | CATCH_END n \<Rightarrow> Some (addr n)
     | ELSE_BEGIN n \<Rightarrow> Some (addr n) | ELSE_END n \<Rightarrow> Some (addr n))"

lemma owner_simps [simp]:
  "owner (User_label s) = None" "owner END_OF_PROC = None"
  "owner (LOOP_BEGIN n) = Some (addr n)" "owner (LOOP_END n) = Some (addr n)"
  "owner (CATCH_BEGIN n) = Some (addr n)" "owner (CATCH_END n) = Some (addr n)"
  "owner (ELSE_BEGIN n) = Some (addr n)" "owner (ELSE_END n) = Some (addr n)"
  by (simp_all add: owner_def)

definition owned :: "nat set \<Rightarrow> string set \<Rightarrow> label set" where
  "owned A S = {l. (\<exists>a \<in> A. owner l = Some a) \<or> (\<exists>k \<in> S. l = User_label k)}"

lemma owned_simps [simp]:
  "owned (A \<union> B) (S \<union> R) = owned A S \<union> owned B R"
  "owned (insert a A) S = {l. owner l = Some a} \<union> owned A S"
  by (auto simp: owned_def)

lemma owned_Ls:
  "LOOP_BEGIN n \<in> owned A S \<longleftrightarrow> addr n \<in> A" "LOOP_END n \<in> owned A S \<longleftrightarrow> addr n \<in> A"
  "CATCH_BEGIN n \<in> owned A S \<longleftrightarrow> addr n \<in> A" "CATCH_END n \<in> owned A S \<longleftrightarrow> addr n \<in> A"
  "ELSE_BEGIN n \<in> owned A S \<longleftrightarrow> addr n \<in> A" "ELSE_END n \<in> owned A S \<longleftrightarrow> addr n \<in> A"
  "User_label k \<in> owned A S \<longleftrightarrow> k \<in> S" "END_OF_PROC \<notin> owned A S"
  by (auto simp: owned_def)

lemma owned_disjoint:
  "A \<inter> B = {} \<Longrightarrow> S \<inter> R = {} \<Longrightarrow> owned A S \<inter> owned B R = {}"
  by (auto simp: owned_def)

lemma labs_owned:
  "fst ` set (labs (asm U T W s)) \<subseteq> owned (set (addrs s)) (fst ` set (labels_of s))"
  "fst ` set (labs (asms U T W ss)) \<subseteq> owned (set (concat (map addrs ss))) (fst ` set (labelss_of ss))"
proof (induction U T W s and U T W ss rule: asm_asms.induct)
  case (5 U T W n e s t)
  then show ?case by (simp add: image_Un) blast
qed (auto simp: image_Un owned_Ls split: option.splits)

lemma distinct_labs_append:
  assumes "fst ` set (labs xs) \<subseteq> owned A S" "fst ` set (labs ys) \<subseteq> owned B R"
    and "distinct (map fst (labs xs))" "distinct (map fst (labs ys))" "A \<inter> B = {}" "S \<inter> R = {}"
  shows "distinct (map fst (labs xs) @ map fst (labs ys))"
  using assms owned_disjoint [OF assms(5,6)] by (simp only: distinct_append set_map) blast

lemma not_ownedI:
  "fst ` set (labs is) \<subseteq> owned A S \<Longrightarrow> l \<notin> owned A S \<Longrightarrow> l \<notin> fst ` set (labs is)"
  by blast

lemma labs_distinct:
  "distinct (addrs s) \<Longrightarrow> distinct (map fst (labels_of s)) \<Longrightarrow>
     distinct (map fst (labs (asm U T W s)))"
  "distinct (concat (map addrs ss)) \<Longrightarrow> distinct (map fst (labelss_of ss)) \<Longrightarrow>
     distinct (map fst (labs (asms U T W ss)))"
proof (induction U T W s and U T W ss rule: asm_asms.induct)
  case (5 U T W n e s t)
  have "distinct (map fst (labs (asm U T W s)) @ map fst (labs (asm U T W t)))" if "t \<noteq> NULL"
    using 5 that by (intro distinct_labs_append [OF labs_owned(1) labs_owned(1)]) auto
  moreover have "ELSE_BEGIN n \<notin> fst ` set (labs (asm U T W r))"
    "ELSE_END n \<notin> fst ` set (labs (asm U T W r))" if "r = s \<or> r = t" for r
    using 5(3) that by (auto intro!: not_ownedI [OF labs_owned(1)] simp: owned_Ls simp del: set_map)
  ultimately show ?case
    using 5 by simp
next
  case (6 U T W n e ss)
  moreover have "LOOP_BEGIN n \<notin> fst ` set (labs (asms U T (Some (n, T)) ss))"
    "LOOP_END n \<notin> fst ` set (labs (asms U T (Some (n, T)) ss))"
    using 6(2) by (auto intro!: not_ownedI [OF labs_owned(2)] simp: owned_Ls simp del: set_map)
  ultimately show ?case by simp
next
  case (11 U T W n s t)
  let ?s = "asm U (T @ [TryCatchInfo (addr n) True]) W s"
  let ?t = "asm U (T @ [TryCatchInfo (addr n) False]) W t"
  have "distinct (map fst (labs ?s) @ map fst (labs ?t))"
    using 11 by (intro distinct_labs_append [OF labs_owned(1) labs_owned(1)]) auto
  moreover have "CATCH_BEGIN n \<notin> fst ` set (labs ?s)" "CATCH_END n \<notin> fst ` set (labs ?s)"
    "CATCH_BEGIN n \<notin> fst ` set (labs ?t)" "CATCH_END n \<notin> fst ` set (labs ?t)"
    using 11(3) by (auto intro!: not_ownedI [OF labs_owned(1)] simp: owned_Ls simp del: set_map)
  ultimately show ?case by simp
next
  case (13 U T W s ss)
  then show ?case
    unfolding asms.simps labs_append map_append
    by (intro distinct_labs_append [OF labs_owned(1) labs_owned(2)]) auto
qed (auto split: option.splits)

section \<open>Typing positions by their blocks\<close>

text \<open>
  What an instruction expects of the blocks before and after it. \<open>\<Gamma>\<close> gives the blocks of
  every label and \<open>N\<close> those of every statement. Saving a context enters the TRY side of
  a block and leads, on an error, to its CATCH side; the two restores leave these sides.
\<close>

definition instr_ok ::
  "(label \<Rightarrow> blocks) \<Rightarrow> (nat \<Rightarrow> blocks) \<Rightarrow> instr \<Rightarrow> blocks \<Rightarrow> blocks \<Rightarrow> bool" where
  "instr_ok \<Gamma> N i T T' \<longleftrightarrow>
     (case i of
        Exec n ty \<Rightarrow> N (addr n) = T \<and> T' = T
      | Exec_return n \<Rightarrow> N (addr n) = T \<and> T' = T
      | Exec_goto ln cond l pc \<Rightarrow> \<Gamma> (label_key l) = T \<and> (cond \<noteq> None \<longrightarrow> T' = T)
      | Exec_save_ctx ln l pc \<Rightarrow>
          (\<exists>m. l = CATCH_BEGIN m \<and> T' = T @ [TryCatchInfo (addr m) True] \<and>
             \<Gamma> l = T @ [TryCatchInfo (addr m) False])
      | Exec_restore_ctx_full ln \<Rightarrow> (\<exists>a. T = T' @ [TryCatchInfo a True])
      | Exec_restore_ctx_partial ln \<Rightarrow> (\<exists>a. T = T' @ [TryCatchInfo a False]))"

text \<open>A listing that starts inside of the blocks \<open>T\<close> and ends inside of \<open>T'\<close>.\<close>

inductive flow :: "(label \<Rightarrow> blocks) \<Rightarrow> (nat \<Rightarrow> blocks) \<Rightarrow> blocks \<Rightarrow> item list \<Rightarrow> blocks \<Rightarrow> bool"
  for \<Gamma> N where
  flow_Nil: "flow \<Gamma> N T [] T"
| flow_Lab: "\<Gamma> (label_key l) = T \<Longrightarrow> flow \<Gamma> N T is T' \<Longrightarrow> flow \<Gamma> N T (Lab l B # is) T'"
| flow_Ins: "instr_ok \<Gamma> N i T Tm \<Longrightarrow> flow \<Gamma> N Tm is T' \<Longrightarrow> flow \<Gamma> N T (Ins i # is) T'"

lemma flow_append: "flow \<Gamma> N T xs T1 \<Longrightarrow> flow \<Gamma> N T1 ys T' \<Longrightarrow> flow \<Gamma> N T (xs @ ys) T'"
  by (induction rule: flow.induct) (auto intro: flow.intros)

lemma flow_restores:
  "flow \<Gamma> N (T @ T2) (map Ins (restores ln (T @ T2) (length T))) T"
proof (induction T2 rule: rev_induct)
  case Nil
  show ?case by (simp add: restores_def flow_Nil)
next
  case (snoc info T2)
  have "restores ln (T @ T2 @ [info]) (length T) =
    (if in_try_block info then Exec_restore_ctx_full ln else Exec_restore_ctx_partial ln)
      # restores ln (T @ T2) (length T)"
    by (simp add: restores_def)
  moreover have "instr_ok \<Gamma> N (if in_try_block info then Exec_restore_ctx_full ln
      else Exec_restore_ctx_partial ln) (T @ T2 @ [info]) (T @ T2)"
    by (cases info) (auto simp: instr_ok_def)
  ultimately show ?case
    using snoc by (simp add: flow_Ins)
qed

lemma flow_jump:
  assumes "prefix B T" and "\<Gamma> (label_key l) = B"
  shows "flow \<Gamma> N T (map Ins (restores ln T (length B) @ [create_goto ln None l])) T'"
proof -
  obtain T2 where T: "T = B @ T2" using assms(1) by (auto elim: prefixE)
  have "flow \<Gamma> N B [Ins (create_goto ln None l)] T'"
    using assms(2) by (auto intro!: flow_Ins [where Tm = T'] flow_Nil
        simp: instr_ok_def create_goto_def)
  then show ?thesis
    using flow_append [OF flow_restores] T by simp
qed

text \<open>What the types of a statement's surroundings have to satisfy.\<close>

definition env_ok :: "(label \<Rightarrow> blocks) \<Rightarrow> (string \<Rightarrow> blocks) \<Rightarrow> blocks \<Rightarrow> (node \<times> blocks) option \<Rightarrow> bool" where
  "env_ok \<Gamma> U T W \<longleftrightarrow>
     \<Gamma> END_OF_PROC = [] \<and> (\<forall>k. \<Gamma> (User_label k) = U k) \<and>
     (case W of None \<Rightarrow> True
      | Some (w, Tw) \<Rightarrow> \<Gamma> (LOOP_BEGIN w) = Tw \<and> \<Gamma> (LOOP_END w) = Tw \<and> prefix Tw T)"

definition gotos_leave :: "(string \<Rightarrow> blocks) \<Rightarrow> (nat \<Rightarrow> blocks) \<Rightarrow> (node \<times> string) list \<Rightarrow> bool" where
  "gotos_leave U N gs \<longleftrightarrow> (\<forall>(n, l) \<in> set gs. prefix (U (name_key l)) (N (addr n)))"

definition labs_typed :: "(label \<Rightarrow> blocks) \<Rightarrow> (label \<times> blocks) list \<Rightarrow> bool" where
  "labs_typed \<Gamma> ls \<longleftrightarrow> (\<forall>(l, B) \<in> set ls. \<Gamma> l = B)"

definition nodes_typed :: "(nat \<Rightarrow> blocks) \<Rightarrow> (nat \<times> nesting) list \<Rightarrow> bool" where
  "nodes_typed N ns \<longleftrightarrow> (\<forall>(a, K) \<in> set ns. N a = fst K)"

lemma typed_simps [simp]:
  "gotos_leave U N []"
  "gotos_leave U N (gs @ gs') \<longleftrightarrow> gotos_leave U N gs \<and> gotos_leave U N gs'"
  "gotos_leave U N [(n, l)] \<longleftrightarrow> prefix (U (name_key l)) (N (addr n))"
  "labs_typed \<Gamma> []"
  "labs_typed \<Gamma> ((lb, B) # ls) \<longleftrightarrow> \<Gamma> lb = B \<and> labs_typed \<Gamma> ls"
  "labs_typed \<Gamma> (ls @ ls') \<longleftrightarrow> labs_typed \<Gamma> ls \<and> labs_typed \<Gamma> ls'"
  "nodes_typed N []"
  "nodes_typed N ((a, K) # ns) \<longleftrightarrow> N a = fst K \<and> nodes_typed N ns"
  "nodes_typed N (ns @ ns') \<longleftrightarrow> nodes_typed N ns \<and> nodes_typed N ns'"
  by (fastforce simp: gotos_leave_def labs_typed_def nodes_typed_def)+

lemma env_ok_block: "env_ok \<Gamma> U T W \<Longrightarrow> env_ok \<Gamma> U (T @ T') W"
  by (auto simp: env_ok_def split: option.splits)

lemma flow_asm:
  "env_ok \<Gamma> U T W \<Longrightarrow> checked (W \<noteq> None) s \<Longrightarrow> gotos_leave U N (gotos_of s) \<Longrightarrow>
     labs_typed \<Gamma> (labs (asm U T W s)) \<Longrightarrow> nodes_typed N (nest (T, L) s) \<Longrightarrow>
     flow \<Gamma> N T (asm U T W s) T"
  "env_ok \<Gamma> U T W \<Longrightarrow> checkeds (W \<noteq> None) ss \<Longrightarrow> gotos_leave U N (gotoss_of ss) \<Longrightarrow>
     labs_typed \<Gamma> (labs (asms U T W ss)) \<Longrightarrow> nodes_typed N (nests (T, L) ss) \<Longrightarrow>
     flow \<Gamma> N T (asms U T W ss) T"
proof (induction U T W s and U T W ss arbitrary: L and L rule: asm_asms.induct)
  case (3 U T W n ty)
  then show ?case by (auto intro!: flow.intros simp: instr_ok_def)
next
  case (5 U T W n e s t)
  show ?case
    using "5.IH"(1) [of L] "5.IH"(2) [of L] "5.prems"
    by (auto intro!: flow_append flow.intros simp: instr_ok_def create_goto_def)
next
  case (6 U T W n e ss)
  have "env_ok \<Gamma> U T (Some (n, T))"
    using "6.prems" by (auto simp: env_ok_def)
  then show ?case
    using "6.IH" [of "L @ [addr n]"] "6.prems"
    by (auto intro!: flow_append flow.intros simp: instr_ok_def create_goto_def Let_def)
next
  case (7 U T W n b)
  then obtain w Tw where "W = Some (w, Tw)" by (auto simp: )
  with 7 flow_jump [of Tw T \<Gamma> _ N "lineno n"] show ?case
    by (simp add: env_ok_def)
next
  case (8 U T W n)
  then show ?case
    using flow_jump [of "[]" T \<Gamma> END_OF_PROC N "lineno n" T]
    by (auto intro!: flow_Ins [where Tm = T] simp: instr_ok_def env_ok_def)
next
  case (9 U T W n l)
  then show ?case
    using flow_jump [of "U (name_key l)" T \<Gamma> "User_label l" N "lineno n" T]
    by (simp add: env_ok_def)
next
  case (10 U T W n l)
  then show ?case by (auto intro!: flow.intros)
next
  case (11 U T W n s t)
  show ?case
    using "11.IH"(1) [of L] "11.IH"(2) [of L] "11.prems"
    by (auto intro!: flow_append flow.intros simp: instr_ok_def create_goto_def create_save_ctx_def
        env_ok_block)
next
  case (13 U T W s ss)
  show ?case
    using "13.IH"(1) [of L] "13.IH"(2) [of L] "13.prems"
    by (auto intro!: flow_append)
qed (simp_all add: flow_Nil)

lemma positions_bounds: "(l, p) \<in> set (positions k is) \<Longrightarrow> k \<le> p \<and> p \<le> k + length (instrs is)"
  by (induction k "is" rule: positions.induct) auto

text \<open>A typed listing has a type for every position.\<close>

lemma flow_positions:
  "flow \<Gamma> N T is T' \<Longrightarrow>
   \<exists>G. G k = T \<and> G (k + length (instrs is)) = T' \<and>
       (\<forall>(l, p) \<in> set (positions k is). G p = \<Gamma> l) \<and>
       (\<forall>i < length (instrs is). instr_ok \<Gamma> N (instrs is ! i) (G (k + i)) (G (Suc (k + i))))"
proof (induction arbitrary: k rule: flow.induct)
  case (flow_Nil T)
  show ?case by (auto intro: exI [of _ "\<lambda>_. T"])
next
  case (flow_Lab l T "is" T' B)
  from flow_Lab.IH [of k] obtain G where "G k = T" "G (k + length (instrs is)) = T'"
    "\<forall>(l, p) \<in> set (positions k is). G p = \<Gamma> l"
    "\<forall>i < length (instrs is). instr_ok \<Gamma> N (instrs is ! i) (G (k + i)) (G (Suc (k + i)))"
    by blast
  with flow_Lab.hyps(1) show ?case by (intro exI [of _ G]) simp
next
  case (flow_Ins i T Tm "is" T')
  from flow_Ins.IH [of "Suc k"] obtain G where G: "G (Suc k) = Tm"
    "G (Suc k + length (instrs is)) = T'"
    "\<forall>(l, p) \<in> set (positions (Suc k) is). G p = \<Gamma> l"
    "\<forall>i < length (instrs is). instr_ok \<Gamma> N (instrs is ! i) (G (Suc k + i)) (G (Suc (Suc k + i)))"
    by blast
  have "\<forall>(l, p) \<in> set (positions (Suc k) is). (G(k := T)) p = \<Gamma> l"
    using G(3) positions_bounds by fastforce
  moreover have "instr_ok \<Gamma> N ((i # instrs is) ! j) ((G(k := T)) (k + j)) ((G(k := T)) (Suc (k + j)))"
    if "j < length (i # instrs is)" for j
    using that G(1,4) flow_Ins.hyps(1) by (cases j) auto
  ultimately show ?case
    using G(2) by (intro exI [of _ "G(k := T)"]) simp
qed

section \<open>Typed code\<close>

text \<open>
  Resolved code in which every position has its enclosing blocks, \<open>G\<close>, and every label
  its position, \<open>P\<close>. This is what the executor relies on.
\<close>

definition typed_instr ::
  "(label \<Rightarrow> nat) \<Rightarrow> (nat \<Rightarrow> blocks) \<Rightarrow> (nat \<Rightarrow> blocks) \<Rightarrow> nat \<Rightarrow> nat \<Rightarrow> instr \<Rightarrow> bool" where
  "typed_instr P N G len pc i \<longleftrightarrow>
     (case i of
        Exec n ty \<Rightarrow> G pc = N (addr n) \<and> G (Suc pc) = G pc
      | Exec_return n \<Rightarrow> G pc = N (addr n) \<and> G (Suc pc) = G pc
      | Exec_goto ln cond l t \<Rightarrow>
          t = int (P (label_key l)) \<and> P (label_key l) \<le> len \<and> G (P (label_key l)) = G pc \<and>
          (cond \<noteq> None \<longrightarrow> G (Suc pc) = G pc)
      | Exec_save_ctx ln l t \<Rightarrow>
          (\<exists>m. l = CATCH_BEGIN m \<and> t = int (P l) \<and> P l \<le> len \<and>
             G (Suc pc) = G pc @ [TryCatchInfo (addr m) True] \<and>
             G (P l) = G pc @ [TryCatchInfo (addr m) False])
      | Exec_restore_ctx_full ln \<Rightarrow> (\<exists>a. G pc = G (Suc pc) @ [TryCatchInfo a True])
      | Exec_restore_ctx_partial ln \<Rightarrow> (\<exists>a. G pc = G (Suc pc) @ [TryCatchInfo a False]))"

definition typed_code ::
  "(label \<Rightarrow> nat) \<Rightarrow> (nat \<Rightarrow> blocks) \<Rightarrow> (nat \<Rightarrow> blocks) \<Rightarrow> instr list \<Rightarrow> bool" where
  "typed_code P N G code \<longleftrightarrow>
     G 0 = [] \<and> G (length code) = [] \<and>
     (\<forall>pc < length code. typed_instr P N G (length code) pc (code ! pc))"

fun target :: "instr \<Rightarrow> label option" where
  "target (Exec_goto ln cond l pc) = Some l"
| "target (Exec_save_ctx ln l pc) = Some l"
| "target _ = None"

definition resolved :: "(label \<Rightarrow> nat) \<Rightarrow> instr \<Rightarrow> instr" where
  "resolved P i =
     (case i of
        Exec_goto ln cond l _ \<Rightarrow> Exec_goto ln cond l (int (P (label_key l)))
      | Exec_save_ctx ln l _ \<Rightarrow> Exec_save_ctx ln l (int (P (label_key l)))
      | _ \<Rightarrow> i)"

definition targets :: "instr list \<Rightarrow> label list" where
  "targets is = List.map_filter target is"

lemma targets_simps [simp]:
  "targets [] = []"
  "targets (i # is) = (case target i of None \<Rightarrow> [] | Some l \<Rightarrow> [l]) @ targets is"
  "targets (is @ is') = targets is @ targets is'"
  by (simp_all add: targets_def List.map_filter_def split: option.splits)

lemma targets_restores [simp]: "targets (restores ln T d) = []"
  by (auto simp: targets_def restores_def List.map_filter_def filter_empty_conv split: if_splits)

lemma resolve_label_eq:
  assumes "\<And>l. target i = Some l \<Longrightarrow>
    label_index ctx (label_key l) = Some (P (label_key l)) \<and> int32 (int (P (label_key l)))"
  shows "resolve_label ctx i = Inr (resolved P i)"
  using assms by (cases i) (simp_all add: resolve_label_def get_label_index_def resolved_def)

lemma resolve_labels_eq:
  assumes "\<And>l. l \<in> set (targets is) \<Longrightarrow>
      label_index ctx (label_key l) = Some (P (label_key l)) \<and> int32 (int (P (label_key l)))"
  shows "resolve_labels ctx is = Inr (map (resolved P) is)"
  using assms
proof (induction "is")
  case (Cons i "is")
  then have "resolve_label ctx i = Inr (resolved P i)"
    by (intro resolve_label_eq) simp
  with Cons show ?case by simp
qed simp

lemma typed_resolved:
  assumes "instr_ok \<Gamma> N i (G pc) (G (Suc pc))"
    and "\<And>l. target i = Some l \<Longrightarrow> G (P (label_key l)) = \<Gamma> (label_key l) \<and> P (label_key l) \<le> len"
  shows "typed_instr P N G len pc (resolved P i)"
  using assms by (cases i) (auto simp: typed_instr_def instr_ok_def resolved_def)

text \<open>Every label an instruction names is defined in the listing or around it.\<close>

definition around :: "(node \<times> blocks) option \<Rightarrow> (node \<times> string) list \<Rightarrow> label set" where
  "around W gs = {END_OF_PROC} \<union> User_label ` snd ` set gs \<union>
     (case W of None \<Rightarrow> {} | Some (w, Tw) \<Rightarrow> {LOOP_BEGIN w, LOOP_END w})"

lemma targets_defined:
  "set (targets (instrs (asm U T W s))) \<subseteq>
     {l. label_key l \<in> fst ` set (labs (asm U T W s))} \<union> around W (gotos_of s)"
  "set (targets (instrs (asms U T W ss))) \<subseteq>
     {l. label_key l \<in> fst ` set (labs (asms U T W ss))} \<union> around W (gotoss_of ss)"
proof (induction U T W s and U T W ss rule: asm_asms.induct)
  case (5 U T W n e s t)
  then show ?case by (auto simp: create_goto_def around_def image_Un)
next
  case (6 U T W n e ss)
  then show ?case by (auto simp: create_goto_def around_def)
next
  case (11 U T W n s t)
  then show ?case by (auto simp: create_goto_def create_save_ctx_def around_def image_Un)
next
  case (13 U T W s ss)
  then show ?case by (auto simp: around_def image_Un)
qed (auto simp: create_goto_def around_def split: option.splits)

lemma labs_user:
  "(k, n) \<in> set (labels_of s) \<Longrightarrow> User_label k \<in> fst ` set (labs (asm U T W s))"
  "(k, n) \<in> set (labelss_of ss) \<Longrightarrow> User_label k \<in> fst ` set (labs (asms U T W ss))"
  by (induction U T W s and U T W ss rule: asm_asms.induct) (auto simp: image_Un)

lemma labs_user_nest:
  "(User_label k, B) \<in> set (labs (asm U T W s)) \<Longrightarrow>
     \<exists>n L'. (k, n) \<in> set (labels_of s) \<and> (addr n, (B, L')) \<in> set (nest (T, L) s)"
  "(User_label k, B) \<in> set (labs (asms U T W ss)) \<Longrightarrow>
     \<exists>n L'. (k, n) \<in> set (labelss_of ss) \<and> (addr n, (B, L')) \<in> set (nests (T, L) ss)"
proof (induction U T W s and U T W ss arbitrary: L and L rule: asm_asms.induct)
  case (2 U T W n ss)
  from "2.prems" "2.IH" [of L] show ?case by fastforce
next
  case (4 U T W n ss)
  from "4.prems" "4.IH" [of L] show ?case by fastforce
next
  case (5 U T W n e s t)
  from "5.prems" have "(User_label k, B) \<in> set (labs (asm U T W s)) \<or>
      t \<noteq> NULL \<and> (User_label k, B) \<in> set (labs (asm U T W t))"
    by (auto split: if_splits)
  with "5.IH"(1) [of L] "5.IH"(2) [of L] show ?case by fastforce
next
  case (6 U T W n e ss)
  from "6.prems" "6.IH" [of "L @ [addr n]"] show ?case by (auto simp: Let_def)
next
  case (11 U T W n s t)
  from "11.prems" have "(User_label k, B) \<in> set (labs (asm U (T @ [TryCatchInfo (addr n) True]) W s)) \<or>
      (User_label k, B) \<in> set (labs (asm U (T @ [TryCatchInfo (addr n) False]) W t))"
    by auto
  with "11.IH"(1) [of L] "11.IH"(2) [of L] show ?case by fastforce
next
  case (13 U T W s ss)
  from "13.prems" have "(User_label k, B) \<in> set (labs (asm U T W s)) \<or>
      (User_label k, B) \<in> set (labs (asms U T W ss))"
    by simp
  with "13.IH"(1) [of L] "13.IH"(2) [of L] show ?case by fastforce
qed (auto split: option.splits)

section \<open>Compiling an accepted procedure\<close>

text \<open>The TRY...CATCH blocks that enclose a node and a label of a procedure.\<close>

definition blocks_of :: "stmt list \<Rightarrow> nat \<Rightarrow> blocks" where
  "blocks_of prog a = (case map_of (nests ([], []) prog) a of None \<Rightarrow> [] | Some K \<Rightarrow> fst K)"

definition label_blocks :: "stmt list \<Rightarrow> string \<Rightarrow> blocks" where
  "label_blocks prog k =
     (case map_of (labelss_of prog) k of None \<Rightarrow> [] | Some n \<Rightarrow> blocks_of prog (addr n))"

definition listing :: "stmt list \<Rightarrow> item list" where
  "listing prog = asms (label_blocks prog) [] None prog @ [Lab END_OF_PROC []]"

definition label_pc :: "stmt list \<Rightarrow> label \<Rightarrow> nat" where
  "label_pc prog l =
     (case map_of (positions 0 (listing prog)) l of None \<Rightarrow> 0 | Some p \<Rightarrow> p)"

definition label_type :: "stmt list \<Rightarrow> label \<Rightarrow> blocks" where
  "label_type prog l = (case map_of (labs (listing prog)) l of None \<Rightarrow> [] | Some B \<Rightarrow> B)"

definition compiled :: "stmt list \<Rightarrow> instr list" where
  "compiled prog = map (resolved (label_pc prog)) (instrs (listing prog))"

lemma labs_listing_distinct:
  assumes "distinct (concat (map addrs prog))" and "distinct (map fst (labelss_of prog))"
  shows "distinct (map fst (labs (listing prog)))"
proof -
  have "END_OF_PROC \<notin> fst ` set (labs (asms (label_blocks prog) [] None prog))"
    by (rule not_ownedI [OF labs_owned(2)]) (simp add: owned_Ls)
  then show ?thesis
    using labs_distinct(2) [OF assms] by (simp add: listing_def)
qed

lemma tables_blocks:
  assumes "distinct (concat (map addrs prog))" and "a \<in> fst ` set (scopess ([], []) prog)"
  shows "map_option nesting_trycatch_infos (stmt_scope_context (tables prog) a) = Some (blocks_of prog a)"
  by (rule tables_scope [OF assms]) (simp add: blocks_of_def scope_of_def)

lemma goto_label:
  assumes "accepted prog" and "(n, l) \<in> set (gotoss_of prog)"
  obtains m where "map_of (labelss_of prog) (name_key l) = Some m"
    and "prefix (label_blocks prog (name_key l)) (blocks_of prog (addr n))"
proof -
  have "goto_allowed prog (n, l)"
    using assms unfolding accepted_def by blast
  then show ?thesis
    using that by (auto simp: goto_allowed_def label_blocks_def blocks_of_def split: option.splits)
qed

lemma tables_gotos:
  assumes d: "distinct (concat (map addrs prog))" and acc: "accepted prog"
  shows "gotos_known (tables prog) (label_blocks prog) (gotoss_of prog)"
    and "gotos_leave (label_blocks prog) (blocks_of prog) (gotoss_of prog)"
proof -
  have "\<exists>m. label_stmt_map (tables prog) (name_key l) = Some m \<and>
      map_option nesting_trycatch_infos (stmt_scope_context (tables prog) (addr m))
        = Some (label_blocks prog (name_key l))" if g: "(n, l) \<in> set (gotoss_of prog)" for n l
  proof -
    obtain m where m: "map_of (labelss_of prog) (name_key l) = Some m"
      by (rule goto_label [OF acc g])
    then have "addr m \<in> fst ` set (scopess ([], []) prog)"
      by (auto dest!: map_of_SomeD intro: label_scopes(2))
    from tables_blocks [OF d this] m show ?thesis
      by (simp add: tables_def label_blocks_def)
  qed
  then show "gotos_known (tables prog) (label_blocks prog) (gotoss_of prog)"
    unfolding gotos_known_def by blast
  show "gotos_leave (label_blocks prog) (blocks_of prog) (gotoss_of prog)"
    unfolding gotos_leave_def by (auto elim: goto_label [OF acc])
qed

lemma walk_emits_listing:
  assumes d: "distinct (concat (map addrs prog))" and acc: "accepted prog"
  shows "and_then (codegen_walks (tables prog) prog make_codegen_context) (\<lambda>ctx.
           Inr (create_and_register_label END_OF_PROC ctx))
         = Inr (emit (listing prog) make_codegen_context)"
proof -
  have "scopes_known (tables prog) (scopess ([], []) prog)"
    using scopes_distinct(2) [OF d] by (auto simp: scopes_known_def tables_def)
  then have "codegen_walks (tables prog) prog make_codegen_context =
      Inr (emit (asms (label_blocks prog) [] None prog) make_codegen_context)"
    using tables_gotos(1) [OF d acc] acc by (intro codegen_walk_emits(2)) (auto simp: accepted_def)
  then show ?thesis
    by (simp add: listing_def emit_append)
qed

text \<open>All targets are defined, at a position inside of the code.\<close>

lemma targets_listing:
  assumes acc: "accepted prog" and l: "l \<in> set (targets (instrs (listing prog)))"
  shows "label_key l \<in> fst ` set (labs (listing prog))"
proof -
  let ?as = "asms (label_blocks prog) [] None prog"
  from l targets_defined(2) [of "label_blocks prog" "[]" None prog]
  consider "label_key l \<in> fst ` set (labs ?as)" | "l \<in> around None (gotoss_of prog)"
    by (auto simp: listing_def)
  then show ?thesis
  proof cases
    case 2
    then consider "l = END_OF_PROC" | n k where "l = User_label k" "(n, k) \<in> set (gotoss_of prog)"
      by (auto simp: around_def)
    then show ?thesis
    proof cases
      case 2
      then obtain m where "map_of (labelss_of prog) (name_key k) = Some m"
        using goto_label [OF acc] by blast
      then show ?thesis
        using 2(1) labs_user(2) [of "name_key k" m prog "label_blocks prog" "[]" None]
        by (auto simp: listing_def dest!: map_of_SomeD)
    qed (simp add: listing_def)
  qed (auto simp: listing_def)
qed

lemma label_pc_positions:
  assumes "l \<in> fst ` set (labs (listing prog))"
  shows "(l, label_pc prog l) \<in> set (positions 0 (listing prog))"
    and "label_pc prog l \<le> length (instrs (listing prog))"
proof -
  have "l \<in> fst ` set (positions 0 (listing prog))"
    using assms positions_labs [of 0 "listing prog", THEN arg_cong, of set] by simp
  then obtain p where "map_of (positions 0 (listing prog)) l = Some p"
    by (cases "map_of (positions 0 (listing prog)) l") (auto simp: map_of_eq_None_iff)
  then show "(l, label_pc prog l) \<in> set (positions 0 (listing prog))"
    by (simp add: label_pc_def map_of_SomeD)
  then show "label_pc prog l \<le> length (instrs (listing prog))"
    using positions_bounds by fastforce
qed

lemma generate_eq:
  assumes d: "distinct (concat (map addrs prog))" and acc: "accepted prog"
    and small: "int32 (int (length (compiled prog)))"
  shows "generate (tables prog) prog = Inr (compiled prog)"
proof -
  let ?ctx = "emit (listing prog) make_codegen_context"
  have dl: "distinct (map fst (positions 0 (listing prog)))"
    unfolding positions_labs using labs_listing_distinct d acc by (simp add: accepted_def)
  have "label_index ?ctx (label_key l) = Some (label_pc prog (label_key l)) \<and>
      int32 (int (label_pc prog (label_key l)))" if "l \<in> set (targets (instrs (listing prog)))" for l
    using label_pc_positions [OF targets_listing [OF acc that]] dl small
    by (auto simp: emit_eq make_codegen_context_def map_of_rev_distinct compiled_def int32_iff)
  then have "resolve_labels ?ctx (instrs (listing prog)) = Inr (compiled prog)"
    unfolding compiled_def by (rule resolve_labels_eq)
  then show ?thesis
    using walk_emits_listing [OF d acc]
    by (cases "codegen_walks (tables prog) prog make_codegen_context")
       (auto simp: generate_def Let_def emit_eq make_codegen_context_def)
qed

lemma label_type_listing:
  assumes d: "distinct (concat (map addrs prog))" and acc: "accepted prog"
  shows "labs_typed (label_type prog) (labs (listing prog))"
    and "label_type prog (User_label k) = label_blocks prog k"
proof -
  have dl: "distinct (map fst (labs (listing prog)))"
    using labs_listing_distinct d acc by (simp add: accepted_def)
  then show typed: "labs_typed (label_type prog) (labs (listing prog))"
    by (auto simp: labs_typed_def label_type_def)
  have dk: "distinct (map fst (labelss_of prog))" and dn: "distinct (map fst (nests ([], []) prog))"
    using acc d by (simp_all add: accepted_def nest_addrs)
  show "label_type prog (User_label k) = label_blocks prog k"
  proof (cases "map_of (labs (listing prog)) (User_label k)")
    case None
    have "map_of (labelss_of prog) k = None"
    proof (rule ccontr)
      assume "map_of (labelss_of prog) k \<noteq> None"
      then obtain n where "(k, n) \<in> set (labelss_of prog)" by (auto dest: map_of_SomeD)
      from labs_user(2) [OF this] None show False
        by (fastforce simp: listing_def map_of_eq_None_iff)
    qed
    with None show ?thesis by (simp add: label_type_def label_blocks_def)
  next
    case (Some B)
    then have "(User_label k, B) \<in> set (labs (asms (label_blocks prog) [] None prog))"
      by (auto simp: listing_def dest!: map_of_SomeD)
    from labs_user_nest(2) [OF this, of "[]"] dk dn Some show ?thesis
      by (auto simp: label_type_def label_blocks_def blocks_of_def)
  qed
qed

lemma flow_listing:
  assumes d: "distinct (concat (map addrs prog))" and acc: "accepted prog"
  shows "flow (label_type prog) (blocks_of prog) [] (listing prog) []"
proof -
  have dn: "distinct (map fst (nests ([], []) prog))"
    using d by (simp add: nest_addrs)
  have typed: "labs_typed (label_type prog) (labs (asms (label_blocks prog) [] None prog))"
    and end_type: "label_type prog END_OF_PROC = []"
    using label_type_listing(1) [OF d acc] by (auto simp: listing_def)
  have "env_ok (label_type prog) (label_blocks prog) [] None"
    using label_type_listing(2) [OF d acc] end_type by (simp add: env_ok_def)
  moreover have "nodes_typed (blocks_of prog) (nests ([], []) prog)"
    using dn by (auto simp: nodes_typed_def blocks_of_def)
  ultimately have "flow (label_type prog) (blocks_of prog) [] (asms (label_blocks prog) [] None prog) []"
    using acc tables_gotos(2) [OF d acc] typed by (intro flow_asm(2)) (auto simp: accepted_def)
  then show ?thesis
    unfolding listing_def by (rule flow_append) (auto intro!: flow.intros simp: end_type)
qed

lemma compiled_typed:
  assumes d: "distinct (concat (map addrs prog))" and acc: "accepted prog"
  obtains G where "typed_code (label_pc prog) (blocks_of prog) G (compiled prog)"
proof -
  from flow_positions [OF flow_listing [OF d acc], of 0] obtain G where
    G: "G 0 = []" "G (length (instrs (listing prog))) = []"
    "\<forall>(l, p) \<in> set (positions 0 (listing prog)). G p = label_type prog l"
    "\<forall>i < length (instrs (listing prog)).
       instr_ok (label_type prog) (blocks_of prog) (instrs (listing prog) ! i) (G i) (G (Suc i))"
    by auto
  have "typed_instr (label_pc prog) (blocks_of prog) G (length (compiled prog)) pc (compiled prog ! pc)"
    if pc: "pc < length (compiled prog)" for pc
  proof -
    let ?i = "instrs (listing prog) ! pc"
    have "?i \<in> set (instrs (listing prog))" using pc by (simp add: compiled_def)
    then have "label_key l \<in> fst ` set (labs (listing prog))" if "target ?i = Some l" for l
      using that by (intro targets_listing [OF acc]) (force simp: targets_def List.map_filter_def)
    then have "G (label_pc prog (label_key l)) = label_type prog (label_key l) \<and>
        label_pc prog (label_key l) \<le> length (compiled prog)" if "target ?i = Some l" for l
      using label_pc_positions that G(3) by (fastforce simp: compiled_def)
    then show ?thesis
      using pc G(4) typed_resolved [of "label_type prog" "blocks_of prog" ?i G pc]
      by (simp add: compiled_def)
  qed
  with that [of G] G(1,2) show ?thesis
    by (simp add: typed_code_def compiled_def)
qed

section \<open>Properties\<close>

text \<open>
  C2. Code generation never fails on what the analyzer accepted: for a procedure with
  distinct node addresses whose code fits into 32-bit positions, no label is missing, no
  pointer is NULL and no statement type is unknown, and the function ends with valid code.
  In this code every position has a list of enclosing TRY...CATCH blocks such that a
  statement sits exactly inside of the blocks that enclose it in the source, every jump
  and every fall-through connects positions with the same blocks, a save enters the TRY
  side of its block and names the beginning of its CATCH side, and each restore leaves the
  innermost block on the side it is meant for; beginning and end are outside of all blocks.
\<close>

theorem codegen_total_typed:
  assumes "distinct (concat (map addrs (action f)))" and "exec_codes f = None"
    and "analyze (Some f) create_compile_context = Inr cc"
    and "length (compiled (action f)) \<le> 2147483647"
  shows "gen_exec_code (Some f) cc =
      (Some (f\<lparr>exec_codes_valid := True, exec_codes := Some (compiled (action f))\<rparr>), None) \<and>
    (\<exists>G. typed_code (label_pc (action f)) (blocks_of (action f)) G (compiled (action f)))"
proof -
  have acc: "accepted (action f) \<and> cc = tables (action f)"
  proof -
    have walk: "if accepted (action f)
        then analyze (Some f) create_compile_context = Inr (tables (action f))
        else \<exists>e. analyze (Some f) create_compile_context = Inl e \<and> is_report e"
      by (rule analyze_spec [OF assms(1,2)])
    with assms(3) show ?thesis by (auto split: if_splits)
  qed
  have "int32 (int (length (compiled (action f))))"
    using assms(4) by (simp add: int32_iff)
  with acc generate_eq [OF assms(1)] compiled_typed [OF assms(1)] assms(2) show ?thesis
    by (auto simp: gen_exec_code_def)
qed

theorem codegen_total_typed_witness:
  "(let n = Node 1 1;
        prog = [Try_catch n (Leaf (Node 2 2) PLTSQL_STMT_EXECSQL) (Return (Node 3 3))];
        f = \<lparr>action = prog, exec_codes = None, exec_codes_valid = False\<rparr>;
        code = [Exec_save_ctx 1 (CATCH_BEGIN n) 4, Exec (Node 2 2) PLTSQL_STMT_EXECSQL,
                Exec_restore_ctx_full 1, Exec_goto 1 None (CATCH_END n) 8,
                Exec_return (Node 3 3), Exec_restore_ctx_partial 3,
                Exec_goto 3 None END_OF_PROC 8, Exec_restore_ctx_partial 1]
    in \<exists>cc. analyze (Some f) create_compile_context = Inr cc \<and>
         gen_exec_code (Some f) cc
           = (Some (f\<lparr>exec_codes_valid := True, exec_codes := Some code\<rparr>), None))"
proof -
  let ?n = "Node 1 1"
  let ?prog = "[Try_catch ?n (Leaf (Node 2 2) PLTSQL_STMT_EXECSQL) (Return (Node 3 3))]"
  let ?f = "\<lparr>action = ?prog, exec_codes = None, exec_codes_valid = False\<rparr>"
  have "accepted ?prog"
    by (simp add: accepted_def walker_supports_def)
  with analyze_spec [of ?f] have cc: "analyze (Some ?f) create_compile_context = Inr (tables ?prog)"
    by simp
  have code: "compiled ?prog =
      [Exec_save_ctx 1 (CATCH_BEGIN ?n) 4, Exec (Node 2 2) PLTSQL_STMT_EXECSQL,
       Exec_restore_ctx_full 1, Exec_goto 1 None (CATCH_END ?n) 8,
       Exec_return (Node 3 3), Exec_restore_ctx_partial 3,
       Exec_goto 3 None END_OF_PROC 8, Exec_restore_ctx_partial 1]"
    by (simp add: compiled_def listing_def label_pc_def resolved_def restores_def
        create_goto_def create_save_ctx_def)
  show ?thesis
    using codegen_total_typed [OF _ _ cc] code cc by (simp add: Let_def)
qed

end
