(* ===== verification/Iterative_Exec.thy ===== *)
theory Iterative_Exec
  imports Codegen DynaVec
begin

text \<open>
  The executor of compiled T-SQL procedures, \<^verbatim>\<open>iterative_exec.c\<close>: the main loop with the
  error contexts of TRY...CATCH. Entering a TRY block pushes a context with a jump buffer;
  an error jumps to the buffer \<open>PG_exception_stack\<close> points to, cleans up the contexts of
  inner CATCH blocks and continues at the handler. The statements themselves, the memory
  contexts and the transactions are not part of the state; what they may do to the control
  flow is an event of the step function. The results relate every reachable state to the
  block structure of the source.
\<close>

section \<open>State\<close>

text \<open>\<open>Outer\<close> is the buffer of the PG_TRY around the loop, \<open>Local\<close> that of an error context.\<close>

datatype jmp_buf = Outer | Local nat

text \<open>
  \<open>error\<close> and \<open>procedure\<close> are pointers; a procedure name is a string of its own that
  \<open>pfree\<close> releases.
\<close>

record PLtsql_estate_err =
  ee_error :: "nat option"
  ee_procedure :: "nat option"
  ee_number :: int
  ee_severity :: int
  ee_state :: int

definition no_error :: PLtsql_estate_err where
  "no_error = \<lparr>ee_error = None, ee_procedure = None, ee_number = - 1, ee_severity = - 1, ee_state = - 1\<rparr>"

record PLtsql_errctx =
  local_sigjmp_buf :: nat
  save_exception_stack :: jmp_buf
  save_cur_error :: PLtsql_estate_err
  ctx_target_pc :: int
  partial_restored :: bool

text \<open>The fields of \<open>exec_state_call_stack->error_data\<close> the loop copies into \<open>cur_error\<close>.\<close>

record PLtsql_error_data =
  error_procedure :: "nat option"
  error_number :: int
  error_severity :: int
  error_state :: int

text \<open>Whether the loop runs, an error is on its way to a jump buffer, or it has ended.\<close>

datatype exec_mode =
    Running
  | Jumping nat PLtsql_error_data
  | Finished
  | Failed nat

record PLtsql_execstate =
  pc :: nat
  err_ctx_stack :: "PLtsql_errctx list"
  cur_err_ctx_idx :: nat
  PG_exception_stack :: jmp_buf
  cur_error :: PLtsql_estate_err
  freed :: "nat list"
  next_buf :: nat
  mode :: exec_mode

definition start_state :: PLtsql_execstate where
  "start_state =
     \<lparr>pc = 0, err_ctx_stack = [], cur_err_ctx_idx = 0, PG_exception_stack = Outer,
      cur_error = no_error, freed = [], next_buf = 0, mode = Running\<rparr>"

section \<open>Error contexts\<close>

definition errctx_at :: "PLtsql_execstate \<Rightarrow> nat \<Rightarrow> PLtsql_errctx result" where
  "errctx_at st i =
     (if i < length (err_ctx_stack st) then Inr (err_ctx_stack st ! i)
      else Inl (Invalid_access ''err_ctx_stack''))"

definition pfree_string :: "nat option \<Rightarrow> PLtsql_execstate \<Rightarrow> PLtsql_execstate result" where
  "pfree_string p st =
     (case p of
        None \<Rightarrow> Inr st
      | Some a \<Rightarrow> (if a \<in> set (freed st) then Inl (Invalid_access ''pfree'')
                   else Inr (st\<lparr>freed := a # freed st\<rparr>)))"

definition create_error_ctx :: "PLtsql_execstate \<Rightarrow> int \<Rightarrow> PLtsql_errctx" where
  "create_error_ctx st t =
     \<lparr>local_sigjmp_buf = next_buf st, save_exception_stack = PG_exception_stack st,
      save_cur_error = cur_error st, ctx_target_pc = t, partial_restored = False\<rparr>"

text \<open>The loops that look for the next active context, below index \<open>i\<close>.\<close>

fun find_active :: "PLtsql_errctx list \<Rightarrow> nat \<Rightarrow> nat option" where
  "find_active cs 0 = None"
| "find_active cs (Suc i) = (if \<not> partial_restored (cs ! i) then Some i else find_active cs i)"

definition set_active_idx :: "PLtsql_execstate \<Rightarrow> PLtsql_execstate" where
  "set_active_idx st =
     (case find_active (err_ctx_stack st) (cur_err_ctx_idx st) of
        None \<Rightarrow> st
      | Some i \<Rightarrow> st\<lparr>cur_err_ctx_idx := i\<rparr>)"

definition restore_ctx_full :: "PLtsql_execstate \<Rightarrow> PLtsql_execstate result" where
  "restore_ctx_full st =
     and_then (errctx_at st (cur_err_ctx_idx st)) (\<lambda>c.
     let st = st\<lparr>PG_exception_stack := save_exception_stack c\<rparr> in
     if save_cur_error c \<noteq> cur_error st then Inl (Invalid_access ''assert_equal_estate_err'')
     else let st = st\<lparr>err_ctx_stack := butlast (err_ctx_stack st)\<rparr>
          in Inr (set_active_idx st))"

definition restore_ctx_partial1 :: "PLtsql_execstate \<Rightarrow> PLtsql_execstate result" where
  "restore_ctx_partial1 st =
     and_then (errctx_at st (cur_err_ctx_idx st)) (\<lambda>c.
     Inr (st\<lparr>PG_exception_stack := save_exception_stack c,
             err_ctx_stack := (err_ctx_stack st)
               [cur_err_ctx_idx st := c\<lparr>partial_restored := True\<rparr>]\<rparr>))"

definition restore_ctx_partial2 :: "PLtsql_execstate \<Rightarrow> PLtsql_execstate result" where
  "restore_ctx_partial2 st =
     (if err_ctx_stack st = [] then null_deref
      else let c = last (err_ctx_stack st);
               st = st\<lparr>cur_error := save_cur_error c, err_ctx_stack := butlast (err_ctx_stack st)\<rparr>
           in pfree_string (ee_procedure (save_cur_error c)) st)"

text \<open>The cleanup of dangling contexts, \<open>n\<close> of them.\<close>

fun cleanup_dangling :: "nat \<Rightarrow> PLtsql_execstate \<Rightarrow> PLtsql_execstate result" where
  "cleanup_dangling 0 st = Inr st"
| "cleanup_dangling (Suc n) st = and_then (restore_ctx_partial2 st) (cleanup_dangling n)"

section \<open>The main loop\<close>

text \<open>
  \<open>pc\<close> is a \<open>size_t\<close>; a jump stores the target minus one, which the increment at the end of
  the round undoes. The position of the statement is narrowed to an \<open>int\<close>.
\<close>

definition jump_to :: "int \<Rightarrow> PLtsql_execstate \<Rightarrow> PLtsql_execstate" where
  "jump_to t st = st\<lparr>pc := size_t_of_int (t - 1)\<rparr>"

definition next_round :: "PLtsql_execstate \<Rightarrow> PLtsql_execstate" where
  "next_round st = st\<lparr>pc := size_t_add (pc st) 1\<rparr>"

definition fetch :: "instr list \<Rightarrow> nat \<Rightarrow> instr result" where
  "fetch code p =
     (let cur_pc = size_t_of_int (to_int32 (int p))
      in if cur_pc < length code then Inr (code ! cur_pc) else Inl (Invalid_access ''codes''))"

text \<open>
  What the environment decides: a statement ends (also after an error that
  \<open>dispatch_stmt_handle_error\<close> reported and let pass), a condition has a value or is NULL,
  an error is thrown out of the statement, or a caught error has to be thrown again
  (\<open>ignore_catch_block_for_insert_exec\<close>, \<open>ignore_catch_block_for_unmapped_error\<close>,
  \<open>terminate_batch\<close>).
\<close>

datatype event =
    Completes
  | Condition "bool option"
  | Raises nat PLtsql_error_data
  | Caught bool

definition exec_stmt_goto :: "expr option \<Rightarrow> int \<Rightarrow> event \<Rightarrow> PLtsql_execstate \<Rightarrow> PLtsql_execstate" where
  "exec_stmt_goto cond t ev st =
     (case cond of
        None \<Rightarrow> jump_to t st
      | Some e \<Rightarrow> (case ev of
            Condition v \<Rightarrow> (if v = None \<or> v = Some False then jump_to t st else st)
          | _ \<Rightarrow> st))"

definition save_ctx :: "int \<Rightarrow> PLtsql_execstate \<Rightarrow> PLtsql_execstate" where
  "save_ctx t st =
     (let c = create_error_ctx st t;
          st = st\<lparr>PG_exception_stack := Local (local_sigjmp_buf c), next_buf := Suc (next_buf st),
                  err_ctx_stack := err_ctx_stack st @ [c]\<rparr>
      in st\<lparr>cur_err_ctx_idx := length (err_ctx_stack st) - 1\<rparr>)"

text \<open>The branch a jump to the buffer of an error context continues in.\<close>

definition catch_error ::
  "nat \<Rightarrow> PLtsql_error_data \<Rightarrow> bool \<Rightarrow> PLtsql_execstate \<Rightarrow> PLtsql_execstate result" where
  "catch_error e d ignore st =
     and_then (errctx_at st (cur_err_ctx_idx st)) (\<lambda>c.
     and_then (cleanup_dangling (length (err_ctx_stack st) - 1 - cur_err_ctx_idx st) st) (\<lambda>st.
     and_then (restore_ctx_partial1 st) (\<lambda>st.
     let st = st\<lparr>cur_error := \<lparr>ee_error = Some e, ee_procedure = error_procedure d,
                   ee_number = error_number d, ee_severity = error_severity d,
                   ee_state = error_state d\<rparr>\<rparr>;
         st = jump_to (ctx_target_pc c) st;
         st = set_active_idx st
     in Inr (if ignore then st else next_round (st\<lparr>mode := Running\<rparr>)))))"

definition exec_step :: "instr list \<Rightarrow> event \<Rightarrow> PLtsql_execstate \<Rightarrow> PLtsql_execstate result" where
  "exec_step code ev st =
     (case mode st of
        Running \<Rightarrow>
          (if pc st \<ge> length code then Inr (st\<lparr>mode := Finished\<rparr>)
           else case ev of
             Raises e d \<Rightarrow> Inr (st\<lparr>mode := Jumping e d\<rparr>)
           | _ \<Rightarrow>
             and_then (fetch code (pc st)) (\<lambda>i.
             and_then (case i of
                 Exec_save_ctx ln l t \<Rightarrow> Inr (save_ctx t st)
               | Exec_restore_ctx_full ln \<Rightarrow> restore_ctx_full st
               | Exec_restore_ctx_partial ln \<Rightarrow> restore_ctx_partial2 st
               | Exec_goto ln cond l t \<Rightarrow> Inr (exec_stmt_goto cond t ev st)
               | _ \<Rightarrow> Inr st) (\<lambda>st.
             Inr (next_round st))))
      | Jumping e d \<Rightarrow>
          (case PG_exception_stack st of
             Outer \<Rightarrow> Inr (st\<lparr>mode := Failed e\<rparr>)
           | Local b \<Rightarrow>
               (if b \<in> local_sigjmp_buf ` set (err_ctx_stack st)
                then catch_error e d (ev = Caught True) st
                else Inl (Invalid_access ''siglongjmp'')))
      | _ \<Rightarrow> Inr st)"

text \<open>The states a run reaches when its events satisfy \<open>allowed\<close>.\<close>

inductive reachable :: "instr list \<Rightarrow> (event \<Rightarrow> bool) \<Rightarrow> PLtsql_execstate \<Rightarrow> bool"
  for code allowed where
  reach_start: "reachable code allowed start_state"
| reach_step: "reachable code allowed st \<Longrightarrow> allowed ev \<Longrightarrow> exec_step code ev st = Inr st' \<Longrightarrow>
     reachable code allowed st'"

section \<open>TRY...CATCH of the callers\<close>

text \<open>
  \<open>is_part_of_pltsql_trycatch_block\<close> looks at the contexts of this and of all calling
  batches, innermost first.
\<close>

fun is_part_of_pltsql_trycatch_block :: "PLtsql_errctx list list \<Rightarrow> bool" where
  "is_part_of_pltsql_trycatch_block [] = False"
| "is_part_of_pltsql_trycatch_block (cs # callers) =
     (if length cs > 1 then True
      else if length cs = 1 \<and> \<not> partial_restored (cs ! 0) then True
      else is_part_of_pltsql_trycatch_block callers)"

section \<open>Well-formed context stacks\<close>

abbreviation active :: "PLtsql_errctx \<Rightarrow> bool" where
  "active c \<equiv> \<not> partial_restored c"

definition last_active :: "PLtsql_errctx list \<Rightarrow> nat option" where
  "last_active cs = find_active cs (length cs)"

lemma find_active_append: "n \<le> length cs \<Longrightarrow> find_active (cs @ cs') n = find_active cs n"
  by (induction n) (simp_all add: nth_append)

lemma last_active_simps [simp]:
  "last_active [] = None"
  "last_active (cs @ [c]) = (if active c then Some (length cs) else last_active cs)"
  by (simp_all add: last_active_def find_active_append)

lemma last_active_dangling:
  "(\<forall>c \<in> set cs2. partial_restored c) \<Longrightarrow> last_active (cs @ cs2) = last_active cs"
  by (induction cs2 rule: rev_induct) (simp_all flip: append_assoc)

lemma last_active_None: "last_active cs = None \<longleftrightarrow> (\<forall>c \<in> set cs. partial_restored c)"
  by (induction cs rule: rev_induct) auto

lemma last_active_SomeE:
  assumes "last_active cs = Some i"
  obtains cs1 c cs2 where "cs = cs1 @ c # cs2" "active c" "length cs1 = i"
    "\<forall>c' \<in> set cs2. partial_restored c'"
proof -
  have "\<exists>cs1 c cs2. cs = cs1 @ c # cs2 \<and> active c \<and> length cs1 = i \<and>
      (\<forall>c' \<in> set cs2. partial_restored c')"
    using assms
  proof (induction cs rule: rev_induct)
    case (snoc c cs)
    show ?case
    proof (cases "active c")
      case True
      with snoc.prems show ?thesis by (intro exI [of _ cs] exI [of _ c] exI [of _ "[]"]) simp
    next
      case False
      with snoc obtain cs1 c1 cs2 where "cs = cs1 @ c1 # cs2" "active c1" "length cs1 = i"
        "\<forall>c' \<in> set cs2. partial_restored c'" by auto
      with False show ?thesis
        by (intro exI [of _ cs1] exI [of _ c1] exI [of _ "cs2 @ [c]"]) auto
    qed
  qed simp
  with that show ?thesis by blast
qed

text \<open>The buffer errors go to: that of the last active context.\<close>

definition top_buf :: "PLtsql_errctx list \<Rightarrow> jmp_buf" where
  "top_buf cs =
     (case last_active cs of None \<Rightarrow> Outer | Some i \<Rightarrow> Local (local_sigjmp_buf (cs ! i)))"

lemma last_active_less: "last_active cs = Some i \<Longrightarrow> i < length cs"
  by (auto elim!: last_active_SomeE)

lemma top_buf_simps [simp]:
  "top_buf [] = Outer"
  "top_buf (cs @ [c]) = (if active c then Local (local_sigjmp_buf c) else top_buf cs)"
  by (auto simp: top_buf_def nth_append dest: last_active_less split: option.splits)

text \<open>
  The error a context saved is the one that was current around it: inside of a TRY block
  nothing changes it, a CATCH block has its own.
\<close>

fun err_chain :: "PLtsql_estate_err \<Rightarrow> PLtsql_errctx list \<Rightarrow> PLtsql_estate_err \<Rightarrow> bool" where
  "err_chain E [] cur \<longleftrightarrow> cur = E"
| "err_chain E (c # cs) cur \<longleftrightarrow>
     save_cur_error c = E \<and> (if active c then err_chain E cs cur else \<exists>E'. err_chain E' cs cur)"

lemma err_chain_snoc [simp]:
  "err_chain E (cs @ [c]) cur \<longleftrightarrow>
     err_chain E cs (save_cur_error c) \<and> (active c \<longrightarrow> cur = save_cur_error c)"
  by (induction cs arbitrary: E) auto

text \<open>
  One context per enclosing block: active on the TRY side, partially restored on the CATCH
  side. An active context leads to the CATCH side of its block and remembers the buffer of
  the next active one.
\<close>

definition ctx_ok ::
  "(label \<Rightarrow> nat) \<Rightarrow> (nat \<Rightarrow> blocks) \<Rightarrow> nat \<Rightarrow> blocks \<Rightarrow> PLtsql_errctx list \<Rightarrow>
     TryCatchInfo \<Rightarrow> PLtsql_errctx \<Rightarrow> bool" where
  "ctx_ok P G len T cs t c \<longleftrightarrow>
     (active c \<longleftrightarrow> in_try_block t) \<and>
     (active c \<longrightarrow> save_exception_stack c = top_buf cs \<and>
        (\<exists>m. tc_stmt t = addr m \<and> ctx_target_pc c = int (P (CATCH_BEGIN m)) \<and>
           P (CATCH_BEGIN m) \<le> len \<and>
           G (P (CATCH_BEGIN m)) = T @ [TryCatchInfo (addr m) False]))"

definition stack_typed ::
  "(label \<Rightarrow> nat) \<Rightarrow> (nat \<Rightarrow> blocks) \<Rightarrow> nat \<Rightarrow> blocks \<Rightarrow> PLtsql_errctx list \<Rightarrow> bool" where
  "stack_typed P G len T cs \<longleftrightarrow>
     length cs = length T \<and>
     (\<forall>i < length cs. ctx_ok P G len (take i T) (take i cs) (T ! i) (cs ! i))"

lemma stack_typed_Nil [simp]: "stack_typed P G len [] cs \<longleftrightarrow> cs = []"
  by (auto simp: stack_typed_def)

lemma stack_typed_snoc [simp]:
  "stack_typed P G len (T @ [t]) (cs @ [c]) \<longleftrightarrow>
     stack_typed P G len T cs \<and> ctx_ok P G len T cs t c"
  by (auto simp: stack_typed_def nth_append less_Suc_eq)

lemma stack_typed_snocE:
  assumes "stack_typed P G len (T @ [t]) cs"
  obtains cs' c where "cs = cs' @ [c]" "stack_typed P G len T cs'" "ctx_ok P G len T cs' t c"
proof -
  have "cs \<noteq> []" using assms by (auto simp: stack_typed_def)
  then obtain cs' c where cs: "cs = cs' @ [c]" by (metis rev_exhaust)
  with assms show ?thesis using that [of cs' c] by simp
qed

definition state_ok ::
  "(label \<Rightarrow> nat) \<Rightarrow> (nat \<Rightarrow> blocks) \<Rightarrow> nat \<Rightarrow> blocks \<Rightarrow> PLtsql_execstate \<Rightarrow> bool" where
  "state_ok P G len T st \<longleftrightarrow>
     stack_typed P G len T (err_ctx_stack st) \<and>
     err_chain no_error (err_ctx_stack st) (cur_error st) \<and>
     PG_exception_stack st = top_buf (err_ctx_stack st) \<and>
     (\<forall>i. last_active (err_ctx_stack st) = Some i \<longrightarrow> cur_err_ctx_idx st = i)"

lemma state_ok_frame [simp]:
  "state_ok P G len T (st\<lparr>pc := p\<rparr>) = state_ok P G len T st"
  "state_ok P G len T (st\<lparr>mode := md\<rparr>) = state_ok P G len T st"
  "state_ok P G len T (st\<lparr>freed := fs\<rparr>) = state_ok P G len T st"
  by (simp_all add: state_ok_def)

lemma state_ok_start: "state_ok P G len [] start_state"
  by (simp add: state_ok_def start_state_def)

section \<open>Each operation keeps the stack well-formed\<close>

lemma save_ctx_ok:
  assumes "state_ok P G len T st"
    and "t = int (P (CATCH_BEGIN m))" "P (CATCH_BEGIN m) \<le> len"
    and "G (P (CATCH_BEGIN m)) = T @ [TryCatchInfo (addr m) False]"
  shows "state_ok P G len (T @ [TryCatchInfo (addr m) True]) (save_ctx t st)"
  using assms by (auto simp: state_ok_def save_ctx_def create_error_ctx_def ctx_ok_def Let_def)

lemma restore_ctx_full_ok:
  assumes ok: "state_ok P G len (T @ [TryCatchInfo a True]) st"
  obtains st' where "restore_ctx_full st = Inr st'" "state_ok P G len T st'"
    "pc st' = pc st" "mode st' = mode st" "freed st' = freed st"
proof -
  from ok obtain cs c where cs: "err_ctx_stack st = cs @ [c]" "stack_typed P G len T cs"
    "ctx_ok P G len T cs (TryCatchInfo a True) c"
    by (auto simp: state_ok_def elim: stack_typed_snocE)
  with ok have act: "active c" and idx: "cur_err_ctx_idx st = length cs"
    and err: "save_cur_error c = cur_error st" "err_chain no_error cs (save_cur_error c)"
    and exc: "save_exception_stack c = top_buf cs"
    by (auto simp: state_ok_def ctx_ok_def)
  let ?st = "st\<lparr>PG_exception_stack := save_exception_stack c, err_ctx_stack := cs\<rparr>"
  have "restore_ctx_full st = Inr (set_active_idx ?st)"
    by (simp add: restore_ctx_full_def errctx_at_def cs(1) idx err(1) Let_def)
  moreover have "state_ok P G len T (set_active_idx ?st)"
    using cs(2) err exc idx
    by (auto simp: state_ok_def set_active_idx_def last_active_def split: option.splits)
  ultimately show ?thesis
    using that by (simp add: set_active_idx_def split: option.splits)
qed

lemma restore_ctx_partial2_ok:
  assumes ok: "state_ok P G len (T @ [TryCatchInfo a False]) st"
    and step: "restore_ctx_partial2 st = Inr st'"
  shows "state_ok P G len T st' \<and> pc st' = pc st \<and> mode st' = mode st"
proof -
  from ok obtain cs c where cs: "err_ctx_stack st = cs @ [c]" "stack_typed P G len T cs"
    "ctx_ok P G len T cs (TryCatchInfo a False) c"
    by (auto simp: state_ok_def elim: stack_typed_snocE)
  with ok step show ?thesis
    by (auto simp: state_ok_def ctx_ok_def restore_ctx_partial2_def pfree_string_def Let_def
        split: option.splits if_splits)
qed

lemma restore_ctx_partial2_frame:
  "restore_ctx_partial2 st = Inr st' \<Longrightarrow>
     err_ctx_stack st' = butlast (err_ctx_stack st) \<and> cur_err_ctx_idx st' = cur_err_ctx_idx st"
  by (auto simp: restore_ctx_partial2_def pfree_string_def Let_def split: option.splits if_splits)

lemma cleanup_dangling_ok:
  assumes "state_ok P G len (T @ T2) st" and "\<forall>t \<in> set T2. \<not> in_try_block t"
    and "cleanup_dangling (length T2) st = Inr st'"
  shows "state_ok P G len T st' \<and> pc st' = pc st \<and> mode st' = mode st \<and>
    err_ctx_stack st' = take (length T) (err_ctx_stack st) \<and> cur_err_ctx_idx st' = cur_err_ctx_idx st"
  using assms
proof (induction T2 arbitrary: st rule: rev_induct)
  case Nil
  then show ?case by (simp add: state_ok_def stack_typed_def)
next
  case (snoc t T2)
  then obtain a where t: "t = TryCatchInfo a False"
    by (cases t) auto
  from snoc.prems(3) obtain st1 where st1: "restore_ctx_partial2 st = Inr st1"
    and rest: "cleanup_dangling (length T2) st1 = Inr st'"
    by (auto simp: and_then_Inr_iff)
  have len: "length (err_ctx_stack st) = length T + length T2 + 1"
    using snoc.prems(1) by (simp add: state_ok_def stack_typed_def)
  have "state_ok P G len (T @ T2) st1 \<and> pc st1 = pc st \<and> mode st1 = mode st"
    using restore_ctx_partial2_ok [OF _ st1, of P G len "T @ T2" a] snoc.prems(1) t by simp
  with snoc.IH [of st1] snoc.prems(2) rest restore_ctx_partial2_frame [OF st1] len show ?case
    by (simp add: butlast_conv_take min_def)
qed

text \<open>With a local buffer to jump to, there is an innermost TRY block among the enclosing ones.\<close>

lemma innermost_try:
  assumes ok: "state_ok P G len T st" and jump: "PG_exception_stack st = Local b"
  obtains T1 m T2 cs1 c cs2 where "T = (T1 @ [TryCatchInfo (addr m) True]) @ T2"
    "\<forall>t \<in> set T2. \<not> in_try_block t" "err_ctx_stack st = cs1 @ c # cs2" "active c"
    "cur_err_ctx_idx st = length cs1" "length T1 = length cs1" "length T2 = length cs2"
    "ctx_target_pc c = int (P (CATCH_BEGIN m))" "P (CATCH_BEGIN m) \<le> len"
    "G (P (CATCH_BEGIN m)) = T1 @ [TryCatchInfo (addr m) False]"
    "b = local_sigjmp_buf c"
proof -
  from ok jump obtain i where last: "last_active (err_ctx_stack st) = Some i"
    and idx: "cur_err_ctx_idx st = i"
    by (auto simp: state_ok_def top_buf_def split: option.splits)
  then obtain cs1 c cs2 where cs: "err_ctx_stack st = cs1 @ c # cs2" "active c" "length cs1 = i"
    "\<forall>c' \<in> set cs2. partial_restored c'"
    by (auto elim: last_active_SomeE)
  have buf: "b = local_sigjmp_buf c"
    using ok jump last cs by (auto simp: state_ok_def top_buf_def)
  have lenT: "length T = length cs1 + 1 + length cs2"
    using ok cs(1) by (simp add: state_ok_def stack_typed_def)
  have ctx: "ctx_ok P G len (take j T) (take j (err_ctx_stack st)) (T ! j) (err_ctx_stack st ! j)"
    if "j < length T" for j
    using ok that by (auto simp: state_ok_def stack_typed_def)
  have T2: "\<not> in_try_block t" if "t \<in> set (drop (Suc i) T)" for t
  proof -
    from that obtain j where j: "j < length cs2" "t = T ! (Suc i + j)"
      using lenT cs(3) by (auto simp: in_set_conv_nth)
    then have "err_ctx_stack st ! (Suc i + j) = cs2 ! j"
      using cs(1,3) by (auto simp: nth_append)
    with ctx [of "Suc i + j"] j cs(3,4) lenT show ?thesis
      by (auto simp: ctx_ok_def)
  qed
  from ctx [of i] cs lenT obtain m where m: "T ! i = TryCatchInfo (addr m) True"
    "ctx_target_pc c = int (P (CATCH_BEGIN m))" "P (CATCH_BEGIN m) \<le> len"
    "G (P (CATCH_BEGIN m)) = take i T @ [TryCatchInfo (addr m) False]"
    by (cases "T ! i") (auto simp: ctx_ok_def nth_append)
  have "T = (take i T @ [TryCatchInfo (addr m) True]) @ drop (Suc i) T"
    using m(1) lenT cs(3) id_take_nth_drop [of i T] by simp
  moreover have "length (take i T) = length cs1" "length (drop (Suc i) T) = length cs2"
    using lenT cs(3) by simp_all
  ultimately show ?thesis
    using that [of "take i T" m "drop (Suc i) T" cs1 c cs2] T2 m cs idx buf by simp
qed

text \<open>
  Catching an error: the contexts of inner CATCH blocks are dropped, that of the innermost
  enclosing TRY block becomes the context of its CATCH side.
\<close>

lemma catch_error_ok:
  assumes ok: "state_ok P G len T st" and jump: "PG_exception_stack st = Local b"
    and step: "catch_error e d ignore st = Inr st'"
  obtains T1 m T2 where "T = (T1 @ [TryCatchInfo (addr m) True]) @ T2"
    "\<forall>t \<in> set T2. \<not> in_try_block t"
    "state_ok P G len (T1 @ [TryCatchInfo (addr m) False]) st'"
    "G (P (CATCH_BEGIN m)) = T1 @ [TryCatchInfo (addr m) False]" "P (CATCH_BEGIN m) \<le> len"
    "if ignore then mode st' = mode st
     else mode st' = Running \<and> pc st' = size_t_add (size_t_of_int (int (P (CATCH_BEGIN m)) - 1)) 1"
    "ee_error (cur_error st') = Some e"
proof -
  obtain T1 m T2 cs1 c cs2 where T: "T = (T1 @ [TryCatchInfo (addr m) True]) @ T2"
    and T2: "\<forall>t \<in> set T2. \<not> in_try_block t" and cs: "err_ctx_stack st = cs1 @ c # cs2" "active c"
    and idx: "cur_err_ctx_idx st = length cs1" and len: "length T1 = length cs1" "length T2 = length cs2"
    and m: "ctx_target_pc c = int (P (CATCH_BEGIN m))" "P (CATCH_BEGIN m) \<le> len"
      "G (P (CATCH_BEGIN m)) = T1 @ [TryCatchInfo (addr m) False]"
    by (rule innermost_try [OF ok jump])
  have n: "length (err_ctx_stack st) - 1 - cur_err_ctx_idx st = length T2"
    using cs(1) idx len by simp
  from step obtain st1 st2 where st1: "cleanup_dangling (length T2) st = Inr st1"
    and st2: "restore_ctx_partial1 st1 = Inr st2"
    and st': "st' = (let st = st2\<lparr>cur_error := \<lparr>ee_error = Some e, ee_procedure = error_procedure d,
                   ee_number = error_number d, ee_severity = error_severity d,
                   ee_state = error_state d\<rparr>\<rparr>;
         st = jump_to (ctx_target_pc c) st;
         st = set_active_idx st
     in if ignore then st else next_round (st\<lparr>mode := Running\<rparr>))"
    using cs(1) idx unfolding catch_error_def n
    by (auto simp: and_then_Inr_iff errctx_at_def Let_def)
  have ok1: "state_ok P G len (T1 @ [TryCatchInfo (addr m) True]) st1" "mode st1 = mode st"
    "err_ctx_stack st1 = cs1 @ [c]" "cur_err_ctx_idx st1 = length cs1"
    using cleanup_dangling_ok [OF _ T2 st1, of P G len "T1 @ [TryCatchInfo (addr m) True]"]
      ok T cs(1) len idx by simp_all
  have st2_eq: "st2 = st1\<lparr>PG_exception_stack := save_exception_stack c,
      err_ctx_stack := cs1 @ [c\<lparr>partial_restored := True\<rparr>]\<rparr>"
    using st2 ok1(3,4) by (simp add: restore_ctx_partial1_def errctx_at_def)
  with ok1 cs(2) have "state_ok P G len (T1 @ [TryCatchInfo (addr m) False]) st'"
    unfolding st' by (auto simp: state_ok_def Let_def next_round_def set_active_idx_def jump_to_def
        last_active_def ctx_ok_def find_active_append split: option.splits)
  moreover have "(if ignore then mode st' = mode st
     else mode st' = Running \<and> pc st' = size_t_add (size_t_of_int (int (P (CATCH_BEGIN m)) - 1)) 1) \<and>
     ee_error (cur_error st') = Some e"
    using m(1) ok1(2) st2_eq unfolding st'
    by (auto simp: Let_def next_round_def set_active_idx_def jump_to_def split: option.splits)
  ultimately show ?thesis
    using that [of T1 m T2] T T2 m by simp
qed

section \<open>What can go wrong\<close>

text \<open>
  On a well-formed stack the only invalid access is to release a procedure name twice: the
  context exists, the assertion on the saved error holds and the jump buffer is alive.
\<close>

abbreviation double_pfree :: pg_error where
  "double_pfree \<equiv> Invalid_access ''pfree''"

lemma restore_ctx_partial2_error:
  assumes "err_ctx_stack st \<noteq> []" and "restore_ctx_partial2 st = Inl e"
  shows "e = double_pfree"
  using assms by (auto simp: restore_ctx_partial2_def pfree_string_def Let_def
      split: option.splits if_splits)

lemma cleanup_dangling_error:
  "n \<le> length (err_ctx_stack st) \<Longrightarrow> cleanup_dangling n st = Inl e \<Longrightarrow> e = double_pfree"
proof (induction n arbitrary: st)
  case (Suc n)
  then have ne: "err_ctx_stack st \<noteq> []" by auto
  show ?case
  proof (cases "restore_ctx_partial2 st")
    case (Inl e')
    with Suc.prems(2) restore_ctx_partial2_error [OF ne] show ?thesis by auto
  next
    case (Inr st1)
    with Suc.prems restore_ctx_partial2_frame [OF Inr] show ?thesis
      by (intro Suc.IH [of st1]) simp_all
  qed
qed simp

lemma cleanup_dangling_frame:
  "cleanup_dangling n st = Inr st' \<Longrightarrow>
     length (err_ctx_stack st') = length (err_ctx_stack st) - n \<and>
     cur_err_ctx_idx st' = cur_err_ctx_idx st"
  by (induction n arbitrary: st) (auto simp: and_then_Inr_iff dest!: restore_ctx_partial2_frame)

lemma catch_error_error:
  assumes "cur_err_ctx_idx st < length (err_ctx_stack st)" and "catch_error e d ignore st = Inl err"
  shows "err = double_pfree"
proof (cases "cleanup_dangling (length (err_ctx_stack st) - 1 - cur_err_ctx_idx st) st")
  case (Inl e')
  with assms cleanup_dangling_error [OF _ Inl] show ?thesis
    by (simp add: catch_error_def errctx_at_def)
next
  case (Inr st1)
  with assms cleanup_dangling_frame [OF Inr] show ?thesis
    by (auto simp: catch_error_def errctx_at_def restore_ctx_partial1_def Let_def)
qed

text \<open>Without procedure names, as in a batch, nothing is released.\<close>

definition nameless :: "event \<Rightarrow> bool" where
  "nameless ev \<longleftrightarrow> (case ev of Raises e d \<Rightarrow> error_procedure d = None | _ \<Rightarrow> True)"

definition no_names :: "PLtsql_execstate \<Rightarrow> bool" where
  "no_names st \<longleftrightarrow>
     (\<forall>c \<in> set (err_ctx_stack st). ee_procedure (save_cur_error c) = None) \<and>
     ee_procedure (cur_error st) = None \<and>
     (case mode st of Jumping e d \<Rightarrow> error_procedure d = None | _ \<Rightarrow> True)"

lemma no_names_partial2:
  assumes "no_names st"
  shows "restore_ctx_partial2 st \<noteq> Inl double_pfree"
    and "restore_ctx_partial2 st = Inr st' \<Longrightarrow> no_names st' \<and> mode st' = mode st"
  using assms
  by (auto simp: no_names_def restore_ctx_partial2_def pfree_string_def Let_def
      dest!: in_set_butlastD split: option.splits if_splits)

lemma no_names_cleanup:
  assumes "no_names st"
  shows "cleanup_dangling n st \<noteq> Inl double_pfree"
    and "cleanup_dangling n st = Inr st' \<Longrightarrow> no_names st' \<and> mode st' = mode st"
proof -
  have "cleanup_dangling n st \<noteq> Inl double_pfree \<and>
      (\<forall>st'. cleanup_dangling n st = Inr st' \<longrightarrow> no_names st' \<and> mode st' = mode st)"
    using assms
  proof (induction n arbitrary: st)
    case (Suc n)
    show ?case
    proof (cases "restore_ctx_partial2 st")
      case (Inl e)
      with no_names_partial2(1) [OF Suc.prems] show ?thesis by simp
    next
      case (Inr st1)
      with Suc.IH [of st1] no_names_partial2(2) [OF Suc.prems Inr] show ?thesis by simp
    qed
  qed simp
  then show "cleanup_dangling n st \<noteq> Inl double_pfree"
    and "cleanup_dangling n st = Inr st' \<Longrightarrow> no_names st' \<and> mode st' = mode st"
    by auto
qed

lemma no_names_set_active [simp]: "no_names (set_active_idx st) = no_names st"
  by (simp add: no_names_def set_active_idx_def split: option.splits)

lemma no_names_frame [simp]:
  "no_names (st\<lparr>pc := p\<rparr>) = no_names st"
  "no_names (st\<lparr>cur_err_ctx_idx := j\<rparr>) = no_names st"
  "no_names (st\<lparr>PG_exception_stack := b\<rparr>) = no_names st"
  by (simp_all add: no_names_def)

lemma no_names_catch:
  assumes "no_names st" and "mode st = Jumping e d"
  shows "catch_error e d ignore st \<noteq> Inl double_pfree"
    and "catch_error e d ignore st = Inr st' \<Longrightarrow> no_names st'"
proof -
  let ?n = "length (err_ctx_stack st) - 1 - cur_err_ctx_idx st"
  show "catch_error e d ignore st \<noteq> Inl double_pfree"
    using no_names_cleanup(1) [OF assms(1), of ?n]
    by (auto simp: catch_error_def errctx_at_def restore_ctx_partial1_def Let_def and_then_def
        split: sum.splits if_splits)
  assume "catch_error e d ignore st = Inr st'"
  then obtain st1 st2 where st1: "cleanup_dangling ?n st = Inr st1"
    and st2: "restore_ctx_partial1 st1 = Inr st2"
    and st': "st' = st2\<lparr>cur_error := cur_error st', pc := pc st', mode := mode st',
        cur_err_ctx_idx := cur_err_ctx_idx st'\<rparr>"
      "ee_procedure (cur_error st') = error_procedure d" "mode st' = mode st2 \<or> mode st' = Running"
    by (auto simp: catch_error_def and_then_Inr_iff Let_def next_round_def set_active_idx_def
        jump_to_def split: option.splits)
  have "no_names st1" "mode st1 = Jumping e d"
    using no_names_cleanup(2) [OF assms(1) st1] assms(2) by auto
  then have "no_names st2" "mode st2 = Jumping e d" "error_procedure d = None"
    using st2 by (auto simp: restore_ctx_partial1_def errctx_at_def no_names_def
        dest!: set_update_subset_insert [THEN subsetD] split: if_splits)
  then show "no_names st'"
    using st'(2,3) by (subst st'(1)) (auto simp: no_names_def)
qed

lemma no_names_save: "no_names st \<Longrightarrow> mode st = Running \<Longrightarrow> no_names (save_ctx t st)"
  by (auto simp: no_names_def save_ctx_def create_error_ctx_def Let_def)

lemma no_names_full:
  assumes "no_names st"
  shows "restore_ctx_full st \<noteq> Inl double_pfree"
    and "restore_ctx_full st = Inr st' \<Longrightarrow> no_names st'"
proof -
  show "restore_ctx_full st \<noteq> Inl double_pfree"
    by (simp add: restore_ctx_full_def errctx_at_def Let_def)
  have "no_names (st\<lparr>PG_exception_stack := b, err_ctx_stack := butlast (err_ctx_stack st)\<rparr>)" for b
    using assms by (auto simp: no_names_def dest: in_set_butlastD)
  then show "restore_ctx_full st = Inr st' \<Longrightarrow> no_names st'"
    by (auto simp: restore_ctx_full_def errctx_at_def Let_def split: if_splits)
qed

lemma no_names_goto: "no_names st \<Longrightarrow> no_names (exec_stmt_goto cond t ev st)"
  by (simp add: exec_stmt_goto_def jump_to_def split: option.splits event.splits)

lemma no_names_step:
  assumes st: "no_names st" and ev: "nameless ev"
  shows "exec_step code ev st \<noteq> Inl double_pfree"
    and "exec_step code ev st = Inr st' \<Longrightarrow> no_names st'"
proof -
  have "exec_step code ev st \<noteq> Inl double_pfree \<and>
      (\<forall>st'. exec_step code ev st = Inr st' \<longrightarrow> no_names st')"
  proof (cases "mode st")
    case Running
    let ?round = "\<lambda>i. case i of
                 Exec_save_ctx ln l t \<Rightarrow> Inr (save_ctx t st)
               | Exec_restore_ctx_full ln \<Rightarrow> restore_ctx_full st
               | Exec_restore_ctx_partial ln \<Rightarrow> restore_ctx_partial2 st
               | Exec_goto ln cond l t \<Rightarrow> Inr (exec_stmt_goto cond t ev st)
               | _ \<Rightarrow> Inr st"
    have round: "?round i \<noteq> Inl double_pfree" "?round i = Inr st1 \<Longrightarrow> no_names st1" for i st1
      using no_names_save [OF st Running] no_names_full [OF st] no_names_partial2 [OF st]
        no_names_goto [OF st] st
      by (cases i; auto)+
    have "and_then (fetch code (pc st)) (\<lambda>i. and_then (?round i) (\<lambda>st. Inr (next_round st)))
        \<noteq> Inl double_pfree"
      using round(1) by (auto simp: fetch_def Let_def and_then_def split: sum.splits)
    moreover have "no_names st'"
      if "and_then (fetch code (pc st)) (\<lambda>i. and_then (?round i) (\<lambda>st. Inr (next_round st))) = Inr st'"
      for st'
      using that round(2) by (auto simp: and_then_Inr_iff next_round_def)
    ultimately show ?thesis
      using Running st ev
      by (auto simp: exec_step_def no_names_def nameless_def split: event.splits)
  next
    case (Jumping e d)
    then show ?thesis
      using no_names_catch [OF st Jumping] st
      by (auto simp: exec_step_def no_names_def split: jmp_buf.splits)
  qed (use st in \<open>simp_all add: exec_step_def\<close>)
  then show "exec_step code ev st \<noteq> Inl double_pfree"
    and "exec_step code ev st = Inr st' \<Longrightarrow> no_names st'" by auto
qed

section \<open>Executing typed code\<close>

lemma size_t_jump:
  assumes "p \<le> 2147483647"
  shows "size_t_add (size_t_of_int (int p - 1)) (Suc 0) = p"
proof (cases p)
  case (Suc q)
  with assms show ?thesis by (simp add: size_t_of_int_def size_t_add_def)
qed (simp add: size_t_of_int_def size_t_add_def)

lemma size_t_next: "p < 2147483647 \<Longrightarrow> size_t_add p (Suc 0) = Suc p"
  by (simp add: size_t_add_def)

lemma fetch_eq: "p < length code \<Longrightarrow> length code \<le> 2147483647 \<Longrightarrow> fetch code p = Inr (code ! p)"
  by (simp add: fetch_def size_t_of_int_def int32_iff)

definition exec_inv ::
  "(label \<Rightarrow> nat) \<Rightarrow> (nat \<Rightarrow> blocks) \<Rightarrow> instr list \<Rightarrow> PLtsql_execstate \<Rightarrow> bool" where
  "exec_inv P G code st \<longleftrightarrow>
     (case mode st of
        Running \<Rightarrow> pc st \<le> length code \<and> state_ok P G (length code) (G (pc st)) st
      | Jumping e d \<Rightarrow> (\<exists>T. state_ok P G (length code) T st)
      | Finished \<Rightarrow> state_ok P G (length code) [] st
      | Failed e \<Rightarrow> (\<exists>T. state_ok P G (length code) T st) \<and> PG_exception_stack st = Outer)"

text \<open>
  What the executor relies on: for the programs \<open>p\<close> that are \<open>ok\<close>, code that is typed and
  short enough for its positions.
\<close>

locale typed_compiler =
  fixes ok :: "'p \<Rightarrow> bool"
    and code :: "'p \<Rightarrow> instr list"
    and pos :: "'p \<Rightarrow> label \<Rightarrow> nat"
    and node_blocks :: "'p \<Rightarrow> nat \<Rightarrow> blocks"
    and pc_blocks :: "'p \<Rightarrow> nat \<Rightarrow> blocks"
  assumes typed: "ok p \<Longrightarrow> typed_code (pos p) (node_blocks p) (pc_blocks p) (code p)"
    and small: "ok p \<Longrightarrow> length (code p) \<le> 2147483647"
begin

abbreviation invariant :: "'p \<Rightarrow> PLtsql_execstate \<Rightarrow> bool" where
  "invariant p \<equiv> exec_inv (pos p) (pc_blocks p) (code p)"

lemma typed_at:
  "ok p \<Longrightarrow> k < length (code p) \<Longrightarrow>
     typed_instr (pos p) (node_blocks p) (pc_blocks p) (length (code p)) k (code p ! k)"
  using typed by (auto simp: typed_code_def)

lemma start_invariant: "ok p \<Longrightarrow> invariant p start_state"
  using typed [of p] state_ok_start by (simp add: exec_inv_def typed_code_def start_state_def)

text \<open>One round of the loop that raises nothing.\<close>

lemma round_invariant:
  assumes p: "ok p" and ok: "state_ok (pos p) (pc_blocks p) (length (code p)) (pc_blocks p (pc st)) st"
    and running: "mode st = Running" "pc st < length (code p)"
    and i: "code p ! pc st = i"
    and step: "and_then (case i of
                 Exec_save_ctx ln l t \<Rightarrow> Inr (save_ctx t st)
               | Exec_restore_ctx_full ln \<Rightarrow> restore_ctx_full st
               | Exec_restore_ctx_partial ln \<Rightarrow> restore_ctx_partial2 st
               | Exec_goto ln cond l t \<Rightarrow> Inr (exec_stmt_goto cond t ev st)
               | _ \<Rightarrow> Inr st) (\<lambda>st. Inr (next_round st)) = Inr st'"
  shows "invariant p st'"
proof -
  note ti = typed_at [OF p running(2), unfolded i]
  have len: "length (code p) \<le> 2147483647" by (rule small [OF p])
  have next_pc: "size_t_add (pc st) (Suc 0) = Suc (pc st)"
    using running(2) len by (intro size_t_next) simp
  show ?thesis
  proof (cases i)
    case (Exec_goto ln cond l t)
    let ?q = "pos p (label_key l)"
    have q: "t = int ?q" "?q \<le> length (code p)" "pc_blocks p ?q = pc_blocks p (pc st)"
      using ti Exec_goto by (simp_all add: typed_instr_def)
    with len have "size_t_add (size_t_of_int (t - 1)) (Suc 0) = ?q"
      by (simp add: size_t_jump)
    with q ti Exec_goto step ok running next_pc show ?thesis
      by (auto simp: typed_instr_def exec_inv_def exec_stmt_goto_def next_round_def jump_to_def
          split: option.splits event.splits if_splits)
  next
    case (Exec_save_ctx ln l t)
    with ti obtain m where m: "l = CATCH_BEGIN m" "t = int (pos p l)" "pos p l \<le> length (code p)"
      "pc_blocks p (Suc (pc st)) = pc_blocks p (pc st) @ [TryCatchInfo (addr m) True]"
      "pc_blocks p (pos p l) = pc_blocks p (pc st) @ [TryCatchInfo (addr m) False]"
      by (auto simp: typed_instr_def)
    from save_ctx_ok [OF ok, of t m] m step Exec_save_ctx running next_pc show ?thesis
      by (auto simp: exec_inv_def next_round_def save_ctx_def Let_def)
  next
    case (Exec_restore_ctx_full ln)
    with ti obtain a where a: "pc_blocks p (pc st) = pc_blocks p (Suc (pc st)) @ [TryCatchInfo a True]"
      by (auto simp: typed_instr_def)
    with ok obtain st1 where "restore_ctx_full st = Inr st1" "mode st1 = mode st" "pc st1 = pc st"
      "state_ok (pos p) (pc_blocks p) (length (code p)) (pc_blocks p (Suc (pc st))) st1"
      by (metis restore_ctx_full_ok)
    with step Exec_restore_ctx_full running next_pc show ?thesis
      by (auto simp: exec_inv_def next_round_def)
  next
    case (Exec_restore_ctx_partial ln)
    with ti obtain a where a: "pc_blocks p (pc st) = pc_blocks p (Suc (pc st)) @ [TryCatchInfo a False]"
      by (auto simp: typed_instr_def)
    from step Exec_restore_ctx_partial obtain st1 where st1: "restore_ctx_partial2 st = Inr st1"
      "st' = next_round st1"
      by (auto simp: and_then_Inr_iff)
    with restore_ctx_partial2_ok [OF ok [unfolded a] st1(1)] running next_pc show ?thesis
      by (auto simp: exec_inv_def next_round_def)
  qed (use ti ok step running next_pc in \<open>auto simp: typed_instr_def exec_inv_def next_round_def\<close>)
qed

lemma step_invariant:
  assumes p: "ok p" and inv: "invariant p st" and step: "exec_step (code p) ev st = Inr st'"
  shows "invariant p st'"
proof (cases "mode st")
  case Running
  with inv have ok: "pc st \<le> length (code p)"
    "state_ok (pos p) (pc_blocks p) (length (code p)) (pc_blocks p (pc st)) st"
    by (simp_all add: exec_inv_def)
  show ?thesis
  proof (cases "pc st < length (code p)")
    case True
    note fetch = fetch_eq [OF True small [OF p]]
    show ?thesis
    proof (cases "\<exists>e d. ev = Raises e d")
      case True
      with Running \<open>pc st < length (code p)\<close> step ok(2) show ?thesis
        by (auto simp: exec_step_def exec_inv_def intro!: exI [of _ "pc_blocks p (pc st)"])
    next
      case False
      with step Running True show ?thesis
        by (intro round_invariant [OF p ok(2) Running True refl, of ev])
           (auto simp: exec_step_def fetch split: event.splits)
    qed
  next
    case False
    with ok(1) have "pc st = length (code p)" by simp
    with ok(2) typed [OF p] Running step show ?thesis
      by (auto simp: exec_step_def exec_inv_def typed_code_def)
  qed
next
  case (Jumping e d)
  with inv obtain T where T: "state_ok (pos p) (pc_blocks p) (length (code p)) T st"
    by (auto simp: exec_inv_def)
  show ?thesis
  proof (cases "PG_exception_stack st")
    case Outer
    with Jumping T step show ?thesis by (auto simp: exec_step_def exec_inv_def)
  next
    case (Local b)
    with Jumping step have "catch_error e d (ev = Caught True) st = Inr st'"
      by (simp add: exec_step_def split: if_splits)
    then show ?thesis
      by (rule catch_error_ok [OF T Local])
         (use small [OF p] Jumping in \<open>auto simp: exec_inv_def size_t_jump split: if_splits\<close>)
  qed
qed (use inv step in \<open>simp_all add: exec_step_def exec_inv_def\<close>)

lemma reachable_invariant: "reachable (code p) allowed st \<Longrightarrow> ok p \<Longrightarrow> invariant p st"
  by (induction rule: reachable.induct) (blast intro: start_invariant step_invariant)+

text \<open>The only step that fails is a second release of a procedure name.\<close>

lemma step_error:
  assumes p: "ok p" and inv: "invariant p st" and step: "exec_step (code p) ev st = Inl e"
  shows "e = double_pfree"
proof (cases "mode st")
  case Running
  with inv have ok: "state_ok (pos p) (pc_blocks p) (length (code p)) (pc_blocks p (pc st)) st"
    by (simp add: exec_inv_def)
  have pc: "pc st < length (code p)"
    using step Running by (auto simp: exec_step_def split: if_splits)
  note ti = typed_at [OF p pc] and fetch = fetch_eq [OF pc small [OF p]]
  show ?thesis
  proof (cases "code p ! pc st")
    case (Exec_restore_ctx_full ln)
    with ti obtain a where "pc_blocks p (pc st) = pc_blocks p (Suc (pc st)) @ [TryCatchInfo a True]"
      by (auto simp: typed_instr_def)
    with ok have "state_ok (pos p) (pc_blocks p) (length (code p))
        (pc_blocks p (Suc (pc st)) @ [TryCatchInfo a True]) st" by simp
    then obtain st1 where "restore_ctx_full st = Inr st1"
      by (rule restore_ctx_full_ok)
    with step Exec_restore_ctx_full Running pc fetch show ?thesis
      by (simp add: exec_step_def split: event.splits)
  next
    case (Exec_restore_ctx_partial ln)
    with ti ok have "err_ctx_stack st \<noteq> []"
      by (auto simp: typed_instr_def state_ok_def stack_typed_def)
    moreover have "restore_ctx_partial2 st = Inl e"
      using step Exec_restore_ctx_partial Running pc fetch
      by (cases "restore_ctx_partial2 st") (auto simp: exec_step_def split: event.splits)
    ultimately show ?thesis by (rule restore_ctx_partial2_error)
  qed (use step Running pc fetch in \<open>auto simp: exec_step_def split: event.splits\<close>)
next
  case (Jumping e' d)
  with inv obtain T where T: "state_ok (pos p) (pc_blocks p) (length (code p)) T st"
    by (auto simp: exec_inv_def)
  with step Jumping obtain b where b: "PG_exception_stack st = Local b"
    by (auto simp: exec_step_def split: jmp_buf.splits)
  from innermost_try [OF T b] obtain cs1 c cs2 where "err_ctx_stack st = cs1 @ c # cs2"
    "cur_err_ctx_idx st = length cs1" "b = local_sigjmp_buf c" by metis
  with step Jumping b catch_error_error [of st e' d] show ?thesis
    by (auto simp: exec_step_def)
qed (use step in \<open>simp_all add: exec_step_def\<close>)

lemma nameless_progress:
  assumes "ok p" and "reachable (code p) nameless st" and "nameless ev"
  shows "\<exists>st'. exec_step (code p) ev st = Inr st'"
proof -
  have "no_names st"
    using assms(2)
  proof (induction rule: reachable.induct)
    case reach_start
    show ?case by (simp add: no_names_def start_state_def no_error_def)
  qed (blast intro: no_names_step(2))
  moreover have "invariant p st"
    using assms(1,2) by (blast intro: reachable_invariant)
  ultimately show ?thesis
    using no_names_step(1) assms(1,3) step_error by (cases "exec_step (code p) ev st") blast+
qed

end

section \<open>The compiler provides typed code\<close>

definition compilable :: "stmt list \<Rightarrow> bool" where
  "compilable prog \<longleftrightarrow>
     distinct (concat (map addrs prog)) \<and> accepted prog \<and> length (compiled prog) \<le> 2147483647"

text \<open>Some list of enclosing blocks for every position of the code.\<close>

definition position_blocks :: "stmt list \<Rightarrow> nat \<Rightarrow> blocks" where
  "position_blocks prog = (SOME G. typed_code (label_pc prog) (blocks_of prog) G (compiled prog))"

interpretation pltsql: typed_compiler compilable compiled label_pc blocks_of position_blocks
proof
  fix prog assume "compilable prog"
  then show "length (compiled prog) \<le> 2147483647"
    by (simp add: compilable_def)
  from \<open>compilable prog\<close> obtain G where "typed_code (label_pc prog) (blocks_of prog) G (compiled prog)"
    unfolding compilable_def by (blast elim: compiled_typed)
  then show "typed_code (label_pc prog) (blocks_of prog) (position_blocks prog) (compiled prog)"
    unfolding position_blocks_def
    by (rule someI [where P = "\<lambda>G. typed_code (label_pc prog) (blocks_of prog) G (compiled prog)"])
qed

lemma stack_typed_sides: "stack_typed P G len T cs \<Longrightarrow> map active cs = map in_try_block T"
  by (rule nth_equalityI) (auto simp: stack_typed_def ctx_ok_def)

text \<open>The state at a statement of the source.\<close>

lemma state_at_statement:
  assumes "compilable prog" and "reachable (compiled prog) allowed st" and "mode st = Running"
    and "pc st < length (compiled prog)"
    and "compiled prog ! pc st = Exec n ty \<or> compiled prog ! pc st = Exec_return n"
  shows "state_ok (label_pc prog) (position_blocks prog) (length (compiled prog))
    (blocks_of prog (addr n)) st"
  using pltsql.typed_at [OF assms(1,4)] pltsql.reachable_invariant [OF assms(2,1)] assms(3,5)
  by (auto simp: exec_inv_def typed_instr_def)

section \<open>Runs\<close>

text \<open>The state after a list of events.\<close>

fun exec_run :: "instr list \<Rightarrow> event list \<Rightarrow> PLtsql_execstate \<Rightarrow> PLtsql_execstate result" where
  "exec_run code [] st = Inr st"
| "exec_run code (ev # evs) st = and_then (exec_step code ev st) (exec_run code evs)"

lemma exec_run_reachable:
  "exec_run code evs st = Inr st' \<Longrightarrow> reachable code allowed st \<Longrightarrow> (\<forall>ev \<in> set evs. allowed ev) \<Longrightarrow>
     reachable code allowed st'"
  by (induction code evs st rule: exec_run.induct)
     (auto simp: and_then_Inr_iff intro: reach_step)

lemma exec_run_start:
  "exec_run code evs start_state = Inr st \<Longrightarrow> (\<forall>ev \<in> set evs. allowed ev) \<Longrightarrow>
     reachable code allowed st"
  using reach_start by (rule exec_run_reachable [rotated])

lemmas run_simps = exec_step_def fetch_def size_t_of_int_def size_t_add_def wrap_s_def
  next_round_def jump_to_def save_ctx_def create_error_ctx_def restore_ctx_full_def
  restore_ctx_partial1_def restore_ctx_partial2_def pfree_string_def catch_error_def
  errctx_at_def set_active_idx_def exec_stmt_goto_def start_state_def no_error_def Let_def

section \<open>Properties\<close>

text \<open>
  C1. Whatever the statements of an accepted procedure do, whenever the executor is about
  to execute a statement its stack holds exactly one error context for every TRY...CATCH
  block that encloses the statement in the source, from the outermost to the innermost:
  an active one if the statement is on the TRY side of the block, a partially restored one
  on the CATCH side. Errors will go to the last active context, or to the caller if there
  is none. When the procedure ends, by running off its end or by RETURN or GOTO from any
  depth, no context is left and the exception stack and the current error are those of the
  beginning.
\<close>

theorem exec_contexts_nest:
  assumes "compilable prog" and "reachable (compiled prog) (\<lambda>_. True) st"
  shows "(mode st = Running \<longrightarrow> pc st < length (compiled prog) \<longrightarrow>
            compiled prog ! pc st \<in> {Exec n ty, Exec_return n} \<longrightarrow>
            map active (err_ctx_stack st) = map in_try_block (blocks_of prog (addr n)) \<and>
            PG_exception_stack st = top_buf (err_ctx_stack st)) \<and>
         (mode st = Finished \<longrightarrow>
            err_ctx_stack st = [] \<and> PG_exception_stack st = Outer \<and> cur_error st = no_error)"
proof -
  have "map active (err_ctx_stack st) = map in_try_block (blocks_of prog (addr n)) \<and>
      PG_exception_stack st = top_buf (err_ctx_stack st)"
    if "mode st = Running" "pc st < length (compiled prog)"
      "compiled prog ! pc st \<in> {Exec n ty, Exec_return n}"
    using state_at_statement [OF assms that(1,2), of n ty] that(3)
    by (auto simp: state_ok_def dest: stack_typed_sides)
  moreover have "err_ctx_stack st = [] \<and> PG_exception_stack st = Outer \<and> cur_error st = no_error"
    if "mode st = Finished"
    using pltsql.reachable_invariant [OF assms(2,1)] that by (auto simp: exec_inv_def state_ok_def)
  ultimately show ?thesis by blast
qed

text \<open>A procedure with nested blocks, for the concrete runs below.\<close>

definition sample :: "stmt list" where
  "sample = [Try_catch (Node 1 1) (Leaf (Node 2 2) PLTSQL_STMT_EXECSQL)
     (Block (Node 3 3)
       [Try_catch (Node 4 4) (Leaf (Node 5 5) PLTSQL_STMT_EXECSQL) (Leaf (Node 6 6) PLTSQL_STMT_PRINT),
        Try_catch (Node 7 7) (Leaf (Node 8 8) PLTSQL_STMT_EXECSQL) (Leaf (Node 9 9) PLTSQL_STMT_PRINT)])]"

lemma compiled_sample:
  "compiled sample =
     [Exec_save_ctx 1 (CATCH_BEGIN (Node 1 1)) 4, Exec (Node 2 2) PLTSQL_STMT_EXECSQL,
      Exec_restore_ctx_full 1, Exec_goto 1 None (CATCH_END (Node 1 1)) 17,
      Exec_save_ctx 4 (CATCH_BEGIN (Node 4 4)) 8, Exec (Node 5 5) PLTSQL_STMT_EXECSQL,
      Exec_restore_ctx_full 4, Exec_goto 4 None (CATCH_END (Node 4 4)) 10,
      Exec (Node 6 6) PLTSQL_STMT_PRINT, Exec_restore_ctx_partial 4,
      Exec_save_ctx 7 (CATCH_BEGIN (Node 7 7)) 14, Exec (Node 8 8) PLTSQL_STMT_EXECSQL,
      Exec_restore_ctx_full 7, Exec_goto 7 None (CATCH_END (Node 7 7)) 16,
      Exec (Node 9 9) PLTSQL_STMT_PRINT, Exec_restore_ctx_partial 7,
      Exec_restore_ctx_partial 1]"
  by (simp add: compiled_def listing_def label_pc_def resolved_def restores_def
      create_goto_def create_save_ctx_def sample_def)

lemma compilable_sample: "compilable sample"
  unfolding compilable_def compiled_sample
  by (simp add: sample_def accepted_def walker_supports_def)

abbreviation error_in :: "nat \<Rightarrow> PLtsql_error_data" where
  "error_in p \<equiv> \<lparr>error_procedure = Some p, error_number = 1, error_severity = 16, error_state = 1\<rparr>"

text \<open>A run into the inner CATCH block: two errors, each caught.\<close>

definition nested_catch_events :: "event list" where
  "nested_catch_events =
     [Completes, Raises 50 (error_in 100), Caught False,
      Completes, Raises 51 (error_in 101), Caught False]"

definition nested_catch_state :: PLtsql_execstate where
  "nested_catch_state =
     \<lparr>pc = 8,
      err_ctx_stack =
        [\<lparr>local_sigjmp_buf = 0, save_exception_stack = Outer, save_cur_error = no_error,
          ctx_target_pc = 4, partial_restored = True\<rparr>,
         \<lparr>local_sigjmp_buf = 1, save_exception_stack = Outer,
          save_cur_error = \<lparr>ee_error = Some 50, ee_procedure = Some 100, ee_number = 1,
                            ee_severity = 16, ee_state = 1\<rparr>,
          ctx_target_pc = 8, partial_restored = True\<rparr>],
      cur_err_ctx_idx = 1, PG_exception_stack = Outer,
      cur_error = \<lparr>ee_error = Some 51, ee_procedure = Some 101, ee_number = 1,
                   ee_severity = 16, ee_state = 1\<rparr>,
      freed = [], next_buf = 2, mode = Running\<rparr>"

lemma nested_catch_run:
  "exec_run (compiled sample) nested_catch_events start_state = Inr nested_catch_state"
  by (simp add: nested_catch_events_def nested_catch_state_def compiled_sample run_simps)

theorem exec_contexts_nest_witness:
  "compilable sample \<and> reachable (compiled sample) (\<lambda>_. True) nested_catch_state \<and>
   map active (err_ctx_stack nested_catch_state)
     = map in_try_block (blocks_of sample (addr (Node 6 6))) \<and>
   map in_try_block (blocks_of sample (addr (Node 6 6))) = [False, False]"
proof -
  have reach: "reachable (compiled sample) (\<lambda>_. True) nested_catch_state"
    by (rule exec_run_start [OF nested_catch_run]) simp
  moreover have "mode nested_catch_state = Running" "pc nested_catch_state < length (compiled sample)"
    "compiled sample ! pc nested_catch_state = Exec (Node 6 6) PLTSQL_STMT_PRINT"
    by (simp_all add: nested_catch_state_def compiled_sample)
  ultimately have "map active (err_ctx_stack nested_catch_state)
     = map in_try_block (blocks_of sample (addr (Node 6 6)))"
    using exec_contexts_nest [OF compilable_sample reach, of "Node 6 6" PLTSQL_STMT_PRINT] by simp
  then show ?thesis
    using reach compilable_sample by (simp add: nested_catch_state_def)
qed



text \<open>
  C23. The executor never looks for an error context, a jump buffer or a statement that is
  not there, and the assertion on the saved error always holds; the one invalid access a
  step can make is to release a procedure name a second time. In a batch, whose errors carry
  no procedure name, every step of every run succeeds.
\<close>

theorem exec_invalid_access:
  assumes "compilable prog"
  shows "(reachable (compiled prog) allowed st \<longrightarrow> exec_step (compiled prog) ev st = Inl err \<longrightarrow>
            err = double_pfree) \<and>
         (reachable (compiled prog) nameless st \<longrightarrow> nameless ev \<longrightarrow>
            (\<exists>st'. exec_step (compiled prog) ev st = Inr st'))"
  using pltsql.step_error [OF assms pltsql.reachable_invariant [OF _ assms]]
    pltsql.nameless_progress [OF assms] by blast

theorem exec_invalid_access_witness:
  "reachable (compiled sample) nameless start_state \<and>
   (\<exists>st'. exec_step (compiled sample) Completes start_state = Inr st')"
  using exec_invalid_access [OF compilable_sample, of _ start_state Completes]
    reach_start [of "compiled sample" nameless]
  by (simp add: nameless_def)


text \<open>
  C18. \<open>is_part_of_pltsql_trycatch_block\<close> is true for every statement on the TRY side of
  some block and false for a statement outside of all blocks. But it is also true inside of
  two nested CATCH blocks with no active TRY block at all, where errors go to the caller.
\<close>

theorem trycatch_test:
  assumes "compilable prog" and "reachable (compiled prog) (\<lambda>_. True) st" and "mode st = Running"
    and "pc st < length (compiled prog)" and "compiled prog ! pc st \<in> {Exec n ty, Exec_return n}"
  shows "is_part_of_pltsql_trycatch_block [err_ctx_stack st] \<longleftrightarrow>
    (\<exists>t \<in> set (blocks_of prog (addr n)). in_try_block t) \<or> length (blocks_of prog (addr n)) \<ge> 2"
proof -
  have sides: "map active (err_ctx_stack st) = map in_try_block (blocks_of prog (addr n))"
    using state_at_statement [OF assms(1-4), of n ty] assms(5)
    by (auto simp: state_ok_def dest: stack_typed_sides)
  then have len: "length (err_ctx_stack st) = length (blocks_of prog (addr n))"
    by (metis length_map)
  with sides show ?thesis
    by (cases "err_ctx_stack st"; cases "blocks_of prog (addr n)") (auto simp: Suc_le_eq)
qed

theorem trycatch_test_witness:
  "reachable (compiled sample) (\<lambda>_. True) nested_catch_state \<and>
   is_part_of_pltsql_trycatch_block [err_ctx_stack nested_catch_state] \<and>
   PG_exception_stack nested_catch_state = Outer"
proof -
  have reach: "reachable (compiled sample) (\<lambda>_. True) nested_catch_state"
    by (rule exec_run_start [OF nested_catch_run]) simp
  have "blocks_of sample (addr (Node 6 6)) = [TryCatchInfo 1 False, TryCatchInfo 4 False]"
    by (simp add: blocks_of_def sample_def)
  moreover have "mode nested_catch_state = Running" "pc nested_catch_state < length (compiled sample)"
    "compiled sample ! pc nested_catch_state \<in> {Exec (Node 6 6) PLTSQL_STMT_PRINT, Exec_return (Node 6 6)}"
    by (simp_all add: nested_catch_state_def compiled_sample)
  ultimately have "is_part_of_pltsql_trycatch_block [err_ctx_stack nested_catch_state]"
    using trycatch_test [OF compilable_sample reach] by simp
  then show ?thesis
    using reach by (simp add: nested_catch_state_def)
qed

end
