(* ===== verification/Tds_Comm.thy ===== *)
theory Tds_Comm
  imports Memory
begin

text \<open>
  The transport layer of the TDS listener, \<^verbatim>\<open>tdscomm.c\<close>: a message is sent and received
  as packets with a header of eight bytes through a send and a receive buffer. The socket is
  a stream of bytes in each direction together with the outcomes of its next system calls:
  short reads and writes, interrupts, errors. Loops that need not end are partial functions,
  whose value is \<open>None\<close> when they run forever. The theory relates the reader to a parser of
  the byte stream and the writer to the packets of a message.
\<close>

unbundle bit_operations_syntax

section \<open>State\<close>

text \<open>
  What the next system calls do. A read delivers at most one byte more than the number
  of its \<open>Chunk\<close>, a write accepts at most one byte more than the number of its \<open>Accept\<close>;
  after the listed outcomes calls transfer as much as they can. Reading at the end of the
  stream returns 0.
\<close>

datatype read_event = Chunk nat | Read_EINTR | Read_error

datatype write_event = Accept nat | Write_EINTR | Write_EAGAIN | Write_error

text \<open>
  The static variables, the connection (\<open>noblock\<close> of \<open>MyProcPort\<close>, which may be NULL) and
  the socket. \<open>incoming\<close> are the bytes the client sent and no read has delivered,
  \<open>outgoing\<close> the bytes written so far.
\<close>

record tds_comm =
  TdsBufferSize :: nat
  TdsSendBuffer :: "byte list"
  TdsSendCur :: nat
  TdsSendStart :: nat
  TdsSendMessageType :: byte
  TdsDoProcessHeader :: bool
  TdsRecvBuffer :: "byte list"
  TdsRecvStart :: nat
  TdsRecvEnd :: nat
  TdsRecvMessageType :: byte
  TdsRecvPacketStatus :: byte
  TdsLeftInPacket :: int
  noblock :: "bool option"
  ClientConnectionLost :: bool
  incoming :: "byte list"
  read_events :: "read_event list"
  outgoing :: "byte list"
  write_events :: "write_event list"

definition TDS_PACKET_HEADER_SIZE :: nat where "TDS_PACKET_HEADER_SIZE = 8"
definition TDS_PACKET_HEADER_STATUS_EOM :: byte where "TDS_PACKET_HEADER_STATUS_EOM = 1"
definition TDS_BULK_LOAD :: byte where "TDS_BULK_LOAD = 7"
definition TDS_ATTENTION :: byte where "TDS_ATTENTION = 6"
definition EOF :: int where "EOF = - 1"

text \<open>Functions return a code, 0 or \<open>EOF\<close>, or report; a call that never returns is \<open>None\<close>.\<close>

type_synonym 'a io = "(int \<times> 'a) result option"

abbreviation ret :: "int \<Rightarrow> 'a \<Rightarrow> 'a io" where
  "ret r x \<equiv> Some (Inr (r, x))"

abbreviation after :: "'a result \<Rightarrow> ('a \<Rightarrow> 'b result option) \<Rightarrow> 'b result option" where
  "after m k \<equiv> (case m of Inl e \<Rightarrow> Some (Inl e) | Inr x \<Rightarrow> k x)"

abbreviation io_then :: "'a result option \<Rightarrow> ('a \<Rightarrow> 'b result option) \<Rightarrow> 'b result option" where
  "io_then m k \<equiv> Option.bind m (\<lambda>r. after r k)"

section \<open>The socket\<close>

definition SocketSetNonblocking :: "bool \<Rightarrow> tds_comm \<Rightarrow> tds_comm result" where
  "SocketSetNonblocking nonblocking c =
     (case noblock c of
        None \<Rightarrow> ereport ERRCODE_CONNECTION_DOES_NOT_EXIST ''there is no client connection''
      | Some _ \<Rightarrow> Inr (c\<lparr>noblock := Some nonblocking\<rparr>))"

text \<open>One read into the free end of the receive buffer, of at most \<open>n\<close> bytes.\<close>

definition deliver :: "nat \<Rightarrow> tds_comm \<Rightarrow> (int \<times> tds_comm) result" where
  "deliver n c =
     (let r = min n (min (uint32_sub (TdsBufferSize c) (TdsRecvEnd c)) (length (incoming c)))
      in if r = 0 then Inr (EOF, c)
         else and_then (memcpy_at (TdsRecvBuffer c) (TdsRecvEnd c) (take r (incoming c))) (\<lambda>d.
              Inr (0, c\<lparr>TdsRecvBuffer := d, TdsRecvEnd := TdsRecvEnd c + r,
                        incoming := drop r (incoming c)\<rparr>)))"

fun read_loop :: "read_event list \<Rightarrow> tds_comm \<Rightarrow> (int \<times> tds_comm) result" where
  "read_loop [] c = deliver (length (incoming c)) c"
| "read_loop (Read_EINTR # es) c = read_loop es (c\<lparr>read_events := es\<rparr>)"
| "read_loop (Read_error # es) c = Inr (EOF, c\<lparr>read_events := es\<rparr>)"
| "read_loop (Chunk n # es) c = deliver (Suc n) (c\<lparr>read_events := es\<rparr>)"

definition left_justify :: "tds_comm \<Rightarrow> tds_comm result" where
  "left_justify c =
     (if 0 < TdsRecvStart c
      then if TdsRecvStart c < TdsRecvEnd c
           then and_then (read_at (TdsRecvBuffer c) (TdsRecvStart c) (TdsRecvEnd c - TdsRecvStart c)) (\<lambda>b.
                and_then (memcpy_at (TdsRecvBuffer c) 0 b) (\<lambda>d.
                Inr (c\<lparr>TdsRecvBuffer := d, TdsRecvEnd := TdsRecvEnd c - TdsRecvStart c,
                       TdsRecvStart := 0\<rparr>)))
           else Inr (c\<lparr>TdsRecvEnd := 0, TdsRecvStart := 0\<rparr>)
      else Inr c)"

definition TdsReadsocket :: "tds_comm \<Rightarrow> (int \<times> tds_comm) result" where
  "TdsReadsocket c =
     and_then (left_justify c) (\<lambda>c.
     and_then (SocketSetNonblocking False c) (\<lambda>c.
     read_loop (read_events c) c))"

section \<open>Packet headers\<close>

partial_function (option) need_header :: "tds_comm \<Rightarrow> tds_comm io" where
  "need_header c =
     (if TdsRecvEnd c < TdsRecvStart c + TDS_PACKET_HEADER_SIZE
      then after (TdsReadsocket c) (\<lambda>(r, c). if r \<noteq> 0 then ret EOF c else need_header c)
      else ret 0 c)"

definition parse_header :: "tds_comm \<Rightarrow> (int \<times> tds_comm) result" where
  "parse_header c =
     and_then (read_at (TdsRecvBuffer c) (TdsRecvStart c) TDS_PACKET_HEADER_SIZE) (\<lambda>h.
     let data16 = 256 * unat (h ! 2) + unat (h ! 3);
         c = c\<lparr>TdsRecvMessageType := h ! 0, TdsRecvPacketStatus := h ! 1\<rparr>
     in if TdsBufferSize c < data16
        then ereport_fatal ERRCODE_PROTOCOL_VIOLATION ''Packet length %u exceeds packet size %u''
        else let c = c\<lparr>TdsLeftInPacket := int data16 - int TDS_PACKET_HEADER_SIZE,
                       TdsRecvStart := TdsRecvStart c + TDS_PACKET_HEADER_SIZE\<rparr>
             in if TdsLeftInPacket c < 0
                then ereport_fatal ERRCODE_PROTOCOL_VIOLATION ''TDS packet with insufficient data''
                else Inr (0, c\<lparr>TdsDoProcessHeader := False\<rparr>))"

definition TdsProcessHeader :: "tds_comm \<Rightarrow> tds_comm io" where
  "TdsProcessHeader c =
     (if TdsLeftInPacket c \<noteq> 0
      then Some (ereport_fatal ERRCODE_PROTOCOL_VIOLATION
             ''New TDS packet read encountered while last packet is not fully consumed'')
      else io_then (need_header c) (\<lambda>(r, c).
           if r \<noteq> 0 then ret EOF c else Some (parse_header c)))"

definition check_pointers :: "tds_comm \<Rightarrow> tds_comm io" where
  "check_pointers c =
     (if TdsRecvEnd c < TdsRecvStart c
      then Some (ereport_fatal ERRCODE_PROTOCOL_VIOLATION
             ''TDS buffer start pointer %d beyond end pointer %d'')
      else ret 0 c)"

text \<open>The second half of \<open>TdsRecvbuf\<close>, for an empty buffer.\<close>

definition recv_more :: "tds_comm \<Rightarrow> tds_comm io" where
  "recv_more c =
     (if TdsRecvStart c = TdsRecvEnd c
      then after (TdsReadsocket c) (\<lambda>(r, c).
           if r \<noteq> 0 then ret EOF c
           else if TdsLeftInPacket c = 0
           then io_then (if TdsDoProcessHeader c then TdsProcessHeader c else ret 0 c) (\<lambda>(r, c).
                if r \<noteq> 0 then ret EOF c
                else if TdsRecvStart c = TdsRecvEnd c \<and> 0 < TdsLeftInPacket c
                then after (TdsReadsocket c) (\<lambda>(r, c). if r \<noteq> 0 then ret EOF c else check_pointers c)
                else check_pointers c)
           else check_pointers c)
      else check_pointers c)"

definition TdsRecvbuf :: "tds_comm \<Rightarrow> tds_comm io" where
  "TdsRecvbuf c =
     (if TdsLeftInPacket c = 0 \<and> TdsRecvStart c < TdsRecvEnd c
      then io_then (TdsProcessHeader c) (\<lambda>(r, c).
           if r \<noteq> 0 then ret EOF c
           else if TdsLeftInPacket c = 0 then ret 0 c
           else recv_more c)
      else recv_more c)"

section \<open>Reading bytes\<close>

partial_function (option) TdsReadNextBuffer :: "tds_comm \<Rightarrow> tds_comm io" where
  "TdsReadNextBuffer c =
     (if (0 < TdsLeftInPacket c \<and> TdsRecvEnd c \<le> TdsRecvStart c) \<or> TdsDoProcessHeader c
      then io_then (TdsRecvbuf c) (\<lambda>(r, c). if r \<noteq> 0 then ret EOF c else TdsReadNextBuffer c)
      else ret 0 c)"

definition TdsConsumedBytes :: "nat \<Rightarrow> tds_comm \<Rightarrow> tds_comm" where
  "TdsConsumedBytes bytes c =
     (let c = c\<lparr>TdsLeftInPacket := TdsLeftInPacket c - int bytes\<rparr>
      in if TdsLeftInPacket c = 0 then c\<lparr>TdsDoProcessHeader := True\<rparr> else c)"

text \<open>The inner loops of \<open>TdsGetbytes\<close> and \<open>TdsDiscardbytes\<close>, and what both take at once.\<close>

partial_function (option) await_data :: "tds_comm \<Rightarrow> tds_comm io" where
  "await_data c =
     (if TdsLeftInPacket c = 0 \<or> TdsRecvEnd c \<le> TdsRecvStart c
      then io_then (TdsRecvbuf c) (\<lambda>(r, c). if r \<noteq> 0 then ret EOF c else await_data c)
      else ret 0 c)"

definition amount_available :: "nat \<Rightarrow> tds_comm \<Rightarrow> nat" where
  "amount_available len c =
     (let amount = size_t_of_int (min (TdsLeftInPacket c) (int (TdsRecvEnd c) - int (TdsRecvStart c)))
      in if len < amount then len else amount)"

text \<open>\<open>TdsGetbytes\<close> with the bytes copied to the caller so far.\<close>

partial_function (option) get_loop :: "nat \<Rightarrow> byte list \<Rightarrow> tds_comm \<Rightarrow> (byte list \<times> tds_comm) io" where
  "get_loop len s c =
     (if 0 < len
      then io_then (await_data c) (\<lambda>(r, c).
           if r \<noteq> 0 then ret EOF (s, c)
           else let amount = amount_available len c
                in after (read_at (TdsRecvBuffer c) (TdsRecvStart c) amount) (\<lambda>b.
                   get_loop (len - amount) (s @ b)
                     (TdsConsumedBytes amount (c\<lparr>TdsRecvStart := TdsRecvStart c + amount\<rparr>))))
      else ret 0 (s, c))"

definition TdsGetbytes :: "nat \<Rightarrow> tds_comm \<Rightarrow> (byte list \<times> tds_comm) io" where
  "TdsGetbytes len c = get_loop len [] c"

partial_function (option) TdsDiscardbytes :: "nat \<Rightarrow> tds_comm \<Rightarrow> tds_comm io" where
  "TdsDiscardbytes len c =
     (if 0 < len
      then io_then (await_data c) (\<lambda>(r, c).
           if r \<noteq> 0 then ret EOF c
           else let amount = amount_available len c
                in TdsDiscardbytes (len - amount)
                     (TdsConsumedBytes amount (c\<lparr>TdsRecvStart := TdsRecvStart c + amount\<rparr>)))
      else ret 0 c)"

section \<open>Reading requests\<close>

definition is_eom :: "byte \<Rightarrow> bool" where
  "is_eom status \<longleftrightarrow> status AND TDS_PACKET_HEADER_STATUS_EOM \<noteq> 0"

definition TdsGetRecvPacketEomStatus :: "tds_comm \<Rightarrow> bool" where
  "TdsGetRecvPacketEomStatus c \<longleftrightarrow> is_eom (TdsRecvPacketStatus c)"

definition TdsCheckMessageType :: "byte \<Rightarrow> tds_comm \<Rightarrow> bool" where
  "TdsCheckMessageType msgType c \<longleftrightarrow> TdsRecvMessageType c = msgType"

text \<open>
  The string the message is collected in grows by the server's \<open>enlargeStringInfo\<close>, a
  parameter of its length and the bytes needed.
\<close>

type_synonym enlarge = "nat \<Rightarrow> nat \<Rightarrow> unit result"

text \<open>The packet that follows, appended to the message.\<close>

definition append_packet :: "enlarge \<Rightarrow> byte list \<Rightarrow> tds_comm \<Rightarrow> (byte list \<times> tds_comm) io" where
  "append_packet enlargeStringInfo message c =
     (let readBytes = size_t_of_int (TdsLeftInPacket c)
      in after (enlargeStringInfo (length message) readBytes) (\<lambda>_.
         io_then (TdsGetbytes readBytes c) (\<lambda>(r, b, c).
         if r \<noteq> 0 then ret EOF (message, c) else ret 0 (message @ b, c))))"

record tds_request =
  req_message :: "byte list"
  req_status :: byte
  req_type :: byte

partial_function (option) request_loop ::
  "enlarge \<Rightarrow> bool \<Rightarrow> tds_request \<Rightarrow> tds_comm \<Rightarrow> (tds_request \<times> tds_comm) io" where
  "request_loop enlargeStringInfo isFirst q c =
     io_then (TdsReadNextBuffer c) (\<lambda>(r, c).
     if r = EOF then ret EOF (q, c)
     else let q = (if isFirst
                   then q\<lparr>req_type := TdsRecvMessageType c, req_status := TdsRecvPacketStatus c\<rparr>
                   else q)
          in io_then (append_packet enlargeStringInfo (req_message q) c) (\<lambda>(r, m, c).
             if r \<noteq> 0 then ret EOF (q, c)
             else let q = q\<lparr>req_message := m\<rparr>
                  in if is_eom (TdsRecvPacketStatus c)
                     then ret 0 (q, if TdsLeftInPacket c = 0 \<and> TdsRecvStart c = TdsRecvEnd c
                                    then c\<lparr>TdsDoProcessHeader := True\<rparr> else c)
                     else if TdsRecvMessageType c = TDS_BULK_LOAD
                     then ret 0 (q, c\<lparr>TdsDoProcessHeader := True\<rparr>)
                     else request_loop enlargeStringInfo False q c))"

definition TdsReadNextRequest ::
  "enlarge \<Rightarrow> tds_request \<Rightarrow> tds_comm \<Rightarrow> (tds_request \<times> tds_comm) io" where
  "TdsReadNextRequest enlargeStringInfo q c = request_loop enlargeStringInfo True q c"

definition TdsReadMessage :: "enlarge \<Rightarrow> byte list \<Rightarrow> byte \<Rightarrow> tds_comm \<Rightarrow> (byte list \<times> tds_comm) io" where
  "TdsReadMessage enlargeStringInfo message messageType c =
     (if TdsSendStart c \<noteq> 0 \<or> TdsSendCur c \<noteq> TDS_PACKET_HEADER_SIZE
      then Some (ereport_fatal ERRCODE_PROTOCOL_VIOLATION ''TDS last write did not flush'')
      else io_then (TdsReadNextRequest enlargeStringInfo
             \<lparr>req_message = message, req_status = 0, req_type = 0\<rparr> c) (\<lambda>(r, q, c).
           if r \<noteq> 0 then ret EOF (req_message q, c)
           else if messageType \<noteq> req_type q
           then Some (ereport ERRCODE_INVALID_PARAMETER_VALUE ''Invalid message type %u, expected %u'')
           else ret 0 (req_message q, c)))"

text \<open>The packets of a bulk load: 1 is returned with the last one.\<close>

definition TdsReadNextPendingBcpRequest ::
  "enlarge \<Rightarrow> byte list \<Rightarrow> tds_comm \<Rightarrow> (byte list \<times> tds_comm) io" where
  "TdsReadNextPendingBcpRequest enlargeStringInfo message c =
     io_then (TdsReadNextBuffer c) (\<lambda>(r, c).
     if r = EOF then ret EOF (message, c)
     else if TdsRecvMessageType c \<noteq> TDS_BULK_LOAD
     then Some (ereport_fatal ERRCODE_PROTOCOL_VIOLATION
            ''Unexpected out of band packet while fetching a Bulk Load Request.'')
     else io_then (append_packet enlargeStringInfo message c) (\<lambda>(r, m, c).
          if r \<noteq> 0 then ret EOF (message, c)
          else ret (if is_eom (TdsRecvPacketStatus c) then 1 else 0) (m, c)))"

partial_function (option) TdsDiscardAllPendingBcpRequest :: "tds_comm \<Rightarrow> tds_comm io" where
  "TdsDiscardAllPendingBcpRequest c =
     io_then (TdsReadNextBuffer c) (\<lambda>(r, c).
     if r = EOF then ret EOF c
     else io_then (TdsDiscardbytes (size_t_of_int (TdsLeftInPacket c)) c) (\<lambda>(r, c).
          if r \<noteq> 0 then ret EOF c
          else if is_eom (TdsRecvPacketStatus c) then ret 1 c
          else TdsDiscardAllPendingBcpRequest c))"

section \<open>Writing\<close>

definition TdsFillHeader :: "bool \<Rightarrow> tds_comm \<Rightarrow> tds_comm result" where
  "TdsFillHeader lastPacket c =
     (let n = TdsSendCur c - TdsSendStart c
      in and_then (memcpy_at (TdsSendBuffer c) 0
           [TdsSendMessageType c, if lastPacket then 1 else 0,
            word_of_nat (n div 256), word_of_nat n, 0, 0, 0, 0]) (\<lambda>d.
         Inr (c\<lparr>TdsSendBuffer := d\<rparr>)))"

definition transmit :: "nat \<Rightarrow> tds_comm \<Rightarrow> tds_comm result" where
  "transmit r c =
     and_then (read_at (TdsSendBuffer c) (TdsSendStart c) r) (\<lambda>b.
     Inr (c\<lparr>outgoing := outgoing c @ b, TdsSendStart := TdsSendStart c + r\<rparr>))"

definition reset_send :: "tds_comm \<Rightarrow> tds_comm" where
  "reset_send c = c\<lparr>TdsSendStart := 0, TdsSendCur := TDS_PACKET_HEADER_SIZE\<rparr>"

fun write_loop :: "write_event list \<Rightarrow> tds_comm \<Rightarrow> (int \<times> tds_comm) result" where
  "write_loop [] c =
     (if TdsSendStart c < TdsSendCur c
      then and_then (transmit (TdsSendCur c - TdsSendStart c) c) (\<lambda>c. Inr (0, reset_send c))
      else Inr (0, reset_send c))"
| "write_loop (e # es) c =
     (if TdsSendStart c < TdsSendCur c
      then let c = c\<lparr>write_events := es\<rparr>
           in case e of
                Accept n \<Rightarrow> and_then (transmit (min (Suc n) (TdsSendCur c - TdsSendStart c)) c)
                              (write_loop es)
              | Write_EINTR \<Rightarrow> write_loop es c
              | Write_EAGAIN \<Rightarrow> Inr (0, c)
              | Write_error \<Rightarrow> Inr (EOF, (reset_send c)\<lparr>ClientConnectionLost := True\<rparr>)
      else Inr (0, reset_send c))"

definition InternalFlush :: "bool \<Rightarrow> tds_comm \<Rightarrow> (int \<times> tds_comm) result" where
  "InternalFlush lastPacket c =
     and_then (if TdsSendStart c = 0 then TdsFillHeader lastPacket c else Inr c) (\<lambda>c.
     let c = (if lastPacket then c\<lparr>TdsSendMessageType := 0\<rparr> else c)
     in write_loop (write_events c) c)"

definition GetAvailableBufferSize :: "tds_comm \<Rightarrow> nat" where
  "GetAvailableBufferSize c = uint32_sub (TdsBufferSize c) (TdsSendCur c)"

definition FlushBuffer :: "tds_comm \<Rightarrow> (int \<times> tds_comm) result" where
  "FlushBuffer c = and_then (SocketSetNonblocking False c) (InternalFlush False)"

partial_function (option) InternalPutbytes :: "byte list \<Rightarrow> tds_comm \<Rightarrow> tds_comm io" where
  "InternalPutbytes s c =
     (if s \<noteq> []
      then after (if TdsBufferSize c \<le> TdsSendCur c then FlushBuffer c else Inr (0, c)) (\<lambda>(r, c).
           if r \<noteq> 0 then ret EOF c
           else let amount = min (uint32_sub (TdsBufferSize c) (TdsSendCur c)) (length s)
                in after (memcpy_at (TdsSendBuffer c) (TdsSendCur c) (take amount s)) (\<lambda>d.
                   InternalPutbytes (drop amount s)
                     (c\<lparr>TdsSendBuffer := d, TdsSendCur := TdsSendCur c + amount\<rparr>)))
      else ret 0 c)"

definition TdsSetMessageType :: "byte \<Rightarrow> tds_comm \<Rightarrow> tds_comm" where
  "TdsSetMessageType msgType c = c\<lparr>TdsSendMessageType := msgType\<rparr>"

definition TdsPutbytes :: "byte list \<Rightarrow> tds_comm \<Rightarrow> tds_comm io" where
  "TdsPutbytes s c = InternalPutbytes s c"

definition TdsSocketFlush :: "tds_comm \<Rightarrow> (int \<times> tds_comm) result" where
  "TdsSocketFlush c = and_then (SocketSetNonblocking False c) (InternalFlush True)"

definition TdsWriteMessage :: "byte list \<Rightarrow> byte \<Rightarrow> tds_comm \<Rightarrow> tds_comm io" where
  "TdsWriteMessage message messageType c =
     (if TdsSendMessageType c \<noteq> 0
      then Some (ereport_fatal ERRCODE_PROTOCOL_VIOLATION ''TDS message write %u already in progress'')
      else io_then (TdsPutbytes message (TdsSetMessageType messageType c)) (\<lambda>(r, c).
           if r \<noteq> 0 then ret EOF c
           else after (TdsSocketFlush c) (\<lambda>(r, c). if r \<noteq> 0 then ret EOF c else ret 0 c)))"

subsection \<open>Numbers\<close>

text \<open>
  The bytes of an integer, least significant first. The functions for signed and unsigned
  integers write the same bytes; a float is given by the integer with the same bits.
\<close>

definition le_bytes :: "nat \<Rightarrow> int \<Rightarrow> byte list" where
  "le_bytes n value = map (\<lambda>i. word_of_int (drop_bit (8 * i) value)) [0..<n]"

definition TdsPutDate :: "int \<Rightarrow> tds_comm \<Rightarrow> tds_comm io" where
  "TdsPutDate value c = InternalPutbytes (take 3 (le_bytes 4 value)) c"

definition TdsPutInt8 :: "int \<Rightarrow> tds_comm \<Rightarrow> tds_comm io" where
  "TdsPutInt8 value c = InternalPutbytes (le_bytes 1 value) c"

definition TdsPutUInt8 :: "int \<Rightarrow> tds_comm \<Rightarrow> tds_comm io" where
  "TdsPutUInt8 value c = InternalPutbytes (le_bytes 1 value) c"

definition TdsPutInt16LE :: "int \<Rightarrow> tds_comm \<Rightarrow> tds_comm io" where
  "TdsPutInt16LE value c = InternalPutbytes (le_bytes 2 value) c"

definition TdsPutUInt16LE :: "int \<Rightarrow> tds_comm \<Rightarrow> tds_comm io" where
  "TdsPutUInt16LE value c = InternalPutbytes (le_bytes 2 value) c"

definition TdsPutInt32LE :: "int \<Rightarrow> tds_comm \<Rightarrow> tds_comm io" where
  "TdsPutInt32LE value c = InternalPutbytes (le_bytes 4 value) c"

definition TdsPutUInt32LE :: "int \<Rightarrow> tds_comm \<Rightarrow> tds_comm io" where
  "TdsPutUInt32LE value c = InternalPutbytes (le_bytes 4 value) c"

definition TdsPutInt64LE :: "int \<Rightarrow> tds_comm \<Rightarrow> tds_comm io" where
  "TdsPutInt64LE value c = InternalPutbytes (le_bytes 8 value) c"

definition TdsPutUInt64LE :: "int \<Rightarrow> tds_comm \<Rightarrow> tds_comm io" where
  "TdsPutUInt64LE value c = InternalPutbytes (le_bytes 8 value) c"

definition TdsPutFloat4LE :: "int \<Rightarrow> tds_comm \<Rightarrow> tds_comm io" where
  "TdsPutFloat4LE value c = InternalPutbytes (le_bytes 4 value) c"

definition TdsPutFloat8LE :: "int \<Rightarrow> tds_comm \<Rightarrow> tds_comm io" where
  "TdsPutFloat8LE value c = InternalPutbytes (le_bytes 8 value) c"

section \<open>Setting up\<close>

definition TdsCommReset :: "pg_mem \<Rightarrow> tds_comm \<Rightarrow> tds_comm result" where
  "TdsCommReset m c =
     (let c = c\<lparr>TdsRecvMessageType := 0, TdsSendMessageType := 0, TdsRecvPacketStatus := 0,
                TdsRecvStart := 0, TdsRecvEnd := 0, TdsLeftInPacket := 0, TdsSendStart := 0,
                TdsSendCur := TDS_PACKET_HEADER_SIZE\<rparr>
      in and_then (palloc m (TdsBufferSize c)) (\<lambda>d.
         and_then (palloc m (TdsBufferSize c)) (\<lambda>d'.
         Inr (c\<lparr>TdsRecvBuffer := d, TdsSendBuffer := d'\<rparr>))))"

definition TdsCommInit :: "pg_mem \<Rightarrow> nat \<Rightarrow> tds_comm \<Rightarrow> tds_comm result" where
  "TdsCommInit m bufferSize c =
     TdsCommReset m (c\<lparr>TdsDoProcessHeader := True, TdsBufferSize := bufferSize\<rparr>)"

definition TdsCommShutdown :: "tds_comm \<Rightarrow> tds_comm" where
  "TdsCommShutdown c = c\<lparr>TdsSendBuffer := [], TdsRecvBuffer := []\<rparr>"

definition TdsSetBufferSize :: "pg_mem \<Rightarrow> nat \<Rightarrow> tds_comm \<Rightarrow> tds_comm result" where
  "TdsSetBufferSize m newSize c =
     (if newSize = TdsBufferSize c then Inr c
      else if TdsSendStart c \<noteq> 0 \<or> TdsSendCur c \<noteq> TDS_PACKET_HEADER_SIZE \<or>
              TdsRecvStart c \<noteq> TdsRecvEnd c \<or> TdsLeftInPacket c \<noteq> 0
      then ereport_fatal ERRCODE_PROTOCOL_VIOLATION ''TDS buffers in inconsistent state''
      else and_then (repalloc m (TdsSendBuffer c) newSize) (\<lambda>d.
           and_then (repalloc m (TdsRecvBuffer c) newSize) (\<lambda>d'.
           Inr (c\<lparr>TdsSendBuffer := d, TdsRecvBuffer := d', TdsBufferSize := newSize,
                  TdsRecvStart := 0, TdsRecvEnd := 0, TdsLeftInPacket := 0\<rparr>))))"

section \<open>The byte stream\<close>

text \<open>
  All bytes received and not consumed, and the well-formed states. Buffer sizes are those
  the login accepts (512 to 32767); what matters is room for a header and a length of 16
  bits.
\<close>

definition buffered :: "tds_comm \<Rightarrow> byte list" where
  "buffered c = take (TdsRecvEnd c - TdsRecvStart c) (drop (TdsRecvStart c) (TdsRecvBuffer c))"

definition stream :: "tds_comm \<Rightarrow> byte list" where
  "stream c = buffered c @ incoming c"

definition recv_ok :: "tds_comm \<Rightarrow> bool" where
  "recv_ok c \<longleftrightarrow> 8 < TdsBufferSize c \<and> TdsBufferSize c \<le> 65535 \<and>
     length (TdsRecvBuffer c) = TdsBufferSize c \<and>
     TdsRecvStart c \<le> TdsRecvEnd c \<and> TdsRecvEnd c \<le> TdsBufferSize c \<and>
     0 \<le> TdsLeftInPacket c \<and> TdsLeftInPacket c \<le> 65535 \<and> noblock c \<noteq> None"

definition send_ok :: "tds_comm \<Rightarrow> bool" where
  "send_ok c \<longleftrightarrow> 8 < TdsBufferSize c \<and> TdsBufferSize c \<le> 65535 \<and>
     length (TdsSendBuffer c) = TdsBufferSize c \<and>
     TDS_PACKET_HEADER_SIZE \<le> TdsSendCur c \<and> TdsSendCur c \<le> TdsBufferSize c \<and>
     TdsSendStart c \<le> TdsSendCur c \<and> noblock c \<noteq> None"

definition sender :: "tds_comm \<Rightarrow> tds_comm" where
  "sender c = c\<lparr>TdsDoProcessHeader := True, TdsRecvBuffer := [], TdsRecvStart := 0, TdsRecvEnd := 0,
     TdsRecvMessageType := 0, TdsRecvPacketStatus := 0, TdsLeftInPacket := 0, noblock := None,
     incoming := [], read_events := []\<rparr>"

definition receiver :: "tds_comm \<Rightarrow> tds_comm" where
  "receiver c = c\<lparr>TdsSendBuffer := [], TdsSendCur := 0, TdsSendStart := 0, TdsSendMessageType := 0,
     noblock := None, ClientConnectionLost := False, outgoing := [], write_events := []\<rparr>"

text \<open>No read fails; what reading from the socket leaves as it is.\<close>

definition quiet :: "tds_comm \<Rightarrow> bool" where
  "quiet c \<longleftrightarrow> Read_error \<notin> set (read_events c)"

definition kept :: "tds_comm \<Rightarrow> tds_comm \<Rightarrow> bool" where
  "kept c c' \<longleftrightarrow> recv_ok c' \<and> sender c' = sender c \<and> set (read_events c') \<subseteq> set (read_events c)"

definition refilled :: "tds_comm \<Rightarrow> tds_comm \<Rightarrow> bool" where
  "refilled c c' \<longleftrightarrow> kept c c' \<and> stream c' = stream c \<and> TdsLeftInPacket c' = TdsLeftInPacket c \<and>
     TdsDoProcessHeader c' = TdsDoProcessHeader c \<and> TdsRecvMessageType c' = TdsRecvMessageType c \<and>
     TdsRecvPacketStatus c' = TdsRecvPacketStatus c"

lemma EOF_nonzero [simp]: "EOF \<noteq> 0" "EOF \<noteq> 1" "0 \<noteq> EOF" "1 \<noteq> EOF"
  by (simp_all add: EOF_def)

lemma size8 [simp]: "TDS_PACKET_HEADER_SIZE = 8"
  by (simp add: TDS_PACKET_HEADER_SIZE_def)

lemma sender_simps [simp]:
  "sender (c\<lparr>TdsDoProcessHeader := b\<rparr>) = sender c" "sender (c\<lparr>TdsRecvBuffer := d\<rparr>) = sender c"
  "sender (c\<lparr>TdsRecvStart := i\<rparr>) = sender c" "sender (c\<lparr>TdsRecvEnd := i\<rparr>) = sender c"
  "sender (c\<lparr>TdsRecvMessageType := t\<rparr>) = sender c" "sender (c\<lparr>TdsRecvPacketStatus := t\<rparr>) = sender c"
  "sender (c\<lparr>TdsLeftInPacket := x\<rparr>) = sender c" "sender (c\<lparr>noblock := nb\<rparr>) = sender c"
  "sender (c\<lparr>incoming := bs\<rparr>) = sender c" "sender (c\<lparr>read_events := es\<rparr>) = sender c"
  by (simp_all add: sender_def)

lemma sender_eqD:
  assumes "sender c' = sender c"
  shows "TdsBufferSize c' = TdsBufferSize c" "TdsSendBuffer c' = TdsSendBuffer c"
    "TdsSendCur c' = TdsSendCur c" "TdsSendStart c' = TdsSendStart c"
    "TdsSendMessageType c' = TdsSendMessageType c" "ClientConnectionLost c' = ClientConnectionLost c"
    "outgoing c' = outgoing c" "write_events c' = write_events c"
  using assms unfolding sender_def by (cases c; cases c'; simp)+

lemma kept_refl: "recv_ok c \<Longrightarrow> kept c c"
  by (simp add: kept_def)

lemma kept_trans: "kept c c1 \<Longrightarrow> kept c1 c2 \<Longrightarrow> kept c c2"
  by (auto simp: kept_def)

lemma refilled_refl: "recv_ok c \<Longrightarrow> refilled c c"
  by (simp add: refilled_def kept_refl)

lemma refilled_trans: "refilled c c1 \<Longrightarrow> refilled c1 c2 \<Longrightarrow> refilled c c2"
  by (auto simp: refilled_def kept_def)

lemma refilledD:
  "refilled c c' \<Longrightarrow> recv_ok c'" "refilled c c' \<Longrightarrow> kept c c'"
  "refilled c c' \<Longrightarrow> TdsBufferSize c' = TdsBufferSize c"
  "refilled c c' \<Longrightarrow> stream c' = stream c" "refilled c c' \<Longrightarrow> TdsLeftInPacket c' = TdsLeftInPacket c"
  "refilled c c' \<Longrightarrow> TdsDoProcessHeader c' = TdsDoProcessHeader c"
  by (auto simp: refilled_def kept_def dest: sender_eqD)

lemma quiet_kept: "quiet c \<Longrightarrow> kept c c' \<Longrightarrow> quiet c'"
  by (auto simp: quiet_def kept_def)

lemma buffered_length [simp]: "recv_ok c \<Longrightarrow> length (buffered c) = TdsRecvEnd c - TdsRecvStart c"
  by (auto simp: recv_ok_def buffered_def)

lemma buffered_empty: "recv_ok c \<Longrightarrow> buffered c = [] \<longleftrightarrow> TdsRecvStart c = TdsRecvEnd c"
  using buffered_length [of c] by (auto simp: recv_ok_def simp flip: length_0_conv)

lemma left_justify_ok:
  assumes "recv_ok c"
  shows "\<exists>c'. left_justify c = Inr c' \<and> refilled c c' \<and> TdsRecvStart c' = 0 \<and>
    TdsRecvEnd c' = TdsRecvEnd c - TdsRecvStart c \<and> buffered c' = buffered c \<and>
    incoming c' = incoming c \<and> read_events c' = read_events c"
proof -
  consider "TdsRecvStart c = 0" | "0 < TdsRecvStart c" "TdsRecvStart c < TdsRecvEnd c"
    | "0 < TdsRecvStart c" "TdsRecvStart c = TdsRecvEnd c"
    using assms by (fastforce simp: recv_ok_def)
  then show ?thesis
  proof cases
    case 1
    with refilled_refl [OF assms] show ?thesis by (simp add: left_justify_def)
  next
    case 2
    with assms show ?thesis
      by (simp add: left_justify_def read_at_def memcpy_at_def recv_ok_def refilled_def kept_def
          buffered_def stream_def min_def) auto
  next
    case 3
    with assms show ?thesis
      by (simp add: left_justify_def recv_ok_def refilled_def kept_def buffered_def stream_def)
  qed
qed

lemma deliver_ok:
  assumes "recv_ok c" and "TdsRecvStart c = 0" and "TdsRecvEnd c < TdsBufferSize c" and "0 < n"
  shows "if incoming c = [] then deliver n c = Inr (EOF, c)
    else \<exists>c'. deliver n c = Inr (0, c') \<and> refilled c c' \<and> TdsRecvStart c' = 0 \<and>
           TdsRecvEnd c < TdsRecvEnd c' \<and> length (incoming c') < length (incoming c)"
proof (cases "incoming c = []")
  case False
  let ?r = "min n (min (TdsBufferSize c - TdsRecvEnd c) (length (incoming c)))"
  have cap: "uint32_sub (TdsBufferSize c) (TdsRecvEnd c) = TdsBufferSize c - TdsRecvEnd c"
    using assms by (simp add: recv_ok_def uint32_sub_small)
  have r: "0 < ?r" "?r \<le> length (incoming c)" "TdsRecvEnd c + ?r \<le> TdsBufferSize c"
    using False assms(3,4) by auto
  let ?c' = "c\<lparr>TdsRecvBuffer := take (TdsRecvEnd c) (TdsRecvBuffer c) @ take ?r (incoming c) @
                drop (TdsRecvEnd c + ?r) (TdsRecvBuffer c),
               TdsRecvEnd := TdsRecvEnd c + ?r, incoming := drop ?r (incoming c)\<rparr>"
  have "deliver n c = Inr (0, ?c')"
    unfolding deliver_def Let_def cap
    using r assms by (simp add: memcpy_at_def recv_ok_def min_absorb2)
  moreover have "refilled c ?c'"
    using r assms
    by (simp add: refilled_def kept_def recv_ok_def stream_def buffered_def min_absorb2)
  moreover have "length (drop ?r (incoming c)) < length (incoming c)"
    using r by simp
  ultimately show ?thesis
    using False r assms(2) by simp
qed (simp add: deliver_def)

lemma read_loop_ok:
  assumes "recv_ok c" and "TdsRecvStart c = 0" and "TdsRecvEnd c < TdsBufferSize c"
    and "set es \<subseteq> set (read_events c)"
  shows "\<exists>r c'. read_loop es c = Inr (r, c') \<and> refilled c c' \<and> TdsRecvStart c' = 0 \<and>
    (r = 0 \<and> TdsRecvEnd c < TdsRecvEnd c' \<and> length (incoming c') < length (incoming c) \<or>
     r = EOF \<and> incoming c' = incoming c \<and> buffered c' = buffered c \<and>
       (incoming c = [] \<or> Read_error \<in> set es))"
  using assms
proof (induction es c rule: read_loop.induct)
  case (1 c)
  with deliver_ok [of c "length (incoming c)"] show ?case
    by (cases "incoming c = []") (auto simp: refilled_refl deliver_def [of 0])
next
  case (2 es c)
  let ?c1 = "c\<lparr>read_events := es\<rparr>"
  have c1: "refilled c ?c1"
    using 2(2,5) by (auto simp: refilled_def kept_def recv_ok_def stream_def buffered_def)
  then have "\<exists>r c'. read_loop es ?c1 = Inr (r, c') \<and> refilled ?c1 c' \<and> TdsRecvStart c' = 0 \<and>
    (r = 0 \<and> TdsRecvEnd ?c1 < TdsRecvEnd c' \<and> length (incoming c') < length (incoming ?c1) \<or>
     r = EOF \<and> incoming c' = incoming ?c1 \<and> buffered c' = buffered ?c1 \<and>
       (incoming ?c1 = [] \<or> Read_error \<in> set es))"
    using 2 by (intro "2.IH") (simp_all add: recv_ok_def)
  with c1 show ?case
    by (auto intro: refilled_trans simp: buffered_def)
next
  case (3 es c)
  then have "refilled c (c\<lparr>read_events := es\<rparr>)"
    by (auto simp: refilled_def kept_def recv_ok_def stream_def buffered_def)
  with 3 show ?case by (simp add: buffered_def)
next
  case (4 n es c)
  let ?c1 = "c\<lparr>read_events := es\<rparr>"
  have c1: "refilled c ?c1"
    using 4 by (auto simp: refilled_def kept_def recv_ok_def stream_def buffered_def)
  from 4 have "recv_ok ?c1" "TdsRecvStart ?c1 = 0" "TdsRecvEnd ?c1 < TdsBufferSize ?c1"
    by (simp_all add: recv_ok_def)
  from deliver_ok [OF this, of "Suc n"] c1 "4.prems"(2) show ?case
    by (auto intro: refilled_trans simp: buffered_def split: if_splits)
qed

lemma TdsReadsocket_ok:
  assumes "recv_ok c" and "TdsRecvEnd c - TdsRecvStart c < TdsBufferSize c"
  shows "\<exists>r c'. TdsReadsocket c = Inr (r, c') \<and> refilled c c' \<and>
    (r = 0 \<and> TdsRecvStart c' = 0 \<and> TdsRecvEnd c - TdsRecvStart c < TdsRecvEnd c' \<and>
       length (incoming c') < length (incoming c) \<or>
     r = EOF \<and> incoming c' = incoming c \<and> buffered c' = buffered c \<and> (incoming c = [] \<or> \<not> quiet c))"
proof -
  obtain c1 where c1: "left_justify c = Inr c1" "refilled c c1" "TdsRecvStart c1 = 0"
    "TdsRecvEnd c1 = TdsRecvEnd c - TdsRecvStart c" "buffered c1 = buffered c"
    "incoming c1 = incoming c" "read_events c1 = read_events c"
    using left_justify_ok [OF assms(1)] by blast
  let ?c2 = "c1\<lparr>noblock := Some False\<rparr>"
  have "SocketSetNonblocking False c1 = Inr ?c2"
    using c1(2) by (auto simp: SocketSetNonblocking_def refilled_def kept_def recv_ok_def split: option.splits)
  moreover have c2: "refilled c ?c2"
    using c1(2) by (auto simp: refilled_def kept_def recv_ok_def stream_def buffered_def)
  moreover have "\<exists>r c'. read_loop (read_events ?c2) ?c2 = Inr (r, c') \<and> refilled ?c2 c' \<and>
      TdsRecvStart c' = 0 \<and>
    (r = 0 \<and> TdsRecvEnd ?c2 < TdsRecvEnd c' \<and> length (incoming c') < length (incoming ?c2) \<or>
     r = EOF \<and> incoming c' = incoming ?c2 \<and> buffered c' = buffered ?c2 \<and>
       (incoming ?c2 = [] \<or> Read_error \<in> set (read_events ?c2)))"
    using c2 c1 assms by (intro read_loop_ok) (auto simp: refilledD)
  ultimately show ?thesis
    using c1 by (auto simp: TdsReadsocket_def quiet_def buffered_def intro: refilled_trans)
qed

section \<open>Packets in the stream\<close>

text \<open>What a stream begins with: too few bytes, a header that is refused, or a packet.\<close>

datatype packet_view =
    Short
  | Violation pg_error
  | Packet byte byte "byte list" "byte list"

definition packet_length :: "byte list \<Rightarrow> nat" where
  "packet_length s = 256 * unat (s ! 2) + unat (s ! 3)"

definition bad_header :: "nat \<Rightarrow> byte list \<Rightarrow> pg_error option" where
  "bad_header B s =
     (if B < packet_length s
      then Some (Report FATAL ERRCODE_PROTOCOL_VIOLATION ''Packet length %u exceeds packet size %u'')
      else if packet_length s < 8
      then Some (Report FATAL ERRCODE_PROTOCOL_VIOLATION ''TDS packet with insufficient data'')
      else None)"

definition parse_packet :: "nat \<Rightarrow> byte list \<Rightarrow> packet_view" where
  "parse_packet B s =
     (if length s < 8 then Short
      else case bad_header B s of
             Some e \<Rightarrow> Violation e
           | None \<Rightarrow> (if length s < packet_length s then Short
                      else Packet (s ! 0) (s ! 1) (take (packet_length s - 8) (drop 8 s))
                             (drop (packet_length s) s)))"

definition header_taken :: "tds_comm \<Rightarrow> tds_comm \<Rightarrow> bool" where
  "header_taken c c' \<longleftrightarrow> kept c c' \<and> 8 \<le> length (stream c) \<and>
     bad_header (TdsBufferSize c) (stream c) = None \<and> stream c' = drop 8 (stream c) \<and>
     TdsLeftInPacket c' = int (packet_length (stream c) - 8) \<and> \<not> TdsDoProcessHeader c' \<and>
     TdsRecvMessageType c' = stream c ! 0 \<and> TdsRecvPacketStatus c' = stream c ! 1"

definition boundary_result :: "tds_comm \<Rightarrow> tds_comm io \<Rightarrow> bool" where
  "boundary_result c res \<longleftrightarrow>
     (\<exists>c'. res = ret EOF c' \<and> kept c c' \<and> (\<not> quiet c \<or> parse_packet (TdsBufferSize c) (stream c) = Short)) \<or>
     (\<exists>e. res = Some (Inl e) \<and> parse_packet (TdsBufferSize c) (stream c) = Violation e) \<or>
     (\<exists>c'. res = ret 0 c' \<and> header_taken c c' \<and> (TdsLeftInPacket c' = 0 \<or> buffered c' \<noteq> []))"

lemma need_header_ok:
  assumes "recv_ok c"
  shows "(\<exists>c'. need_header c = ret 0 c' \<and> refilled c c' \<and> TdsRecvStart c' + 8 \<le> TdsRecvEnd c') \<or>
         (\<exists>c'. need_header c = ret EOF c' \<and> refilled c c' \<and> (\<not> quiet c \<or> length (stream c) < 8))"
  using assms
proof (induction "length (incoming c)" arbitrary: c rule: less_induct)
  case less
  show ?case
  proof (cases "TdsRecvEnd c < TdsRecvStart c + 8")
    case True
    then have short: "TdsRecvEnd c - TdsRecvStart c < 8"
      using less.prems by (auto simp: recv_ok_def)
    then obtain r c1 where c1: "TdsReadsocket c = Inr (r, c1)" "refilled c c1"
      "r = 0 \<and> TdsRecvStart c1 = 0 \<and> TdsRecvEnd c - TdsRecvStart c < TdsRecvEnd c1 \<and>
         length (incoming c1) < length (incoming c) \<or>
       r = EOF \<and> incoming c1 = incoming c \<and> buffered c1 = buffered c \<and> (incoming c = [] \<or> \<not> quiet c)"
      using TdsReadsocket_ok [OF less.prems] less.prems by (force simp: recv_ok_def)
    from c1(3) show ?thesis
    proof
      assume "r = 0 \<and> TdsRecvStart c1 = 0 \<and> TdsRecvEnd c - TdsRecvStart c < TdsRecvEnd c1 \<and>
         length (incoming c1) < length (incoming c)"
      then have r: "r = 0" and len: "length (incoming c1) < length (incoming c)" by simp_all
      have "need_header c = need_header c1"
        using True r c1(1) by (subst need_header.simps) simp
      with less.hyps [OF len refilledD(1) [OF c1(2)]] c1(2) show ?thesis
        by (metis refilled_trans quiet_kept refilledD(2,4))
    next
      assume "r = EOF \<and> incoming c1 = incoming c \<and> buffered c1 = buffered c \<and> (incoming c = [] \<or> \<not> quiet c)"
      then have r: "r = EOF" "incoming c = [] \<or> \<not> quiet c" by simp_all
      have "need_header c = ret EOF c1"
        using True r c1(1) by (subst need_header.simps) simp
      moreover have "incoming c = [] \<Longrightarrow> length (stream c) < 8"
        using short less.prems by (simp add: stream_def)
      ultimately show ?thesis
        using c1(2) r(2) by auto
    qed
  next
    case False
    then have "need_header c = ret 0 c"
      by (subst need_header.simps) simp
    with False refilled_refl [OF less.prems] show ?thesis by auto
  qed
qed

lemma stream_nth:
  assumes "recv_ok c" and "TdsRecvStart c + 8 \<le> TdsRecvEnd c" and "i < 8"
  shows "take 8 (drop (TdsRecvStart c) (TdsRecvBuffer c)) ! i = stream c ! i"
proof -
  have "8 \<le> length (buffered c)"
    using assms(1,2) by simp
  then have "stream c ! i = buffered c ! i"
    using assms(3) by (simp add: stream_def nth_append)
  then show ?thesis
    using assms by (simp add: buffered_def recv_ok_def)
qed

lemma parse_header_ok:
  assumes "recv_ok c" and "TdsRecvStart c + 8 \<le> TdsRecvEnd c"
  shows "case bad_header (TdsBufferSize c) (stream c) of
           Some e \<Rightarrow> parse_header c = Inl e
         | None \<Rightarrow> \<exists>c'. parse_header c = Inr (0, c') \<and> header_taken c c'"
proof -
  let ?h = "take 8 (drop (TdsRecvStart c) (TdsRecvBuffer c))"
  have read: "read_at (TdsRecvBuffer c) (TdsRecvStart c) 8 = Inr ?h"
    using assms by (simp add: read_at_def recv_ok_def)
  have h: "?h ! 0 = stream c ! 0" "?h ! 1 = stream c ! 1"
    "256 * unat (?h ! 2) + unat (?h ! 3) = packet_length (stream c)"
    using stream_nth [OF assms] by (simp_all add: packet_length_def)
  let ?c' = "c\<lparr>TdsRecvMessageType := stream c ! 0, TdsRecvPacketStatus := stream c ! 1,
    TdsLeftInPacket := int (packet_length (stream c)) - 8,
    TdsRecvStart := TdsRecvStart c + 8, TdsDoProcessHeader := False\<rparr>"
  have parse: "parse_header c =
      (case bad_header (TdsBufferSize c) (stream c) of Some e \<Rightarrow> Inl e | None \<Rightarrow> Inr (0, ?c'))"
    unfolding parse_header_def size8 read and_then_simps Let_def h by (simp add: bad_header_def)
  have len: "8 \<le> length (stream c)"
    using assms by (simp add: stream_def)
  have drop: "buffered ?c' = drop 8 (buffered c)"
    using assms by (simp add: buffered_def recv_ok_def drop_take diff_diff_left add.commute)
  have "header_taken c ?c'" if "bad_header (TdsBufferSize c) (stream c) = None"
    using that assms len drop
    by (auto simp: header_taken_def kept_def recv_ok_def stream_def bad_header_def split: if_splits)
  then show ?thesis
    using parse by (auto split: option.splits)
qed

lemma header_taken_refilled:
  assumes "refilled c c1" and "header_taken c1 c'"
  shows "header_taken c c'"
  using assms kept_trans [of c c1 c'] by (auto simp: header_taken_def refilledD)

lemma header_taken_refill:
  assumes "header_taken c c1" and "refilled c1 c'"
  shows "header_taken c c'"
  using assms kept_trans [of c c1 c'] by (auto simp: header_taken_def refilled_def)

lemma TdsProcessHeader_ok:
  assumes "recv_ok c" and "TdsLeftInPacket c = 0"
  shows "(\<exists>c'. TdsProcessHeader c = ret EOF c' \<and> kept c c' \<and> (\<not> quiet c \<or> length (stream c) < 8)) \<or>
         (\<exists>e. TdsProcessHeader c = Some (Inl e) \<and> 8 \<le> length (stream c) \<and>
              bad_header (TdsBufferSize c) (stream c) = Some e) \<or>
         (\<exists>c'. TdsProcessHeader c = ret 0 c' \<and> header_taken c c')"
proof -
  consider (eof) c1 where "need_header c = ret EOF c1" "refilled c c1" "\<not> quiet c \<or> length (stream c) < 8"
    | (go) c1 where "need_header c = ret 0 c1" "refilled c c1" "TdsRecvStart c1 + 8 \<le> TdsRecvEnd c1"
    using need_header_ok [OF assms(1)] by blast
  then show ?thesis
  proof cases
    case eof
    then show ?thesis using assms(2) by (auto simp: TdsProcessHeader_def refilledD)
  next
    case go
    have len: "8 \<le> length (stream c)"
      using go refilledD(1) [OF go(2)] unfolding refilledD(4) [OF go(2), symmetric] by (simp add: stream_def)
    have "TdsProcessHeader c = Some (parse_header c1)"
      using go assms(2) by (simp add: TdsProcessHeader_def)
    with parse_header_ok [OF refilledD(1) [OF go(2)] go(3)] len show ?thesis
      by (auto simp: refilledD(3,4) [OF go(2)] split: option.splits
          intro: header_taken_refilled [OF go(2)])
  qed
qed

lemma parse_packet_cases:
  "length s < 8 \<Longrightarrow> parse_packet B s = Short"
  "8 \<le> length s \<Longrightarrow> bad_header B s = Some e \<Longrightarrow> parse_packet B s = Violation e"
  "8 \<le> length s \<Longrightarrow> bad_header B s = None \<Longrightarrow> length s < packet_length s \<Longrightarrow> parse_packet B s = Short"
  by (simp_all add: parse_packet_def)

text \<open>Reading on when the buffer is empty.\<close>

lemma check_pointers_ok: "recv_ok c \<Longrightarrow> check_pointers c = ret 0 c"
  by (auto simp: check_pointers_def recv_ok_def)

lemma recv_more_ok:
  assumes "recv_ok c" and "0 < TdsLeftInPacket c"
  shows "(\<exists>c'. recv_more c = ret 0 c' \<and> refilled c c' \<and> buffered c' \<noteq> []) \<or>
         (\<exists>c'. recv_more c = ret EOF c' \<and> refilled c c' \<and> (\<not> quiet c \<or> stream c = []))"
proof (cases "TdsRecvStart c = TdsRecvEnd c")
  case True
  have empty: "buffered c = []"
    using True by (simp add: buffered_def)
  obtain r c1 where c1: "TdsReadsocket c = Inr (r, c1)" "refilled c c1"
      "r = 0 \<and> TdsRecvStart c1 = 0 \<and> 0 < TdsRecvEnd c1 \<or> r = EOF \<and> (incoming c = [] \<or> \<not> quiet c)"
    using TdsReadsocket_ok [OF assms(1)] True assms(1) by (force simp: recv_ok_def)
  have "recv_more c = (if r \<noteq> 0 then ret EOF c1 else ret 0 c1)"
    using True c1(1) assms(2) refilledD(5) [OF c1(2)] check_pointers_ok [OF refilledD(1) [OF c1(2)]]
    by (simp add: recv_more_def)
  moreover have "buffered c1 \<noteq> []" if "TdsRecvStart c1 = 0" "0 < TdsRecvEnd c1"
    using that buffered_length [OF refilledD(1) [OF c1(2)]] by auto
  ultimately show ?thesis
    using c1(2,3) empty by (auto simp: stream_def)
next
  case False
  then have "recv_more c = ret 0 c" "buffered c \<noteq> []"
    using check_pointers_ok [OF assms(1)] buffered_empty [OF assms(1)]
    by (simp_all add: recv_more_def)
  with refilled_refl [OF assms(1)] show ?thesis by blast
qed

lemma TdsRecvbuf_data:
  assumes "recv_ok c" and "0 < TdsLeftInPacket c"
  shows "TdsRecvbuf c = recv_more c"
  using assms by (simp add: TdsRecvbuf_def)

lemma recv_tail:
  assumes "recv_ok c"
  shows "(if TdsRecvStart c = TdsRecvEnd c \<and> 0 < TdsLeftInPacket c
          then after (TdsReadsocket c) (\<lambda>(r, c). if r \<noteq> 0 then ret EOF c else check_pointers c)
          else check_pointers c) =
         (if TdsLeftInPacket c = 0 then ret 0 c else recv_more c)"
proof (cases "TdsRecvStart c = TdsRecvEnd c \<and> 0 < TdsLeftInPacket c")
  case True
  obtain r c1 where c1: "TdsReadsocket c = Inr (r, c1)" "refilled c c1"
    using TdsReadsocket_ok [OF assms] True assms by (force simp: recv_ok_def)
  with True show ?thesis by (simp add: recv_more_def refilledD)
next
  case False
  then show ?thesis
    using check_pointers_ok [OF assms] assms by (auto simp: recv_more_def recv_ok_def)
qed

text \<open>After the header: read on if the packet has data and the buffer has none.\<close>

lemma boundary_tail:
  assumes "header_taken c c1"
  shows "boundary_result c (if TdsLeftInPacket c1 = 0 then ret 0 c1 else recv_more c1)"
proof (cases "TdsLeftInPacket c1 = 0")
  case True
  with assms show ?thesis by (simp add: boundary_result_def)
next
  case False
  then have ok: "recv_ok c1" "0 < TdsLeftInPacket c1"
    using assms by (auto simp: header_taken_def kept_def recv_ok_def)
  have short: "parse_packet (TdsBufferSize c) (stream c) = Short" if "stream c1 = []"
    using that ok assms by (intro parse_packet_cases(3)) (auto simp: header_taken_def)
  have keep: "kept c c1" "\<And>c'. refilled c1 c' \<Longrightarrow> kept c c'"
    using assms by (auto simp: header_taken_def refilledD intro: kept_trans)
  from recv_more_ok [OF ok] show ?thesis
  proof (elim disjE exE conjE)
    fix c' assume "recv_more c1 = ret 0 c'" "refilled c1 c'" "buffered c' \<noteq> []"
    with False header_taken_refill [OF assms] show ?thesis
      by (auto simp: boundary_result_def)
  next
    fix c' assume "recv_more c1 = ret EOF c'" "refilled c1 c'" "\<not> quiet c1"
    with False keep quiet_kept [of c c1] show ?thesis
      by (auto simp: boundary_result_def)
  next
    fix c' assume "recv_more c1 = ret EOF c'" "refilled c1 c'" "stream c1 = []"
    with False keep short show ?thesis
      by (auto simp: boundary_result_def)
  qed
qed

lemma boundary_refilled:
  assumes "refilled c c1" and "boundary_result c1 res"
  shows "boundary_result c res"
  using assms(2) unfolding boundary_result_def refilledD(3,4) [OF assms(1)]
  using header_taken_refilled [OF assms(1)] kept_trans [OF refilledD(2) [OF assms(1)]]
    quiet_kept [OF _ refilledD(2) [OF assms(1)]]
  by blast

lemma boundary_process:
  assumes "recv_ok c" and "TdsLeftInPacket c = 0"
    and tail: "\<And>c1. recv_ok c1 \<Longrightarrow> k (0, c1) = (if TdsLeftInPacket c1 = 0 then ret 0 c1 else recv_more c1)"
    and eof: "\<And>c1. k (EOF, c1) = ret EOF c1"
  shows "boundary_result c (io_then (TdsProcessHeader c) k)"
  using TdsProcessHeader_ok [OF assms(1,2)]
proof (elim disjE exE conjE)
  fix c' assume "TdsProcessHeader c = ret EOF c'" "kept c c'" "\<not> quiet c"
  then show ?thesis by (simp add: eof boundary_result_def)
next
  fix c' assume "TdsProcessHeader c = ret EOF c'" "kept c c'" "length (stream c) < 8"
  then show ?thesis by (simp add: eof boundary_result_def parse_packet_cases)
next
  fix e assume "TdsProcessHeader c = Some (Inl e)" "8 \<le> length (stream c)"
    "bad_header (TdsBufferSize c) (stream c) = Some e"
  then show ?thesis by (simp add: boundary_result_def parse_packet_cases)
next
  fix c' assume c': "TdsProcessHeader c = ret 0 c'" "header_taken c c'"
  then have "recv_ok c'" by (simp add: header_taken_def kept_def)
  with boundary_tail [OF c'(2)] show ?thesis by (simp add: c'(1) tail)
qed

lemma TdsRecvbuf_boundary:
  assumes "recv_ok c" and "TdsLeftInPacket c = 0" and "TdsDoProcessHeader c"
  shows "boundary_result c (TdsRecvbuf c)"
proof (cases "TdsRecvStart c < TdsRecvEnd c")
  case True
  with assms(2) show ?thesis
    unfolding TdsRecvbuf_def by (simp add: boundary_process [OF assms(1,2)])
next
  case False
  then have at_end: "TdsRecvStart c = TdsRecvEnd c"
    using assms(1) by (auto simp: recv_ok_def)
  obtain r c1 where c1: "TdsReadsocket c = Inr (r, c1)" "refilled c c1"
    "r = 0 \<or> r = EOF \<and> (incoming c = [] \<or> \<not> quiet c)"
    using TdsReadsocket_ok [OF assms(1)] at_end assms(1) by (force simp: recv_ok_def)
  show ?thesis
  proof (cases "r = 0")
    case True
    have ok1: "recv_ok c1" "TdsLeftInPacket c1 = 0" "TdsDoProcessHeader c1"
      using c1(2) assms(2,3) by (simp_all add: refilledD)
    have "boundary_result c1 (TdsRecvbuf c)"
      unfolding TdsRecvbuf_def recv_more_def using True at_end c1(1) ok1 assms(2)
      by (simp add: boundary_process [OF ok1(1,2)] recv_tail)
    then show ?thesis
      by (rule boundary_refilled [OF c1(2)])
  next
    case False
    then have "TdsRecvbuf c = ret EOF c1" "incoming c = [] \<or> \<not> quiet c"
      using at_end c1 by (auto simp: TdsRecvbuf_def recv_more_def)
    moreover have "incoming c = [] \<Longrightarrow> stream c = []"
      using at_end by (simp add: stream_def buffered_def)
    ultimately show ?thesis
      using c1(2) by (auto simp: boundary_result_def refilledD parse_packet_cases)
  qed
qed

lemma TdsReadNextBuffer_boundary:
  assumes "recv_ok c" and "TdsLeftInPacket c = 0" and "TdsDoProcessHeader c"
  shows "boundary_result c (TdsReadNextBuffer c)"
proof -
  have stop: "TdsReadNextBuffer c1 = ret 0 c1"
    if "header_taken c c1" "TdsLeftInPacket c1 = 0 \<or> buffered c1 \<noteq> []" for c1
  proof -
    have "recv_ok c1" "\<not> TdsDoProcessHeader c1"
      using that(1) by (simp_all add: header_taken_def kept_def)
    with that(2) show ?thesis
      by (subst TdsReadNextBuffer.simps) (auto simp: buffered_empty recv_ok_def)
  qed
  have "TdsReadNextBuffer c = io_then (TdsRecvbuf c) (\<lambda>(r, c). if r \<noteq> 0 then ret EOF c else TdsReadNextBuffer c)"
    using assms(3) by (subst TdsReadNextBuffer.simps) simp
  with TdsRecvbuf_boundary [OF assms] show ?thesis
    by (auto simp: boundary_result_def stop)
qed

section \<open>Bytes of a packet\<close>

definition consumed :: "nat \<Rightarrow> tds_comm \<Rightarrow> tds_comm \<Rightarrow> bool" where
  "consumed n c c' \<longleftrightarrow> kept c c' \<and> stream c' = drop n (stream c) \<and>
     TdsLeftInPacket c' = TdsLeftInPacket c - int n \<and>
     TdsDoProcessHeader c' = (TdsDoProcessHeader c \<or> 0 < n \<and> TdsLeftInPacket c' = 0) \<and>
     TdsRecvMessageType c' = TdsRecvMessageType c \<and> TdsRecvPacketStatus c' = TdsRecvPacketStatus c"

lemma consumed_0: "recv_ok c \<Longrightarrow> consumed 0 c c"
  by (simp add: consumed_def kept_refl)

lemma consumed_refilled: "refilled c c1 \<Longrightarrow> consumed n c1 c' \<Longrightarrow> consumed n c c'"
  using kept_trans [of c c1 c'] by (auto simp: consumed_def refilled_def)

lemma consumed_trans:
  "consumed m c c1 \<Longrightarrow> consumed n c1 c' \<Longrightarrow> int (m + n) \<le> TdsLeftInPacket c \<Longrightarrow> consumed (m + n) c c'"
  using kept_trans [of c c1 c'] by (auto simp: consumed_def add.commute)

lemma await_data_ok:
  assumes "recv_ok c" and "0 < TdsLeftInPacket c"
  shows "(\<exists>c'. await_data c = ret 0 c' \<and> refilled c c' \<and> buffered c' \<noteq> []) \<or>
         (\<exists>c'. await_data c = ret EOF c' \<and> refilled c c' \<and> (\<not> quiet c \<or> stream c = []))"
proof -
  have stop: "await_data c1 = ret 0 c1" if "refilled c c1" "buffered c1 \<noteq> []" for c1
    using that assms(2) refilledD(1,5) [OF that(1)]
    by (subst await_data.simps) (auto simp: buffered_empty recv_ok_def)
  show ?thesis
  proof (cases "buffered c = []")
    case True
    then have "await_data c = io_then (recv_more c) (\<lambda>(r, c). if r \<noteq> 0 then ret EOF c else await_data c)"
      using assms by (subst await_data.simps) (simp add: buffered_empty TdsRecvbuf_data)
    with recv_more_ok [OF assms] stop show ?thesis by fastforce
  next
    case False
    with stop [OF refilled_refl [OF assms(1)]] refilled_refl [OF assms(1)] show ?thesis by blast
  qed
qed

text \<open>One round of the loops that take bytes.\<close>

definition take_bytes :: "nat \<Rightarrow> tds_comm \<Rightarrow> tds_comm" where
  "take_bytes n c = TdsConsumedBytes n (c\<lparr>TdsRecvStart := TdsRecvStart c + n\<rparr>)"

lemma take_bytes_ok:
  assumes "recv_ok c" and "0 < n" and "int n \<le> TdsLeftInPacket c" and "n \<le> length (buffered c)"
  shows "consumed n c (take_bytes n c)"
    and "read_at (TdsRecvBuffer c) (TdsRecvStart c) n = Inr (take n (stream c))"
proof -
  have n: "TdsRecvStart c + n \<le> TdsRecvEnd c"
    using assms(1,4) by (auto simp: recv_ok_def)
  have "buffered (take_bytes n c) = drop n (buffered c)"
    using n assms(1)
    by (simp add: take_bytes_def TdsConsumedBytes_def Let_def buffered_def recv_ok_def drop_take
        diff_diff_left add.commute)
  then show "consumed n c (take_bytes n c)"
    using assms n
    by (auto simp: consumed_def kept_def recv_ok_def stream_def take_bytes_def TdsConsumedBytes_def Let_def)
  show "read_at (TdsRecvBuffer c) (TdsRecvStart c) n = Inr (take n (stream c))"
    using assms n by (simp add: read_at_def recv_ok_def stream_def buffered_def min_def)
qed

lemma amount_available_ok:
  assumes "recv_ok c" and "0 < len" and "int len \<le> TdsLeftInPacket c" and "buffered c \<noteq> []"
  shows "amount_available len c = min len (length (buffered c))"
proof -
  have "TdsRecvStart c < TdsRecvEnd c"
    using assms(1,4) by (auto simp: buffered_empty recv_ok_def)
  then show ?thesis
    using assms
    by (auto simp: amount_available_def recv_ok_def size_t_of_int_small min_def Let_def)
qed

text \<open>What a round of either loop takes.\<close>

lemma first_bytes:
  assumes "refilled c c1" and "buffered c1 \<noteq> []" and "int len \<le> TdsLeftInPacket c" and "len \<noteq> 0"
  shows "\<exists>n. 0 < n \<and> n \<le> len \<and> n \<le> length (stream c) \<and> amount_available len c1 = n \<and>
    read_at (TdsRecvBuffer c1) (TdsRecvStart c1) n = Inr (take n (stream c)) \<and>
    consumed n c (take_bytes n c1) \<and> recv_ok (take_bytes n c1) \<and>
    int (len - n) \<le> TdsLeftInPacket (take_bytes n c1) \<and>
    stream (take_bytes n c1) = drop n (stream c) \<and> kept c (take_bytes n c1)"
proof -
  note c1 = refilledD [OF assms(1)]
  define n where "n = min len (length (buffered c1))"
  have n: "0 < n" "n \<le> len" "n \<le> length (buffered c1)"
    using assms(2,4) by (auto simp: n_def)
  have left: "int len \<le> TdsLeftInPacket c1" using assms(3) c1 by simp
  have amount: "amount_available len c1 = n"
    using amount_available_ok [OF c1(1) _ left assms(2)] assms(4) by (simp add: n_def)
  have tb: "consumed n c1 (take_bytes n c1)"
    "read_at (TdsRecvBuffer c1) (TdsRecvStart c1) n = Inr (take n (stream c))"
    using take_bytes_ok [OF c1(1) n(1) _ n(3)] left n(2) c1(4) by simp_all
  have tb1: "consumed n c (take_bytes n c1)"
    using tb(1) by (rule consumed_refilled [OF assms(1)])
  have "n \<le> length (stream c)"
    using n(3) c1(4) by (metis le_trans length_append le_add1 stream_def)
  with n amount tb(2) tb1 assms(3) show ?thesis
    by (intro exI [of _ n]) (auto simp: consumed_def kept_def)
qed

lemma get_loop_ok:
  assumes "recv_ok c" and "int len \<le> TdsLeftInPacket c"
  shows "(\<exists>c'. get_loop len s c = ret 0 (s @ take len (stream c), c') \<and> consumed len c c' \<and>
            len \<le> length (stream c)) \<or>
         (\<exists>s' c'. get_loop len s c = ret EOF (s', c') \<and> kept c c' \<and> (\<not> quiet c \<or> length (stream c) < len))"
  using assms
proof (induction len arbitrary: s c rule: less_induct)
  case (less len)
  show ?case
  proof (cases "len = 0")
    case True
    then have "get_loop len s c = ret 0 (s, c)" by (subst get_loop.simps) simp
    with True consumed_0 [OF less.prems(1)] show ?thesis by simp
  next
    case False
    then have left: "0 < TdsLeftInPacket c" using less.prems(2) by simp
    from await_data_ok [OF less.prems(1) left] show ?thesis
    proof
      assume "\<exists>c'. await_data c = ret EOF c' \<and> refilled c c' \<and> (\<not> quiet c \<or> stream c = [])"
      then obtain c' where "await_data c = ret EOF c'" "refilled c c'" "\<not> quiet c \<or> stream c = []"
        by blast
      moreover from this(1) have "get_loop len s c = ret EOF (s, c')"
        using False by (subst get_loop.simps) simp
      ultimately show ?thesis
        using False by (auto simp: refilledD)
    next
      assume "\<exists>c'. await_data c = ret 0 c' \<and> refilled c c' \<and> buffered c' \<noteq> []"
      then obtain c1 where c1: "await_data c = ret 0 c1" "refilled c c1" "buffered c1 \<noteq> []" by blast
      from first_bytes [OF c1(2,3) less.prems(2) False] obtain n where n: "0 < n" "n \<le> len"
        "n \<le> length (stream c)" "amount_available len c1 = n"
        "read_at (TdsRecvBuffer c1) (TdsRecvStart c1) n = Inr (take n (stream c))"
        "consumed n c (take_bytes n c1)" "recv_ok (take_bytes n c1)"
        "int (len - n) \<le> TdsLeftInPacket (take_bytes n c1)"
        "stream (take_bytes n c1) = drop n (stream c)" "kept c (take_bytes n c1)"
        by blast
      have step: "get_loop len s c = get_loop (len - n) (s @ take n (stream c)) (take_bytes n c1)"
        using False c1(1) n(4,5) by (subst get_loop.simps) (simp add: take_bytes_def)
      have "len - n < len" using n False by simp
      from less.IH [OF this n(7,8), of "s @ take n (stream c)", unfolded n(9)] show ?thesis
      proof (elim disjE exE conjE)
        fix c' assume c': "get_loop (len - n) (s @ take n (stream c)) (take_bytes n c1) =
            ret 0 ((s @ take n (stream c)) @ take (len - n) (drop n (stream c)), c')"
          "consumed (len - n) (take_bytes n c1) c'" "len - n \<le> length (drop n (stream c))"
        have "take n (stream c) @ take (len - n) (drop n (stream c)) = take len (stream c)"
          using n(2) by (metis le_add_diff_inverse take_add)
        moreover have "consumed len c c'"
          using consumed_trans [OF n(6) c'(2)] n(2) less.prems(2) by simp
        ultimately show ?thesis
          using c' n
          by (intro disjI1 exI [of _ c']) (simp add: step)
      qed (use n(10) in \<open>auto simp: step intro: kept_trans dest: quiet_kept [OF _ n(10)]\<close>)
    qed
  qed
qed

lemma TdsDiscardbytes_ok:
  assumes "recv_ok c" and "int len \<le> TdsLeftInPacket c"
  shows "(\<exists>c'. TdsDiscardbytes len c = ret 0 c' \<and> consumed len c c' \<and> len \<le> length (stream c)) \<or>
         (\<exists>c'. TdsDiscardbytes len c = ret EOF c' \<and> kept c c' \<and> (\<not> quiet c \<or> length (stream c) < len))"
  using assms
proof (induction len arbitrary: c rule: less_induct)
  case (less len)
  show ?case
  proof (cases "len = 0")
    case True
    then have "TdsDiscardbytes len c = ret 0 c" by (subst TdsDiscardbytes.simps) simp
    with True consumed_0 [OF less.prems(1)] show ?thesis by simp
  next
    case False
    then have left: "0 < TdsLeftInPacket c" using less.prems(2) by simp
    from await_data_ok [OF less.prems(1) left] show ?thesis
    proof
      assume "\<exists>c'. await_data c = ret EOF c' \<and> refilled c c' \<and> (\<not> quiet c \<or> stream c = [])"
      then obtain c' where "await_data c = ret EOF c'" "refilled c c'" "\<not> quiet c \<or> stream c = []"
        by blast
      moreover from this(1) have "TdsDiscardbytes len c = ret EOF c'"
        using False by (subst TdsDiscardbytes.simps) simp
      ultimately show ?thesis
        using False by (auto simp: refilledD)
    next
      assume "\<exists>c'. await_data c = ret 0 c' \<and> refilled c c' \<and> buffered c' \<noteq> []"
      then obtain c1 where c1: "await_data c = ret 0 c1" "refilled c c1" "buffered c1 \<noteq> []" by blast
      from first_bytes [OF c1(2,3) less.prems(2) False] obtain n where n: "0 < n" "n \<le> len"
        "n \<le> length (stream c)" "amount_available len c1 = n" "consumed n c (take_bytes n c1)"
        "recv_ok (take_bytes n c1)" "int (len - n) \<le> TdsLeftInPacket (take_bytes n c1)"
        "stream (take_bytes n c1) = drop n (stream c)" "kept c (take_bytes n c1)"
        by blast
      have step: "TdsDiscardbytes len c = TdsDiscardbytes (len - n) (take_bytes n c1)"
        using False c1(1) n(4) by (subst TdsDiscardbytes.simps) (simp add: take_bytes_def)
      have "len - n < len" using n False by simp
      from less.IH [OF this n(6,7), unfolded n(8)] show ?thesis
      proof (elim disjE exE conjE)
        fix c' assume c': "TdsDiscardbytes (len - n) (take_bytes n c1) = ret 0 c'"
          "consumed (len - n) (take_bytes n c1) c'" "len - n \<le> length (drop n (stream c))"
        then have "consumed len c c'"
          using consumed_trans [OF n(5) c'(2)] n(2) less.prems(2) by simp
        with c' n step show ?thesis by (intro disjI1 exI [of _ c']) simp
      qed (use n(9) in \<open>auto simp: step intro: kept_trans dest: quiet_kept [OF _ n(9)]\<close>)
    qed
  qed
qed

section \<open>Requests\<close>

text \<open>
  What a stream holds for the reader of requests: a request and the bytes after it, an end
  before the request is complete, a header that is refused, or an empty packet that is
  neither the last one nor part of a bulk load, at which the reader never gets on. The flag
  of a request tells that its last packet is empty.
\<close>

datatype request_view =
    Request tds_request bool "byte list"
  | Truncated
  | Violated pg_error
  | Forever

definition add_packet :: "bool \<Rightarrow> byte \<Rightarrow> byte \<Rightarrow> byte list \<Rightarrow> tds_request \<Rightarrow> tds_request" where
  "add_packet isFirst ty st b q =
     (let q = (if isFirst then q\<lparr>req_type := ty, req_status := st\<rparr> else q)
      in q\<lparr>req_message := req_message q @ b\<rparr>)"

function parse_request :: "nat \<Rightarrow> bool \<Rightarrow> tds_request \<Rightarrow> byte list \<Rightarrow> request_view" where
  "parse_request B isFirst q s =
     (case parse_packet B s of
        Short \<Rightarrow> Truncated
      | Violation e \<Rightarrow> Violated e
      | Packet ty st b rest \<Rightarrow>
          (let q = add_packet isFirst ty st b q
           in if is_eom st then Request q (b = []) rest
              else if ty = TDS_BULK_LOAD then Request q False rest
              else if b = [] then Forever
              else parse_request B False q rest))"
  by pat_completeness auto

lemma parse_packet_PacketD:
  assumes "parse_packet B s = Packet ty st b rest"
  shows "8 \<le> length s" "bad_header B s = None" "packet_length s \<le> length s" "ty = s ! 0" "st = s ! 1"
    "b = take (packet_length s - 8) (drop 8 s)" "rest = drop (packet_length s) s"
    "8 \<le> packet_length s" "packet_length s \<le> B"
    "length b + length rest + 8 = length s"
  using assms by (auto simp: parse_packet_def bad_header_def split: if_splits)

termination parse_request
  by (relation "measure (\<lambda>(B, isFirst, q, s). length s)") (auto dest: parse_packet_PacketD(10))

text \<open>The reader waits for a header at the beginning of a packet.\<close>

definition at_boundary :: "tds_comm \<Rightarrow> bool" where
  "at_boundary c \<longleftrightarrow> recv_ok c \<and> TdsLeftInPacket c = 0 \<and> TdsDoProcessHeader c"

definition grants :: "enlarge \<Rightarrow> nat \<Rightarrow> bool" where
  "grants enlargeStringInfo k \<longleftrightarrow> (\<forall>len n. len + n \<le> k \<longrightarrow> enlargeStringInfo len n = Inr ())"

lemma grantsD: "grants enl k \<Longrightarrow> len + n \<le> k \<Longrightarrow> enl len n = Inr ()"
  by (simp add: grants_def)

lemma grants_mono: "grants enl k \<Longrightarrow> k' \<le> k \<Longrightarrow> grants enl k'"
  by (auto simp: grants_def)

text \<open>A packet whose header was just read.\<close>

lemma append_packet_ok:
  assumes taken: "header_taken c c1" and "grants enl (length m + TdsBufferSize c)"
  defines "n \<equiv> packet_length (stream c) - 8"
  shows "(\<exists>c'. append_packet enl m c1 = ret 0 (m @ take n (stream c1), c') \<and> consumed n c1 c' \<and>
            parse_packet (TdsBufferSize c) (stream c) =
              Packet (TdsRecvMessageType c1) (TdsRecvPacketStatus c1) (take n (stream c1)) (stream c')) \<or>
         (\<exists>c'. append_packet enl m c1 = ret EOF (m, c') \<and> kept c1 c' \<and>
            (\<not> quiet c1 \<or> parse_packet (TdsBufferSize c) (stream c) = Short))"
proof -
  have c1: "recv_ok c1" "TdsLeftInPacket c1 = int n" "stream c1 = drop 8 (stream c)"
    "8 \<le> length (stream c)" "bad_header (TdsBufferSize c) (stream c) = None"
    using taken by (simp_all add: header_taken_def kept_def n_def)
  have pl: "packet_length (stream c) = n + 8" "packet_length (stream c) \<le> TdsBufferSize c"
    using c1(5) by (auto simp: bad_header_def n_def split: if_splits)
  have "size_t_of_int (TdsLeftInPacket c1) = n"
    using c1(1,2) by (simp add: recv_ok_def size_t_of_int_small)
  moreover have "enl (length m) n = Inr ()"
    using assms(2) pl by (intro grantsD) auto
  ultimately have ap: "append_packet enl m c1 = io_then (get_loop n [] c1) (\<lambda>(r, b, c).
      if r \<noteq> 0 then ret EOF (m, c) else ret 0 (m @ b, c))"
    by (simp add: append_packet_def TdsGetbytes_def)
  have "get_loop n [] c1 = ret 0 (take n (stream c1), c') \<Longrightarrow> consumed n c1 c' \<Longrightarrow> n \<le> length (stream c1) \<Longrightarrow>
      parse_packet (TdsBufferSize c) (stream c) =
        Packet (TdsRecvMessageType c1) (TdsRecvPacketStatus c1) (take n (stream c1)) (stream c')" for c'
    using c1 pl taken by (auto simp: parse_packet_def header_taken_def consumed_def add.commute)
  moreover have "length (stream c1) < n \<Longrightarrow> parse_packet (TdsBufferSize c) (stream c) = Short"
    using c1 pl by (intro parse_packet_cases(3)) auto
  ultimately show ?thesis
    using get_loop_ok [of c1 n "[]"] c1(1,2) unfolding ap by fastforce
qed

text \<open>At a packet without data that does not end the request the loop stands still.\<close>

definition stands_still :: "enlarge \<Rightarrow> bool \<Rightarrow> tds_request \<Rightarrow> tds_comm \<Rightarrow> bool" where
  "stands_still enl isFirst q c \<longleftrightarrow> \<not> isFirst \<and> TdsLeftInPacket c = 0 \<and> \<not> TdsDoProcessHeader c \<and>
     \<not> is_eom (TdsRecvPacketStatus c) \<and> TdsRecvMessageType c \<noteq> TDS_BULK_LOAD \<and>
     enl (length (req_message q)) 0 = Inr ()"

lemma no_data:
  assumes "TdsLeftInPacket c = 0" and "\<not> TdsDoProcessHeader c"
  shows "TdsReadNextBuffer c = ret 0 c"
    and "enl (length m) 0 = Inr () \<Longrightarrow> append_packet enl m c = ret 0 (m, c)"
  using assms TdsReadNextBuffer.simps [of c] get_loop.simps [of 0 "[]" c]
  by (simp_all add: append_packet_def TdsGetbytes_def size_t_of_int_def)

lemma request_loop_stuck:
  assumes "stands_still enl isFirst q c"
  shows "request_loop enl isFirst q c = None"
proof (rule ccontr)
  assume "request_loop enl isFirst q c \<noteq> None"
  then obtain y where "request_loop enl isFirst q c = Some y" by blast
  then have "stands_still enl isFirst q c \<longrightarrow> False"
  proof (rule request_loop.raw_induct
      [where P = "\<lambda>enl isFirst q c y. stands_still enl isFirst q c \<longrightarrow> False", rotated], goal_cases)
    case (1 loop enl isFirst q c y)
    show ?case
    proof
      assume stuck: "stands_still enl isFirst q c"
      then have "loop enl False q c = Some y"
        using 1(2) no_data(1) [of c] no_data(2) [of c enl "req_message q"] by (simp add: stands_still_def)
      with 1(1) stuck show False
        by (fastforce simp: stands_still_def)
    qed
  qed
  with assms show False by blast
qed

definition request_result ::
  "tds_comm \<Rightarrow> request_view \<Rightarrow> (tds_request \<times> tds_comm) io \<Rightarrow> bool" where
  "request_result c view res \<longleftrightarrow>
     (case view of
        Request q stuck rest \<Rightarrow> \<exists>c'. res = ret 0 (q, c') \<and> kept c c' \<and> stream c' = rest \<and>
          TdsLeftInPacket c' = 0 \<and> TdsDoProcessHeader c' = (\<not> stuck \<or> buffered c' = [])
      | Truncated \<Rightarrow> \<exists>q c'. res = ret EOF (q, c') \<and> kept c c'
      | Violated e \<Rightarrow> res = Some (Inl e)
      | Forever \<Rightarrow> res = None)"

lemma request_result_kept:
  "kept c c1 \<Longrightarrow> request_result c1 view res \<Longrightarrow> request_result c view res"
  by (cases view) (auto simp: request_result_def dest: kept_trans [of c c1])

declare parse_request.simps [simp del]

text \<open>One round of the loop, from the beginning of a packet.\<close>

lemma request_round:
  assumes b: "at_boundary c" and quiet: "quiet c" and "grants enl (length (req_message q) + TdsBufferSize c)"
  shows "case parse_packet (TdsBufferSize c) (stream c) of
      Short \<Rightarrow> \<exists>q' c'. request_loop enl isFirst q c = ret EOF (q', c') \<and> kept c c'
    | Violation e \<Rightarrow> request_loop enl isFirst q c = Some (Inl e)
    | Packet ty st b rest \<Rightarrow> \<exists>c'. kept c c' \<and> stream c' = rest \<and> TdsLeftInPacket c' = 0 \<and>
        TdsDoProcessHeader c' = (b \<noteq> []) \<and> TdsRecvMessageType c' = ty \<and> TdsRecvPacketStatus c' = st \<and>
        request_loop enl isFirst q c =
          (let q = add_packet isFirst ty st b q
           in if is_eom st
              then ret 0 (q, if TdsRecvStart c' = TdsRecvEnd c' then c'\<lparr>TdsDoProcessHeader := True\<rparr> else c')
              else if ty = TDS_BULK_LOAD then ret 0 (q, c'\<lparr>TdsDoProcessHeader := True\<rparr>)
              else request_loop enl False q c')"
proof -
  let ?B = "TdsBufferSize c" and ?s = "stream c"
  have "recv_ok c" "TdsLeftInPacket c = 0" "TdsDoProcessHeader c"
    using b by (simp_all add: at_boundary_def)
  note next_buf = TdsReadNextBuffer_boundary [OF this] and loop = request_loop.simps [of enl isFirst q c]
  from next_buf [unfolded boundary_result_def] quiet
  consider (eof) c1 where "TdsReadNextBuffer c = ret EOF c1" "kept c c1" "parse_packet ?B ?s = Short"
    | (bad) e where "TdsReadNextBuffer c = Some (Inl e)" "parse_packet ?B ?s = Violation e"
    | (header) c1 where "TdsReadNextBuffer c = ret 0 c1" "header_taken c c1"
    by blast
  then show ?thesis
  proof cases
    case (header c1)
    note next_buf = header(1) and taken = header(2)
    define n where "n = packet_length ?s - 8"
    define q1 where "q1 = (if isFirst then q\<lparr>req_type := TdsRecvMessageType c1,
      req_status := TdsRecvPacketStatus c1\<rparr> else q)"
    have k1: "kept c c1" and fresh: "\<not> TdsDoProcessHeader c1" "TdsLeftInPacket c1 = int n"
      using taken by (simp_all add: header_taken_def n_def)
    have "grants enl (length (req_message q1) + ?B)"
      using assms(3) by (simp add: q1_def)
    from append_packet_ok [OF taken this, folded n_def] show ?thesis
    proof (elim disjE exE conjE)
      fix c2 assume c2: "append_packet enl (req_message q1) c1 = ret 0 (req_message q1 @ take n (stream c1), c2)"
        "consumed n c1 c2"
        and packet: "parse_packet ?B ?s = Packet (TdsRecvMessageType c1) (TdsRecvPacketStatus c1)
          (take n (stream c1)) (stream c2)"
      from c2(2) k1 fresh have state2: "kept c c2" "TdsLeftInPacket c2 = 0"
        "TdsDoProcessHeader c2 = (0 < n)" "TdsRecvMessageType c2 = TdsRecvMessageType c1"
        "TdsRecvPacketStatus c2 = TdsRecvPacketStatus c1"
        by (auto simp: consumed_def intro: kept_trans)
      have "n \<le> length (stream c1)"
        using parse_packet_PacketD(1,3,8) [OF packet] taken by (simp add: header_taken_def n_def)
      then have "TdsDoProcessHeader c2 = (take n (stream c1) \<noteq> [])"
        using state2(3) by (cases "stream c1") auto
      with state2(1,2,4,5) next_buf c2(1) show ?thesis
        unfolding packet packet_view.case
        by (intro exI [of _ c2]) (simp add: loop q1_def [symmetric] add_packet_def Let_def)
    qed (use next_buf k1 quiet quiet_kept [OF quiet k1] in
        \<open>auto simp: loop q1_def [symmetric] intro: kept_trans\<close>)
  qed (simp_all add: loop)
qed

lemma request_loop_ok:
  assumes "at_boundary c" and "quiet c"
    and "grants enl (length (req_message q) + length (stream c) + TdsBufferSize c)"
  shows "request_result c (parse_request (TdsBufferSize c) isFirst q (stream c))
    (request_loop enl isFirst q c)"
  using assms
proof (induction "length (stream c)" arbitrary: c q isFirst rule: less_induct)
  case less
  let ?B = "TdsBufferSize c" and ?s = "stream c"
  have "grants enl (length (req_message q) + ?B)"
    using grants_mono [OF less.prems(3)] by simp
  note round = request_round [OF less.prems(1,2) this, of isFirst]
  show ?case
  proof (cases "parse_packet ?B ?s")
    case (Packet ty st b rest)
    define q2 where "q2 = add_packet isFirst ty st b q"
    from round [unfolded Packet packet_view.case Let_def, folded q2_def] obtain c2 where c2: "kept c c2" "stream c2 = rest" "TdsLeftInPacket c2 = 0"
        "TdsDoProcessHeader c2 = (b \<noteq> [])" "TdsRecvMessageType c2 = ty" "TdsRecvPacketStatus c2 = st"
        and run: "request_loop enl isFirst q c = (if is_eom st
              then ret 0 (q2, if TdsRecvStart c2 = TdsRecvEnd c2 then c2\<lparr>TdsDoProcessHeader := True\<rparr> else c2)
              else if ty = TDS_BULK_LOAD then ret 0 (q2, c2\<lparr>TdsDoProcessHeader := True\<rparr>)
              else request_loop enl False q2 c2)"
      by blast
    have view: "parse_request ?B isFirst q ?s = (if is_eom st then Request q2 (b = []) rest
        else if ty = TDS_BULK_LOAD then Request q2 False rest
        else if b = [] then Forever else parse_request ?B False q2 rest)"
      by (simp add: parse_request.simps [of _ _ _ ?s] Packet q2_def Let_def)
    have ok2: "recv_ok c2" "TdsBufferSize c2 = ?B" "quiet c2"
      using c2(1) quiet_kept [OF less.prems(2) c2(1)] by (auto simp: kept_def dest: sender_eqD)
    have len: "length (req_message q2) + length rest + 8 = length (req_message q) + length ?s" "length rest < length ?s"
      using parse_packet_PacketD(10) [OF Packet] by (simp_all add: q2_def add_packet_def Let_def)
    have header_flag: "kept c (c2\<lparr>TdsDoProcessHeader := True\<rparr>)" "stream (c2\<lparr>TdsDoProcessHeader := True\<rparr>) = rest"
      "buffered (c2\<lparr>TdsDoProcessHeader := True\<rparr>) = buffered c2"
      using c2(1,2) by (simp_all add: kept_def recv_ok_def stream_def buffered_def)
    consider (eom) "is_eom st" | (bulk) "\<not> is_eom st" "ty = TDS_BULK_LOAD"
      | (empty) "\<not> is_eom st" "ty \<noteq> TDS_BULK_LOAD" "b = []"
      | (more) "\<not> is_eom st" "ty \<noteq> TDS_BULK_LOAD" "b \<noteq> []"
      by blast
    then show ?thesis
    proof cases
      case eom
      with c2 ok2 header_flag show ?thesis
        by (auto simp: view run request_result_def buffered_empty)
    next
      case bulk
      with c2 header_flag show ?thesis by (auto simp: view run request_result_def)
    next
      case empty
      have "stands_still enl False q2 c2"
        using empty c2 len less.prems(3) by (auto simp: stands_still_def intro!: grantsD)
      with empty show ?thesis by (simp add: view run request_result_def request_loop_stuck)
    next
      case more
      with c2 ok2 have "at_boundary c2" by (simp add: at_boundary_def)
      moreover have "grants enl (length (req_message q2) + length (stream c2) + TdsBufferSize c2)"
        using len c2(2) ok2(2) by (intro grants_mono [OF less.prems(3)]) simp
      ultimately have "request_result c2 (parse_request (TdsBufferSize c2) False q2 (stream c2))
          (request_loop enl False q2 c2)"
        using len(2) c2(2) ok2(3) by (intro less.hyps) simp_all
      with more c2(1,2) ok2(2) show ?thesis
        by (simp add: view run request_result_kept)
    qed
  qed (use round in \<open>simp_all add: request_result_def parse_request.simps [of _ _ _ ?s]\<close>)
qed
section \<open>Packets that are sent\<close>

definition packet :: "byte \<Rightarrow> byte \<Rightarrow> byte list \<Rightarrow> byte list" where
  "packet ty st b =
     [ty, st, word_of_nat ((length b + 8) div 256), word_of_nat (length b + 8), 0, 0, 0, 0] @ b"

text \<open>A message is cut into pieces of \<open>n\<close> bytes; the last piece has between 1 and \<open>n\<close>.\<close>

fun pieces :: "nat \<Rightarrow> byte list \<Rightarrow> byte list list" where
  "pieces n m = (if 0 < n \<and> n < length m then take n m # pieces n (drop n m) else [m])"

declare pieces.simps [simp del]

definition message_bytes :: "nat \<Rightarrow> byte \<Rightarrow> byte list \<Rightarrow> byte list" where
  "message_bytes B ty m =
     (let ps = pieces (B - 8) m
      in concat (map (packet ty 0) (butlast ps)) @ packet ty TDS_PACKET_HEADER_STATUS_EOM (last ps))"

text \<open>The bytes put into the send buffer after the last flush.\<close>

definition pending :: "tds_comm \<Rightarrow> byte list" where
  "pending c = take (TdsSendCur c - 8) (drop 8 (TdsSendBuffer c))"

text \<open>No write fails or would block.\<close>

definition willing :: "tds_comm \<Rightarrow> bool" where
  "willing c \<longleftrightarrow> Write_EAGAIN \<notin> set (write_events c) \<and> Write_error \<notin> set (write_events c)"

lemma receiver_simps [simp]:
  "receiver (c\<lparr>TdsSendBuffer := d\<rparr>) = receiver c" "receiver (c\<lparr>TdsSendCur := i\<rparr>) = receiver c"
  "receiver (c\<lparr>TdsSendStart := i\<rparr>) = receiver c" "receiver (c\<lparr>TdsSendMessageType := t\<rparr>) = receiver c"
  "receiver (c\<lparr>noblock := nb\<rparr>) = receiver c" "receiver (c\<lparr>ClientConnectionLost := b\<rparr>) = receiver c"
  "receiver (c\<lparr>outgoing := bs\<rparr>) = receiver c" "receiver (c\<lparr>write_events := es\<rparr>) = receiver c"
  by (simp_all add: receiver_def)

lemma receiver_eqD:
  assumes "receiver c' = receiver c"
  shows "TdsBufferSize c' = TdsBufferSize c" "TdsRecvBuffer c' = TdsRecvBuffer c"
    "TdsRecvStart c' = TdsRecvStart c" "TdsRecvEnd c' = TdsRecvEnd c"
    "TdsLeftInPacket c' = TdsLeftInPacket c" "TdsDoProcessHeader c' = TdsDoProcessHeader c"
    "incoming c' = incoming c" "read_events c' = read_events c"
  using assms unfolding receiver_def by (cases c; cases c'; simp)+

lemma take_drop_split:
  "r \<le> n \<Longrightarrow> take n (drop k xs) = take r (drop k xs) @ take (n - r) (drop (k + r) xs)"
  by (metis add.commute drop_drop le_add_diff_inverse take_add)

text \<open>Flushing with any outcomes of the writes, and when all of them succeed.\<close>

lemma write_loop_ok:
  assumes "send_ok c" and "write_events c = es"
  shows "\<exists>r c'. write_loop es c = Inr (r, c') \<and> send_ok c' \<and> receiver c' = receiver c \<and>
    noblock c' = noblock c \<and> (r = 0 \<or> r = EOF) \<and> set (write_events c') \<subseteq> set es \<and>
    (willing c \<longrightarrow> r = 0 \<and> TdsSendStart c' = 0 \<and> TdsSendCur c' = 8 \<and>
       TdsSendMessageType c' = TdsSendMessageType c \<and>
       outgoing c' = outgoing c @ take (TdsSendCur c - TdsSendStart c) (drop (TdsSendStart c) (TdsSendBuffer c)))"
  using assms
proof (induction es c rule: write_loop.induct)
  case (1 c)
  then show ?case
    by (auto simp: transmit_def read_at_def reset_send_def send_ok_def willing_def)
next
  case (2 e es c)
  show ?case
  proof (cases "TdsSendStart c < TdsSendCur c")
    case False
    with "2.prems" show ?thesis
      by (auto simp: reset_send_def send_ok_def)
  next
    case True
    let ?c1 = "c\<lparr>write_events := es\<rparr>"
    have c1: "send_ok ?c1" using "2.prems" by (simp add: send_ok_def)
    show ?thesis
    proof (cases e)
      case (Accept n)
      let ?r = "min (Suc n) (TdsSendCur c - TdsSendStart c)"
      let ?c2 = "?c1\<lparr>outgoing := outgoing c @ take ?r (drop (TdsSendStart c) (TdsSendBuffer c)),
        TdsSendStart := TdsSendStart c + ?r\<rparr>"
      have tr: "transmit (min (Suc n) (TdsSendCur ?c1 - TdsSendStart ?c1)) ?c1 = Inr ?c2"
        using "2.prems" True by (auto simp: transmit_def read_at_def send_ok_def)
      have c2: "send_ok ?c2" using c1 True by (auto simp: send_ok_def)
      have "take (TdsSendCur c - TdsSendStart c) (drop (TdsSendStart c) (TdsSendBuffer c)) =
          take ?r (drop (TdsSendStart c) (TdsSendBuffer c)) @
          take (TdsSendCur c - (TdsSendStart c + ?r)) (drop (TdsSendStart c + ?r) (TdsSendBuffer c))"
        unfolding diff_diff_left [symmetric] by (rule take_drop_split) simp
      with "2.IH"(1) [OF True refl Accept tr c2] Accept True tr "2.prems" show ?thesis
        by (auto simp: willing_def)
    next
      case Write_EINTR
      with "2.IH"(2) [OF True refl] c1 True "2.prems" show ?thesis
        by (auto simp: willing_def)
    next
      case Write_EAGAIN
      with True c1 "2.prems" show ?thesis by (auto simp: willing_def)
    next
      case Write_error
      with True c1 "2.prems" show ?thesis by (auto simp: willing_def reset_send_def send_ok_def)
    qed
  qed
qed


lemma TdsFillHeader_ok:
  assumes "send_ok c" and "TdsSendStart c = 0"
  shows "\<exists>d. TdsFillHeader lastPacket c = Inr (c\<lparr>TdsSendBuffer := d\<rparr>) \<and> length d = TdsBufferSize c \<and>
    take (TdsSendCur c) d = packet (TdsSendMessageType c) (if lastPacket then 1 else 0) (pending c)"
proof -
  have n: "length (pending c) + 8 = TdsSendCur c"
    using assms by (auto simp: send_ok_def pending_def)
  define h where "h = [TdsSendMessageType c, if lastPacket then 1 else 0,
    word_of_nat (TdsSendCur c div 256), word_of_nat (TdsSendCur c), 0, 0, 0, 0 :: byte]"
  have len: "length h = 8" by (simp add: h_def)
  have "TdsFillHeader lastPacket c = Inr (c\<lparr>TdsSendBuffer := h @ drop 8 (TdsSendBuffer c)\<rparr>)"
    using assms len unfolding TdsFillHeader_def Let_def
    by (simp add: h_def [symmetric] memcpy_at_def send_ok_def)
  moreover have "take (TdsSendCur c) (h @ drop 8 (TdsSendBuffer c)) = h @ pending c"
    using assms len by (simp add: pending_def send_ok_def)
  moreover have "h @ pending c = packet (TdsSendMessageType c) (if lastPacket then 1 else 0) (pending c)"
    by (simp add: packet_def h_def n)
  ultimately show ?thesis
    using assms len by (auto simp: send_ok_def)
qed

lemma InternalFlush_ok:
  assumes "send_ok c"
  shows "\<exists>r c'. InternalFlush lastPacket c = Inr (r, c') \<and> send_ok c' \<and> receiver c' = receiver c \<and>
    noblock c' = noblock c \<and> (r = 0 \<or> r = EOF) \<and> set (write_events c') \<subseteq> set (write_events c) \<and>
    (willing c \<longrightarrow> TdsSendStart c = 0 \<longrightarrow> r = 0 \<and> TdsSendStart c' = 0 \<and> TdsSendCur c' = 8 \<and>
       TdsSendMessageType c' = (if lastPacket then 0 else TdsSendMessageType c) \<and>
       outgoing c' = outgoing c @
         packet (TdsSendMessageType c) (if lastPacket then TDS_PACKET_HEADER_STATUS_EOM else 0) (pending c))"
proof -
  obtain d where d: "(if TdsSendStart c = 0 then TdsFillHeader lastPacket c else Inr c) =
        Inr (c\<lparr>TdsSendBuffer := d\<rparr>)" "length d = TdsBufferSize c"
      "TdsSendStart c = 0 \<longrightarrow> take (TdsSendCur c) d =
        packet (TdsSendMessageType c) (if lastPacket then 1 else 0) (pending c)"
  proof (cases "TdsSendStart c = 0")
    case True
    with TdsFillHeader_ok [OF assms True] that show ?thesis by auto
  next
    case False
    with assms that [of "TdsSendBuffer c"] show ?thesis by (simp add: send_ok_def)
  qed
  let ?c1 = "(if lastPacket then c\<lparr>TdsSendBuffer := d, TdsSendMessageType := 0\<rparr> else c\<lparr>TdsSendBuffer := d\<rparr>)"
  have "InternalFlush lastPacket c = write_loop (write_events ?c1) ?c1"
    unfolding InternalFlush_def d(1) by simp
  moreover have "send_ok ?c1" "willing ?c1 = willing c"
    using assms d(2) by (simp_all add: send_ok_def willing_def)
  ultimately show ?thesis
    using write_loop_ok [of ?c1 "write_events ?c1"] d(3)
    by (auto simp: TDS_PACKET_HEADER_STATUS_EOM_def split: if_splits)
qed

lemma FlushBuffer_ok:
  assumes "send_ok c"
  shows "\<exists>r c'. and_then (SocketSetNonblocking False c) (InternalFlush lastPacket) = Inr (r, c') \<and>
    send_ok c' \<and> receiver c' = receiver c \<and>
    (r = 0 \<or> r = EOF) \<and> set (write_events c') \<subseteq> set (write_events c) \<and>
    (willing c \<longrightarrow> TdsSendStart c = 0 \<longrightarrow> r = 0 \<and> TdsSendStart c' = 0 \<and> TdsSendCur c' = 8 \<and>
       TdsSendMessageType c' = (if lastPacket then 0 else TdsSendMessageType c) \<and>
       outgoing c' = outgoing c @
         packet (TdsSendMessageType c) (if lastPacket then TDS_PACKET_HEADER_STATUS_EOM else 0) (pending c))"
proof -
  let ?c1 = "c\<lparr>noblock := Some False\<rparr>"
  have "SocketSetNonblocking False c = Inr ?c1" "send_ok ?c1" "willing ?c1 = willing c" "pending ?c1 = pending c"
    using assms by (auto simp: SocketSetNonblocking_def send_ok_def willing_def pending_def)
  with InternalFlush_ok [of ?c1 lastPacket] show ?thesis
    by auto
qed

lemma willing_subset: "willing c \<Longrightarrow> set (write_events c') \<subseteq> set (write_events c) \<Longrightarrow> willing c'"
  by (auto simp: willing_def)

lemma pieces_not_Nil [simp]: "pieces n m \<noteq> []"
  by (subst pieces.simps) simp

lemma pieces_append:
  "0 < n \<Longrightarrow> length u = n \<Longrightarrow> s \<noteq> [] \<Longrightarrow> pieces n (u @ s) = u # pieces n s"
  by (subst pieces.simps) simp

lemma pieces_short: "length m \<le> n \<Longrightarrow> pieces n m = [m]"
  by (subst pieces.simps) simp

lemma pieces_concat [simp]: "concat (pieces n m) = m"
  by (induction n m rule: pieces.induct) (subst pieces.simps, simp)

lemma pieces_lengths:
  assumes "0 < n"
  shows "\<forall>p \<in> set (pieces n m). length p \<le> n \<and> (m \<noteq> [] \<longrightarrow> p \<noteq> [])"
  using assms
proof (induction n m rule: pieces.induct)
  case (1 n m)
  then show ?case
    by (cases "n < length m") (simp_all add: pieces.simps [of n m])
qed

text \<open>The bytes of a put go to the buffer, which is sent whenever it is full and more follows.\<close>

lemma put_some:
  assumes "send_ok c" and "TdsSendCur c + k \<le> TdsBufferSize c" and "length b = k"
  defines "d \<equiv> take (TdsSendCur c) (TdsSendBuffer c) @ b @ drop (TdsSendCur c + k) (TdsSendBuffer c)"
  shows "memcpy_at (TdsSendBuffer c) (TdsSendCur c) b = Inr d"
    and "send_ok (c\<lparr>TdsSendBuffer := d, TdsSendCur := TdsSendCur c + k\<rparr>)"
    and "pending (c\<lparr>TdsSendBuffer := d, TdsSendCur := TdsSendCur c + k\<rparr>) = pending c @ b"
proof -
  have len: "TdsSendCur c \<le> length (TdsSendBuffer c)" "8 \<le> TdsSendCur c"
    using assms(1) by (simp_all add: send_ok_def)
  show "memcpy_at (TdsSendBuffer c) (TdsSendCur c) b = Inr d"
    using assms by (simp add: memcpy_at_def send_ok_def)
  show "send_ok (c\<lparr>TdsSendBuffer := d, TdsSendCur := TdsSendCur c + k\<rparr>)"
    using assms by (auto simp: send_ok_def)
  show "pending (c\<lparr>TdsSendBuffer := d, TdsSendCur := TdsSendCur c + k\<rparr>) = pending c @ b"
    using len assms(3) by (simp add: pending_def d_def drop_take)
qed

definition put_result :: "tds_comm \<Rightarrow> byte list \<Rightarrow> tds_comm \<Rightarrow> bool" where
  "put_result c s c' \<longleftrightarrow> send_ok c' \<and> receiver c' = receiver c \<and> TdsSendStart c' = 0 \<and> willing c' \<and>
     TdsSendMessageType c' = TdsSendMessageType c \<and>
     (let ps = pieces (TdsBufferSize c - 8) (pending c @ s)
      in pending c' = last ps \<and>
         outgoing c' = outgoing c @ concat (map (packet (TdsSendMessageType c) 0) (butlast ps)))"

lemma put_resultI_refl:
  assumes "send_ok c" and "TdsSendStart c = 0" and "willing c"
  shows "put_result c [] c"
  using assms by (auto simp: put_result_def pieces_short send_ok_def pending_def)

lemma InternalPutbytes_ok:
  assumes "send_ok c" and "TdsSendStart c = 0" and "willing c"
  shows "\<exists>c'. InternalPutbytes s c = ret 0 c' \<and> put_result c s c'"
  using assms
proof (induction "length s" arbitrary: s c rule: less_induct)
  case less
  show ?case
  proof (cases "s = []")
    case True
    with put_resultI_refl [OF less.prems] show ?thesis by (subst InternalPutbytes.simps) simp
  next
    case False
    let ?B = "TdsBufferSize c"
    have B: "8 < ?B" "?B \<le> 65535" "8 \<le> TdsSendCur c" "TdsSendCur c \<le> ?B"
      using less.prems(1) by (simp_all add: send_ok_def)
    obtain c1 where c1: "(if ?B \<le> TdsSendCur c then FlushBuffer c else Inr (0, c)) = Inr (0, c1)"
      "send_ok c1" "receiver c1 = receiver c" "TdsSendStart c1 = 0" "willing c1"
      "TdsSendMessageType c1 = TdsSendMessageType c" "TdsSendCur c1 < ?B"
      "outgoing c1 = outgoing c @ (if ?B \<le> TdsSendCur c then packet (TdsSendMessageType c) 0 (pending c) else [])"
      "pending c1 = (if ?B \<le> TdsSendCur c then [] else pending c)"
    proof (cases "?B \<le> TdsSendCur c")
      case True
      obtain c1 where c1: "FlushBuffer c = Inr (0, c1)" "send_ok c1" "receiver c1 = receiver c"
        "set (write_events c1) \<subseteq> set (write_events c)" "TdsSendStart c1 = 0" "TdsSendCur c1 = 8"
        "TdsSendMessageType c1 = TdsSendMessageType c"
        "outgoing c1 = outgoing c @ packet (TdsSendMessageType c) 0 (pending c)"
        using FlushBuffer_ok [OF less.prems(1), of False] less.prems(2,3) by (auto simp: FlushBuffer_def)
      moreover have "pending c1 = []" using c1(6) by (simp add: pending_def)
      ultimately show ?thesis
        using True B(1) willing_subset [OF less.prems(3)] by (intro that [of c1]) simp_all
    next
      case False
      with less.prems show ?thesis by (intro that [of c]) simp_all
    qed
    define k where "k = min (?B - TdsSendCur c1) (length s)"
    have B1: "TdsBufferSize c1 = ?B" using receiver_eqD(1) [OF c1(3)] .
    have amount: "min (uint32_sub (TdsBufferSize c1) (TdsSendCur c1)) (length s) = k"
      using B c1(7) B1 by (simp add: k_def uint32_sub_small)
    have k: "0 < k" "TdsSendCur c1 + k \<le> TdsBufferSize c1" "length (take k s) = k"
      using False c1(7) B1 by (auto simp: k_def)
    note put = put_some [OF c1(2) k(2,3)]
    define c2 where "c2 = c1\<lparr>TdsSendBuffer := take (TdsSendCur c1) (TdsSendBuffer c1) @ take k s @
      drop (TdsSendCur c1 + k) (TdsSendBuffer c1), TdsSendCur := TdsSendCur c1 + k\<rparr>"
    have step: "InternalPutbytes s c = InternalPutbytes (drop k s) c2"
      by (subst InternalPutbytes.simps, simp only: c1(1)) (simp add: False put(1) amount c2_def)
    have "length (drop k s) < length s" using k(1) False by (cases s) auto
    moreover have "send_ok c2" "TdsSendStart c2 = 0" "willing c2"
      using put(2) c1(4,5) by (simp_all add: c2_def willing_def)
    ultimately obtain c' where c': "InternalPutbytes (drop k s) c2 = ret 0 c'" "put_result c2 (drop k s) c'"
      using less.hyps by blast
    have pend2: "pending c2 @ drop k s = pending c1 @ s" and B2: "TdsBufferSize c2 = ?B"
      using put(3) B1 by (simp_all add: c2_def)
    have "put_result c s c'"
    proof (cases "?B \<le> TdsSendCur c")
      case True
      have "length (pending c) = ?B - 8"
        using True B less.prems(1) by (simp add: pending_def send_ok_def)
      then have "pieces (?B - 8) (pending c @ s) = pending c # pieces (?B - 8) s"
        using B(1) False by (intro pieces_append) auto
      with c'(2) [unfolded put_result_def pend2 B2] True c1(3-9) show ?thesis
        by (simp add: put_result_def c2_def Let_def)
    next
      case False
      with c'(2) [unfolded put_result_def pend2 B2] c1(3-9) show ?thesis
        by (simp add: put_result_def c2_def)
    qed
    with c'(1) step show ?thesis by metis
  qed
qed
lemma pieces_extend:
  assumes "0 < n"
  shows "pieces n (x @ t) = butlast (pieces n x) @ pieces n (last (pieces n x) @ t)"
  using assms
proof (induction n x rule: pieces.induct)
  case (1 n x)
  show ?case
  proof (cases "n < length x")
    case True
    have "pieces n (x @ t) = take n x # pieces n (drop n x @ t)"
      using True "1.prems" by (subst pieces.simps) simp
    also have "\<dots> = take n x # butlast (pieces n (drop n x)) @ pieces n (last (pieces n (drop n x)) @ t)"
      using "1.IH" True "1.prems" by simp
    finally show ?thesis
      using True "1.prems" by (simp add: pieces.simps [of n x])
  qed (simp add: pieces_short)
qed

lemma pieces_full:
  assumes "0 < n"
  shows "\<forall>p \<in> set (butlast (pieces n m)). length p = n"
  using assms
proof (induction n m rule: pieces.induct)
  case (1 n m)
  then show ?case
    by (cases "n < length m") (simp_all add: pieces.simps [of n m])
qed

lemma put_result_trans:
  assumes "put_result c s c1" and "put_result c1 t c'"
  shows "put_result c (s @ t) c'"
proof -
  have B: "TdsBufferSize c1 = TdsBufferSize c" "0 < TdsBufferSize c1 - 8"
    using assms(1) receiver_eqD(1) [of c1 c] by (auto simp: put_result_def send_ok_def)
  let ?ps = "pieces (TdsBufferSize c - 8) (pending c @ s)"
  have "pieces (TdsBufferSize c - 8) (pending c @ s @ t) =
      butlast ?ps @ pieces (TdsBufferSize c - 8) (last ?ps @ t)"
    using pieces_extend [of "TdsBufferSize c - 8" "pending c @ s" t] B by simp
  with assms B show ?thesis
    by (simp add: put_result_def Let_def butlast_append)
qed

text \<open>A message put in parts and flushed.\<close>

fun put_all :: "byte list list \<Rightarrow> tds_comm \<Rightarrow> tds_comm io" where
  "put_all [] c = ret 0 c"
| "put_all (b # bs) c = io_then (TdsPutbytes b c) (\<lambda>(r, c). if r \<noteq> 0 then ret EOF c else put_all bs c)"

lemma put_all_ok:
  assumes "send_ok c" and "TdsSendStart c = 0" and "willing c"
  shows "\<exists>c'. put_all bs c = ret 0 c' \<and> put_result c (concat bs) c'"
  using assms
proof (induction bs arbitrary: c)
  case Nil
  then show ?case by (simp add: put_resultI_refl)
next
  case (Cons b bs)
  obtain c1 where c1: "InternalPutbytes b c = ret 0 c1" "put_result c b c1"
    using InternalPutbytes_ok [OF Cons.prems] by blast
  then have "send_ok c1" "TdsSendStart c1 = 0" "willing c1" by (simp_all add: put_result_def)
  then obtain c' where "put_all bs c1 = ret 0 c'" "put_result c1 (concat bs) c'"
    using Cons.IH by blast
  with c1 show ?case
    by (auto simp: TdsPutbytes_def intro: put_result_trans)
qed

definition idle :: "tds_comm \<Rightarrow> bool" where
  "idle c \<longleftrightarrow> send_ok c \<and> TdsSendStart c = 0 \<and> TdsSendCur c = TDS_PACKET_HEADER_SIZE \<and>
     TdsSendMessageType c = 0 \<and> willing c"

lemma TdsSocketFlush_ok:
  assumes "put_result c s c1" and "pending c = []"
  shows "\<exists>c'. TdsSocketFlush c1 = Inr (0, c') \<and> idle c' \<and> receiver c' = receiver c \<and>
    outgoing c' = outgoing c @ message_bytes (TdsBufferSize c) (TdsSendMessageType c) s"
proof -
  have c1: "send_ok c1" "TdsSendStart c1 = 0" "willing c1" "receiver c1 = receiver c"
    using assms(1) by (simp_all add: put_result_def)
  from FlushBuffer_ok [OF c1(1), of True] c1(2-4) obtain c' where
    "TdsSocketFlush c1 = Inr (0, c')" "send_ok c'" "receiver c' = receiver c"
    "set (write_events c') \<subseteq> set (write_events c1)" "TdsSendStart c' = 0" "TdsSendCur c' = 8"
    "TdsSendMessageType c' = 0"
    "outgoing c' = outgoing c1 @ packet (TdsSendMessageType c1) TDS_PACKET_HEADER_STATUS_EOM (pending c1)"
    by (auto simp: TdsSocketFlush_def)
  with assms willing_subset [OF c1(3)] show ?thesis
    by (auto simp: idle_def put_result_def message_bytes_def Let_def)
qed

lemma TdsWriteMessage_ok:
  assumes "idle c"
  shows "\<exists>c'. TdsWriteMessage m ty c = ret 0 c' \<and> idle c' \<and> receiver c' = receiver c \<and>
    outgoing c' = outgoing c @ message_bytes (TdsBufferSize c) ty m"
proof -
  let ?c0 = "TdsSetMessageType ty c"
  have c0: "send_ok ?c0" "TdsSendStart ?c0 = 0" "willing ?c0" "pending ?c0 = []" "receiver ?c0 = receiver c"
    "TdsBufferSize ?c0 = TdsBufferSize c" "outgoing ?c0 = outgoing c" "TdsSendMessageType ?c0 = ty"
    using assms by (auto simp: idle_def TdsSetMessageType_def send_ok_def willing_def pending_def)
  obtain c1 where c1: "InternalPutbytes m ?c0 = ret 0 c1" "put_result ?c0 m c1"
    using InternalPutbytes_ok [OF c0(1-3)] by blast
  from TdsSocketFlush_ok [OF c1(2) c0(4)] c1(1) c0 assms show ?thesis
    by (auto simp: TdsWriteMessage_def TdsPutbytes_def idle_def)
qed

section \<open>Messages in the stream\<close>

lemma unat_byte: "unat (word_of_nat n :: byte) = n mod 256"
  by (simp add: unat_of_nat)

lemma parse_packet_packet:
  assumes "length b + 8 \<le> B" and "B \<le> 65535"
  shows "parse_packet B (packet ty st b @ rest) = Packet ty st b rest"
proof -
  let ?n = "length b + 8"
  have "?n div 256 < 256" using assms by (simp add: less_mult_imp_div_less)
  then have pl: "packet_length (packet ty st b @ rest) = ?n"
    by (simp add: packet_length_def packet_def unat_byte del: of_nat_add)
  have "bad_header B (packet ty st b @ rest) = None"
    using assms pl by (simp add: bad_header_def)
  moreover have "length (packet ty st b @ rest) = ?n + length rest"
    by (simp add: packet_def)
  moreover have "drop 8 (packet ty st b @ rest) = b @ rest" "drop ?n (packet ty st b @ rest) = rest"
    by (simp_all add: packet_def drop_Cons')
  moreover have "(packet ty st b @ rest) ! 0 = ty" "(packet ty st b @ rest) ! 1 = st"
    by (simp_all add: packet_def)
  ultimately show ?thesis
    using pl by (simp add: parse_packet_def)
qed

lemma message_bytes_rec:
  assumes "8 < B"
  shows "message_bytes B ty m =
     (if B - 8 < length m then packet ty 0 (take (B - 8) m) @ message_bytes B ty (drop (B - 8) m)
      else packet ty TDS_PACKET_HEADER_STATUS_EOM m)"
  using assms by (simp add: message_bytes_def pieces.simps [of _ m] Let_def)

lemma is_eom_simps [simp]: "\<not> is_eom 0" "is_eom TDS_PACKET_HEADER_STATUS_EOM"
  by (simp_all add: is_eom_def TDS_PACKET_HEADER_STATUS_EOM_def)

lemma parse_message:
  assumes "8 < B" and "B \<le> B'" and "B' \<le> 65535" and "ty \<noteq> TDS_BULK_LOAD"
  shows "parse_request B' isFirst q (message_bytes B ty m @ rest) =
    Request (add_packet isFirst ty (if B - 8 < length m then 0 else TDS_PACKET_HEADER_STATUS_EOM) m q)
      (m = []) rest"
proof (induction "length m" arbitrary: m isFirst q rule: less_induct)
  case less
  show ?case
  proof (cases "B - 8 < length m")
    case True
    let ?m = "take (B - 8) m" and ?q = "add_packet isFirst ty 0 (take (B - 8) m) q"
    have msg: "message_bytes B ty m @ rest =
        packet ty 0 ?m @ message_bytes B ty (drop (B - 8) m) @ rest"
      using message_bytes_rec [OF assms(1), of ty m] True by simp
    have "parse_packet B' (packet ty 0 ?m @ message_bytes B ty (drop (B - 8) m) @ rest) =
        Packet ty 0 ?m (message_bytes B ty (drop (B - 8) m) @ rest)"
      using assms by (intro parse_packet_packet) auto
    moreover have "?m \<noteq> []" using True assms(1) by auto
    ultimately have "parse_request B' isFirst q (message_bytes B ty m @ rest) =
        parse_request B' False ?q (message_bytes B ty (drop (B - 8) m) @ rest)"
      using assms(4) unfolding msg by (subst parse_request.simps) (simp add: Let_def)
    with less [of "drop (B - 8) m" False ?q] True assms(1) show ?thesis
      by (auto simp: add_packet_def Let_def)
  next
    case False
    then have "parse_packet B' (message_bytes B ty m @ rest) = Packet ty TDS_PACKET_HEADER_STATUS_EOM m rest"
      using assms message_bytes_rec [OF assms(1), of ty m] by (auto intro!: parse_packet_packet)
    with False show ?thesis
      by (subst parse_request.simps) (simp add: Let_def)
  qed
qed

text \<open>A connection with empty buffers, as the set-up leaves it.\<close>

definition new_comm :: "nat \<Rightarrow> byte list \<Rightarrow> read_event list \<Rightarrow> write_event list \<Rightarrow> tds_comm" where
  "new_comm B bytes res wes =
     \<lparr>TdsBufferSize = B, TdsSendBuffer = replicate B 0, TdsSendCur = 8, TdsSendStart = 0,
      TdsSendMessageType = 0, TdsDoProcessHeader = True, TdsRecvBuffer = replicate B 0,
      TdsRecvStart = 0, TdsRecvEnd = 0, TdsRecvMessageType = 0, TdsRecvPacketStatus = 0,
      TdsLeftInPacket = 0, noblock = Some False, ClientConnectionLost = False,
      incoming = bytes, read_events = res, outgoing = [], write_events = wes\<rparr>"

lemma new_comm_ok [simp]:
  assumes "8 < B" and "B \<le> 65535"
  shows "at_boundary (new_comm B bytes res wes)" "recv_ok (new_comm B bytes res wes)"
    "send_ok (new_comm B bytes res wes)"
    "stream (new_comm B bytes res wes) = bytes" "TdsBufferSize (new_comm B bytes res wes) = B"
    "outgoing (new_comm B bytes res wes) = []" "pending (new_comm B bytes res wes) = []"
    "quiet (new_comm B bytes res wes) = (Read_error \<notin> set res)"
    "willing (new_comm B bytes res wes) = (Write_EAGAIN \<notin> set wes \<and> Write_error \<notin> set wes)"
    "idle (new_comm B bytes res wes) = willing (new_comm B bytes res wes)"
  using assms by (auto simp: new_comm_def at_boundary_def recv_ok_def send_ok_def stream_def buffered_def
      pending_def quiet_def willing_def idle_def)

abbreviation no_request :: tds_request where
  "no_request \<equiv> \<lparr>req_message = [], req_status = 0, req_type = 0\<rparr>"

definition grant_all :: enlarge where
  "grant_all len n = (if len + n \<le> MaxAllocSize then Inr ()
     else ereport ERRCODE_OUT_OF_MEMORY ''string buffer exceeds maximum allowed length'')"

lemma grants_grant_all: "k \<le> MaxAllocSize \<Longrightarrow> grants grant_all k"
  by (simp add: grants_def grant_all_def)

section \<open>Properties\<close>

text \<open>
  C5. The reader of requests is a parser of the byte stream, however the bytes arrive in
  short reads and interrupted calls and whatever is left in the buffer: it returns the
  request at the beginning of the stream and leaves the bytes after it, it returns \<open>EOF\<close>
  when the stream ends before the request does, it reports a packet that is longer than the
  buffer or shorter than a header, and it runs forever at an empty packet that is neither
  the last one nor part of a bulk load, and only there.
\<close>

theorem read_request_refines:
  assumes "at_boundary c" and "quiet c"
    and "grants enl (length (req_message q) + length (stream c) + TdsBufferSize c)"
  shows "case parse_request (TdsBufferSize c) True q (stream c) of
           Request q' stuck rest \<Rightarrow> \<exists>c'. TdsReadNextRequest enl q c = ret 0 (q', c') \<and>
             stream c' = rest \<and> (stuck \<and> rest \<noteq> [] \<or> at_boundary c') \<and> sender c' = sender c
         | Truncated \<Rightarrow> \<exists>q' c'. TdsReadNextRequest enl q c = ret EOF (q', c')
         | Violated e \<Rightarrow> TdsReadNextRequest enl q c = Some (Inl e)
         | Forever \<Rightarrow> TdsReadNextRequest enl q c = None"
  using request_loop_ok [OF assms, of True]
  by (fastforce simp: request_result_def TdsReadNextRequest_def at_boundary_def kept_def stream_def
      split: request_view.splits)

theorem read_request_refines_witness:
  "\<exists>c'. TdsReadNextRequest grant_all no_request
      (new_comm 512 (packet 1 0 [10, 20] @ packet 1 1 [30] @ [1, 1, 0])
        [Chunk 2, Read_EINTR, Chunk 6, Chunk 1] []) =
    ret 0 (\<lparr>req_message = [10, 20, 30], req_status = 0, req_type = 1\<rparr>, c') \<and> stream c' = [1, 1, 0]"
proof -
  let ?s = "packet 1 0 [10, 20] @ packet 1 1 [30] @ [1, 1, 0 :: byte]"
  let ?c = "new_comm 512 ?s [Chunk 2, Read_EINTR, Chunk 6, Chunk 1] []"
  have "parse_packet 512 ?s = Packet 1 0 [10, 20] (packet 1 1 [30] @ [1, 1, 0])"
    "parse_packet 512 (packet 1 1 [30] @ [1, 1, 0]) = Packet 1 1 [30] [1, 1, 0]"
    by (rule parse_packet_packet; simp)+
  moreover have "is_eom 1" "\<not> is_eom 0" "1 \<noteq> TDS_BULK_LOAD"
    using is_eom_simps by (simp_all add: TDS_PACKET_HEADER_STATUS_EOM_def TDS_BULK_LOAD_def)
  ultimately have "parse_request 512 True no_request ?s =
      Request \<lparr>req_message = [10, 20, 30], req_status = 0, req_type = 1\<rparr> False [1, 1, 0]"
    by (simp add: parse_request.simps [of 512] add_packet_def)
  moreover have "grants grant_all (length (req_message no_request) + length (stream ?c) + TdsBufferSize ?c)"
    by (rule grants_grant_all) (simp add: MaxAllocSize_def packet_def)
  ultimately show ?thesis
    using read_request_refines [of ?c grant_all no_request] by auto
qed

text \<open>
  C8. Whatever is put between two flushes, in whatever parts, goes out as one message: as
  full packets without and a last one with the end-of-message bit, of at most the buffer
  size each, whose data are the bytes put; writes may be short or interrupted.
\<close>

theorem put_flush_message:
  assumes "send_ok c" and "TdsSendStart c = 0" and "pending c = []" and "willing c"
  shows "\<exists>c1 c'. put_all bs c = ret 0 c1 \<and> TdsSocketFlush c1 = Inr (0, c') \<and> idle c' \<and>
    receiver c' = receiver c \<and>
    (\<exists>ps. concat ps = concat bs \<and> (\<forall>p \<in> set ps. length p + 8 \<le> TdsBufferSize c) \<and>
       (\<forall>p \<in> set (butlast ps). length p + 8 = TdsBufferSize c) \<and> ps \<noteq> [] \<and>
       outgoing c' = outgoing c @ concat (map (packet (TdsSendMessageType c) 0) (butlast ps)) @
         packet (TdsSendMessageType c) TDS_PACKET_HEADER_STATUS_EOM (last ps))"
proof -
  let ?ps = "pieces (TdsBufferSize c - 8) (concat bs)"
  have B: "0 < TdsBufferSize c - 8" using assms(1) by (simp add: send_ok_def)
  obtain c1 where c1: "put_all bs c = ret 0 c1" "put_result c (concat bs) c1"
    using put_all_ok [OF assms(1,2,4)] by blast
  obtain c' where c': "TdsSocketFlush c1 = Inr (0, c')" "idle c'" "receiver c' = receiver c"
    "outgoing c' = outgoing c @ message_bytes (TdsBufferSize c) (TdsSendMessageType c) (concat bs)"
    using TdsSocketFlush_ok [OF c1(2) assms(3)] by blast
  have "\<forall>p \<in> set ?ps. length p + 8 \<le> TdsBufferSize c" "\<forall>p \<in> set (butlast ?ps). length p + 8 = TdsBufferSize c"
    using pieces_lengths [OF B, of "concat bs"] pieces_full [OF B, of "concat bs"] B by fastforce+
  moreover have "outgoing c' = outgoing c @ concat (map (packet (TdsSendMessageType c) 0) (butlast ?ps)) @
      packet (TdsSendMessageType c) TDS_PACKET_HEADER_STATUS_EOM (last ?ps)"
    using c'(4) by (simp add: message_bytes_def Let_def)
  ultimately show ?thesis
    using c1(1) c'(1-3) by (intro exI [of _ c1] exI [of _ c'] conjI exI [of _ ?ps]) simp_all
qed

theorem put_flush_message_witness:
  "\<exists>c1 c'. put_all [le_bytes 4 258, [7]] (TdsSetMessageType 4 (new_comm 12 [] [] [Accept 2, Write_EINTR])) = ret 0 c1 \<and>
     TdsSocketFlush c1 = Inr (0, c') \<and>
     outgoing c' = [4, 0, 0, 12, 0, 0, 0, 0, 2, 1, 0, 0, 4, 1, 0, 9, 0, 0, 0, 0, 7]"
proof -
  let ?c = "TdsSetMessageType 4 (new_comm 12 [] [] [Accept 2, Write_EINTR])"
  have bytes: "le_bytes 4 258 = [2, 1, 0, 0]"
    by (simp add: le_bytes_def upt_rec drop_bit_eq_div)
  have c: "send_ok ?c" "TdsSendStart ?c = 0" "pending ?c = []" "willing ?c" "TdsBufferSize ?c = 12"
    "TdsSendMessageType ?c = 4" "outgoing ?c = []"
    by (simp_all add: TdsSetMessageType_def new_comm_def send_ok_def pending_def willing_def)
  obtain c1 c' ps where run: "put_all [le_bytes 4 258, [7]] ?c = ret 0 c1" "TdsSocketFlush c1 = Inr (0, c')"
    and ps: "concat ps = [2, 1, 0, 0, 7]" "\<forall>p \<in> set ps. length p \<le> 4" "\<forall>p \<in> set (butlast ps). length p = 4" "ps \<noteq> []"
    and out: "outgoing c' = concat (map (packet 4 0) (butlast ps)) @ packet 4 TDS_PACKET_HEADER_STATUS_EOM (last ps)"
    using put_flush_message [OF c(1-4), of "[le_bytes 4 258, [7]]"] c(5-7) by (auto simp: bytes)
  define xs y where "xs = butlast ps" and "y = last ps"
  have split: "concat xs @ y = [2, 1, 0, 0, 7]" "length y \<le> 4" "\<forall>p \<in> set xs. length p = 4"
    using ps append_butlast_last_id [OF ps(4)] unfolding xs_def y_def
    by (metis concat.simps(1,2) concat_append append_Nil2, simp_all)
  have "length (concat xs) = 4 * length xs"
    using split(3) by (induction xs) auto
  moreover have "length (concat xs) + length y = 5"
    using arg_cong [OF split(1), of length] by simp
  ultimately have "length xs = 1" using split(2) by arith
  then obtain x where "xs = [x]" by (auto simp: length_Suc_conv)
  with split have "x = [2, 1, 0, 0]" "y = [7]"
    by (auto simp: append_eq_Cons_conv)
  with \<open>xs = [x]\<close> run out show ?thesis
    by (auto simp: xs_def [symmetric] y_def [symmetric] packet_def TDS_PACKET_HEADER_STATUS_EOM_def)
qed

text \<open>Messages sent one after the other, and requests read one after the other.\<close>

fun send_messages :: "(byte \<times> byte list) list \<Rightarrow> tds_comm \<Rightarrow> tds_comm io" where
  "send_messages [] c = ret 0 c"
| "send_messages ((ty, m) # ms) c =
     io_then (TdsWriteMessage m ty c) (\<lambda>(r, c). if r \<noteq> 0 then ret EOF c else send_messages ms c)"

fun read_requests :: "enlarge \<Rightarrow> nat \<Rightarrow> tds_comm \<Rightarrow> (tds_request list \<times> tds_comm) io" where
  "read_requests enl 0 c = ret 0 ([], c)"
| "read_requests enl (Suc k) c =
     io_then (TdsReadNextRequest enl no_request c) (\<lambda>(r, q, c).
     if r \<noteq> 0 then ret EOF ([], c)
     else io_then (read_requests enl k c) (\<lambda>(r, qs, c). ret r (q # qs, c)))"

definition session_bytes :: "nat \<Rightarrow> (byte \<times> byte list) list \<Rightarrow> byte list" where
  "session_bytes B ms = concat (map (\<lambda>(ty, m). message_bytes B ty m) ms)"

lemma send_messages_ok:
  assumes "idle c"
  shows "\<exists>c'. send_messages ms c = ret 0 c' \<and> idle c' \<and>
    outgoing c' = outgoing c @ session_bytes (TdsBufferSize c) ms"
  using assms
proof (induction ms arbitrary: c)
  case (Cons p ms)
  obtain ty m where p: "p = (ty, m)" by force
  obtain c1 where c1: "TdsWriteMessage m ty c = ret 0 c1" "idle c1" "receiver c1 = receiver c"
    "outgoing c1 = outgoing c @ message_bytes (TdsBufferSize c) ty m"
    using TdsWriteMessage_ok [OF Cons.prems] by blast
  with Cons.IH [OF c1(2)] p receiver_eqD(1) [OF c1(3)] show ?case
    by (auto simp: session_bytes_def)
qed (simp add: session_bytes_def)

lemma read_requests_ok:
  assumes "at_boundary c" and "quiet c" and "stream c = session_bytes B ms" and "8 < B" and "B \<le> TdsBufferSize c"
    and "grants enl (length (session_bytes B ms) + TdsBufferSize c)"
    and "\<forall>(ty, m) \<in> set ms. m \<noteq> [] \<and> ty \<noteq> TDS_BULK_LOAD"
  shows "\<exists>qs c'. read_requests enl (length ms) c = ret 0 (qs, c') \<and> at_boundary c' \<and> stream c' = [] \<and>
    map (\<lambda>q. (req_type q, req_message q)) qs = ms"
  using assms
proof (induction ms arbitrary: c)
  case Nil
  then show ?case by (simp add: session_bytes_def)
next
  case (Cons p ms)
  obtain ty m where p: "p = (ty, m)" by force
  let ?st = "if B - 8 < length m then 0 else TDS_PACKET_HEADER_STATUS_EOM"
  let ?q = "add_packet True ty ?st m no_request"
  have s: "stream c = message_bytes B ty m @ session_bytes B ms"
    using Cons.prems(3) by (simp add: session_bytes_def p)
  have B': "TdsBufferSize c \<le> 65535" and ty: "ty \<noteq> TDS_BULK_LOAD" "m \<noteq> []"
    using Cons.prems(1,7) by (auto simp: at_boundary_def recv_ok_def p)
  have "parse_request (TdsBufferSize c) True no_request (stream c) = Request ?q False (session_bytes B ms)"
    using parse_message [OF Cons.prems(4,5) B' ty(1)] ty(2) s by simp
  then obtain c1 where c1: "TdsReadNextRequest enl no_request c = ret 0 (?q, c1)" "kept c c1"
      "stream c1 = session_bytes B ms" "at_boundary c1"
    using request_loop_ok [OF Cons.prems(1,2), of enl no_request True] Cons.prems(3,6)
    by (auto simp: request_result_def TdsReadNextRequest_def at_boundary_def kept_def)
  have B1: "TdsBufferSize c1 = TdsBufferSize c"
    using c1(2) by (auto simp: kept_def dest: sender_eqD)
  have "grants enl (length (session_bytes B ms) + TdsBufferSize c1)"
    using Cons.prems(6) B1 by (elim grants_mono) (simp add: session_bytes_def)
  with Cons.IH [OF c1(4) quiet_kept [OF Cons.prems(2) c1(2)] c1(3) Cons.prems(4)] Cons.prems(5,7) B1
  obtain qs c' where "read_requests enl (length ms) c1 = ret 0 (qs, c')" "at_boundary c'" "stream c' = []"
    "map (\<lambda>q. (req_type q, req_message q)) qs = ms" by auto
  with c1(1) p show ?case
    by (auto simp: add_packet_def Let_def)
qed



text \<open>
  C9. Empty packets are not handled: after an empty packet that does not end the request
  the reader runs forever, and after an empty request that is followed by further bytes in
  the buffer every later call returns an empty request of the same kind again and consumes
  nothing.
\<close>

theorem empty_packets:
  assumes "at_boundary c" and "quiet c" and "grants enl (length (req_message q) + length (stream c) + TdsBufferSize c)"
    and "stream c = packet ty st [] @ rest"
  shows "(\<not> is_eom st \<longrightarrow> ty \<noteq> TDS_BULK_LOAD \<longrightarrow> TdsReadNextRequest enl q c = None) \<and>
    (is_eom st \<longrightarrow> (\<exists>q' c'. TdsReadNextRequest enl q c = ret 0 (q', c') \<and> req_message q' = req_message q \<and>
       (buffered c' \<noteq> [] \<longrightarrow> TdsReadNextRequest enl q' c' = ret 0 (q', c'))))"
proof -
  let ?q' = "add_packet True ty st [] q"
  have B: "8 \<le> TdsBufferSize c" "TdsBufferSize c \<le> 65535"
    using assms(1) by (simp_all add: at_boundary_def recv_ok_def)
  then have packet: "parse_packet (TdsBufferSize c) (stream c) = Packet ty st [] rest"
    using parse_packet_packet [of "[]" "TdsBufferSize c" ty st rest] assms(4) by simp
  have "grants enl (length (req_message q) + TdsBufferSize c)"
    using assms(3) by (rule grants_mono) simp
  from request_round [OF assms(1,2) this, of True, unfolded packet packet_view.case Let_def]
  obtain c1 where c1: "TdsLeftInPacket c1 = 0" "\<not> TdsDoProcessHeader c1" "TdsRecvMessageType c1 = ty"
      "TdsRecvPacketStatus c1 = st" "kept c c1"
    and run: "TdsReadNextRequest enl q c = (if is_eom st
      then ret 0 (?q', if TdsRecvStart c1 = TdsRecvEnd c1 then c1\<lparr>TdsDoProcessHeader := True\<rparr> else c1)
      else if ty = TDS_BULK_LOAD then ret 0 (?q', c1\<lparr>TdsDoProcessHeader := True\<rparr>)
      else request_loop enl False ?q' c1)"
    by (auto simp: TdsReadNextRequest_def)
  have enl: "enl (length (req_message ?q')) 0 = Inr ()"
    using assms(3) by (rule grantsD) (simp add: add_packet_def)
  have "TdsReadNextRequest enl q c = None" if "\<not> is_eom st" "ty \<noteq> TDS_BULK_LOAD"
    using that c1 enl run request_loop_stuck [of enl False ?q' c1] by (simp add: stands_still_def)
  moreover have "TdsReadNextRequest enl ?q' c1 = ret 0 (?q', c1)" if "is_eom st" "TdsRecvStart c1 \<noteq> TdsRecvEnd c1"
    using that c1 enl no_data(1) [of c1] no_data(2) [of c1 enl "req_message ?q'"]
    unfolding TdsReadNextRequest_def by (subst request_loop.simps) (simp add: add_packet_def)
  moreover have "buffered c1 = [] \<longleftrightarrow> TdsRecvStart c1 = TdsRecvEnd c1"
    "buffered (c1\<lparr>TdsDoProcessHeader := True\<rparr>) = buffered c1"
    using c1(5) buffered_empty [of c1] by (simp_all add: kept_def buffered_def)
  moreover have "req_message ?q' = req_message q" by (simp add: add_packet_def)
  ultimately show ?thesis
    by (cases "TdsRecvStart c1 = TdsRecvEnd c1") (auto simp: run)
qed

theorem empty_packets_witness:
  "TdsReadNextRequest grant_all no_request (new_comm 4096 [18, 0, 0, 8, 0, 0, 0, 0] [] []) = None"
proof -
  let ?c = "new_comm 4096 [18, 0, 0, 8, 0, 0, 0, 0] [] []"
  have "grants grant_all (length (req_message no_request) + length (stream ?c) + TdsBufferSize ?c)"
    by (rule grants_grant_all) (simp add: MaxAllocSize_def)
  with empty_packets [of ?c grant_all no_request 18 0 "[]"] show ?thesis
    by (simp add: packet_def TDS_BULK_LOAD_def)
qed

section \<open>Bulk loads\<close>

lemma bcp_round:
  assumes "at_boundary c" and "quiet c"
  shows "case parse_packet (TdsBufferSize c) (stream c) of
      Short \<Rightarrow> \<exists>c'. TdsDiscardAllPendingBcpRequest c = ret EOF c'
    | Violation e \<Rightarrow> TdsDiscardAllPendingBcpRequest c = Some (Inl e)
    | Packet ty st b rest \<Rightarrow> \<exists>c'. kept c c' \<and> stream c' = rest \<and> TdsLeftInPacket c' = 0 \<and>
        TdsDoProcessHeader c' = (b \<noteq> []) \<and>
        TdsDiscardAllPendingBcpRequest c =
          (if is_eom st then ret 1 c' else TdsDiscardAllPendingBcpRequest c')"
proof -
  let ?B = "TdsBufferSize c" and ?s = "stream c"
  have "recv_ok c" "TdsLeftInPacket c = 0" "TdsDoProcessHeader c"
    using assms(1) by (simp_all add: at_boundary_def)
  from TdsReadNextBuffer_boundary [OF this, unfolded boundary_result_def] assms(2)
  consider (eof) c1 where "TdsReadNextBuffer c = ret EOF c1" "kept c c1" "parse_packet ?B ?s = Short"
    | (bad) e where "TdsReadNextBuffer c = Some (Inl e)" "parse_packet ?B ?s = Violation e"
    | (header) c1 where "TdsReadNextBuffer c = ret 0 c1" "header_taken c c1"
    by blast
  note cases = this and loop = TdsDiscardAllPendingBcpRequest.simps [of c]
  from cases show ?thesis
  proof cases
    case (header c1)
    define n where "n = packet_length ?s - 8"
    have c1: "kept c c1" "recv_ok c1" "\<not> TdsDoProcessHeader c1" "TdsLeftInPacket c1 = int n"
      "stream c1 = drop 8 ?s" "8 \<le> length ?s" "bad_header ?B ?s = None" "TdsRecvPacketStatus c1 = ?s ! 1"
      using header(2) by (simp_all add: header_taken_def kept_def n_def)
    have pl: "packet_length ?s = n + 8"
      using c1(7) by (auto simp: bad_header_def n_def split: if_splits)
    have size: "size_t_of_int (TdsLeftInPacket c1) = n"
      using c1(2,4) by (simp add: recv_ok_def size_t_of_int_small)
    from TdsDiscardbytes_ok [OF c1(2), of n] c1(4) quiet_kept [OF assms(2) c1(1)]
    consider (got) c2 where "TdsDiscardbytes n c1 = ret 0 c2" "consumed n c1 c2" "n \<le> length (stream c1)"
      | (short) c2 where "TdsDiscardbytes n c1 = ret EOF c2" "length (stream c1) < n"
      by auto
    then show ?thesis
    proof cases
      case got
      have packet: "parse_packet ?B ?s = Packet (?s ! 0) (?s ! 1) (take n (drop 8 ?s)) (drop (n + 8) ?s)"
        using got(3) c1(5-7) pl by (simp add: parse_packet_def)
      have "kept c c2" using got(2) c1(1) by (auto simp: consumed_def intro: kept_trans)
      moreover have "TdsDoProcessHeader c2 = (take n (drop 8 ?s) \<noteq> [])"
        using got(2,3) c1(3-5) by (cases "drop 8 ?s") (auto simp: consumed_def)
      ultimately show ?thesis
        unfolding packet packet_view.case
        using got c1 header(1) size
        by (intro exI [of _ c2]) (simp add: loop consumed_def add.commute)
    next
      case short
      then have "parse_packet ?B ?s = Short"
        using c1(5-7) pl by (intro parse_packet_cases(3)) auto
      with short header(1) size show ?thesis by (simp add: loop)
    qed
  qed (simp_all add: loop)
qed

lemma discard_ok:
  assumes "at_boundary c" and "quiet c"
    and "stream c = concat (map (packet TDS_BULK_LOAD 0) bs) @ packet ty TDS_PACKET_HEADER_STATUS_EOM b @ rest"
    and "\<forall>p \<in> set (b # bs). p \<noteq> [] \<and> length p + 8 \<le> TdsBufferSize c"
  shows "\<exists>c'. TdsDiscardAllPendingBcpRequest c = ret 1 c' \<and> at_boundary c' \<and> stream c' = rest \<and> kept c c'"
  using assms
proof (induction bs arbitrary: c)
  case Nil
  have "TdsBufferSize c \<le> 65535" using Nil.prems(1) by (simp add: at_boundary_def recv_ok_def)
  then have "parse_packet (TdsBufferSize c) (stream c) = Packet ty TDS_PACKET_HEADER_STATUS_EOM b rest"
    using Nil.prems(3,4) by (simp add: parse_packet_packet)
  with bcp_round [OF Nil.prems(1,2)] Nil.prems(4) show ?case
    by (auto simp: at_boundary_def kept_def)
next
  case (Cons p bs)
  let ?rest = "concat (map (packet TDS_BULK_LOAD 0) bs) @ packet ty TDS_PACKET_HEADER_STATUS_EOM b @ rest"
  have "TdsBufferSize c \<le> 65535" using Cons.prems(1) by (simp add: at_boundary_def recv_ok_def)
  then have "parse_packet (TdsBufferSize c) (stream c) = Packet TDS_BULK_LOAD 0 p ?rest"
    using Cons.prems(3,4) by (simp add: parse_packet_packet)
  with bcp_round [OF Cons.prems(1,2)] Cons.prems(4) obtain c1 where c1: "kept c c1" "stream c1 = ?rest"
      "at_boundary c1" "TdsDiscardAllPendingBcpRequest c = TdsDiscardAllPendingBcpRequest c1"
    by (auto simp: at_boundary_def kept_def)
  have "TdsBufferSize c1 = TdsBufferSize c" using c1(1) by (auto simp: kept_def dest: sender_eqD)
  with Cons.IH [OF c1(3) quiet_kept [OF Cons.prems(2) c1(1)] c1(2)] Cons.prems(4) c1(4) kept_trans [OF c1(1)]
  show ?case by auto
qed

lemma pending_bcp_ok:
  assumes b: "at_boundary c" and quiet: "quiet c" and "grants enl (length m + TdsBufferSize c)"
    and packet: "parse_packet (TdsBufferSize c) (stream c) = Packet ty st b rest"
  shows "if ty \<noteq> TDS_BULK_LOAD
    then TdsReadNextPendingBcpRequest enl m c = Some (ereport_fatal ERRCODE_PROTOCOL_VIOLATION
           ''Unexpected out of band packet while fetching a Bulk Load Request.'')
    else \<exists>c'. TdsReadNextPendingBcpRequest enl m c = ret (if is_eom st then 1 else 0) (m @ b, c') \<and>
           recv_ok c' \<and> TdsLeftInPacket c' = 0 \<and> TdsDoProcessHeader c' = (b \<noteq> []) \<and> stream c' = rest \<and>
           TdsRecvPacketStatus c' = st \<and> kept c c'"
proof -
  let ?B = "TdsBufferSize c" and ?s = "stream c"
  have "recv_ok c" "TdsLeftInPacket c = 0" "TdsDoProcessHeader c"
    using b by (simp_all add: at_boundary_def)
  from TdsReadNextBuffer_boundary [OF this, unfolded boundary_result_def] quiet packet
  obtain c1 where next_buf: "TdsReadNextBuffer c = ret 0 c1" and taken: "header_taken c c1"
    by auto
  define n where "n = packet_length ?s - 8"
  have c1: "kept c c1" "\<not> TdsDoProcessHeader c1" "TdsLeftInPacket c1 = int n" "quiet c1"
    using taken quiet_kept [OF quiet, of c1] by (simp_all add: header_taken_def n_def)
  have ty: "TdsRecvMessageType c1 = ty"
    using parse_packet_PacketD(4) [OF packet] taken by (simp add: header_taken_def)
  show ?thesis
  proof (cases "ty = TDS_BULK_LOAD")
    case False
    with ty next_buf show ?thesis by (simp add: TdsReadNextPendingBcpRequest_def)
  next
    case True
    from append_packet_ok [OF taken assms(3), folded n_def] packet c1(4)
    obtain c2 where c2: "append_packet enl m c1 = ret 0 (m @ b, c2)" "consumed n c1 c2"
      "TdsRecvPacketStatus c1 = st" "b = take n (stream c1)" "stream c2 = rest"
      by auto
    have "n = length b"
      using parse_packet_PacketD(1,3,6,8) [OF packet] by (simp add: n_def)
    then have "TdsDoProcessHeader c2 = (b \<noteq> [])" "TdsLeftInPacket c2 = 0" "recv_ok c2"
      "TdsRecvPacketStatus c2 = st" "kept c c2"
      using c2(2,3) c1 kept_trans [OF c1(1)] by (auto simp: consumed_def kept_def)
    with c2 True ty next_buf show ?thesis
      by (simp add: TdsReadNextPendingBcpRequest_def)
  qed
qed



section \<open>Bounds of the buffers\<close>

text \<open>
  What holds of every outcome, whatever bytes arrive and whatever the system calls do: a
  function that returns ends in a report or in a state with a given property.
\<close>

definition fine :: "('a \<Rightarrow> bool) \<Rightarrow> 'a result \<Rightarrow> bool" where
  "fine P y \<longleftrightarrow> (case y of Inl e \<Rightarrow> is_report e | Inr x \<Rightarrow> P x)"

definition safe :: "('a \<Rightarrow> bool) \<Rightarrow> 'a result option \<Rightarrow> bool" where
  "safe P res \<longleftrightarrow> (\<forall>y. res = Some y \<longrightarrow> fine P y)"

lemma fine_simps [simp]: "fine P (Inl e) = is_report e" "fine P (Inr x) = P x"
  by (simp_all add: fine_def)

lemma safe_simps [simp]: "safe P (Some y) = fine P y" "safe P None"
  by (simp_all add: safe_def)

lemma safe_io_then: "safe P m \<Longrightarrow> (\<And>x. P x \<Longrightarrow> safe Q (k x)) \<Longrightarrow> safe Q (io_then m k)"
  by (cases m) (auto split: sum.splits)

lemma safe_after: "fine P m \<Longrightarrow> (\<And>x. P x \<Longrightarrow> safe Q (k x)) \<Longrightarrow> safe Q (after m k)"
  by (auto split: sum.splits)

lemma safe_mono: "safe P res \<Longrightarrow> (\<And>x. P x \<Longrightarrow> Q x) \<Longrightarrow> safe Q res"
  by (cases res) (auto simp: fine_def split: sum.splits)

abbreviation keeps :: "tds_comm \<Rightarrow> int \<times> tds_comm \<Rightarrow> bool" where
  "keeps c \<equiv> (\<lambda>(r, c'). kept c c')"

lemma bad_header_report: "bad_header B s = Some e \<Longrightarrow> is_report e"
  by (auto simp: bad_header_def split: if_splits)

lemma TdsReadsocket_fine:
  assumes "recv_ok c" and "TdsRecvStart c = TdsRecvEnd c"
  shows "fine (keeps c) (TdsReadsocket c)"
proof -
  obtain r c' where "TdsReadsocket c = Inr (r, c')" "refilled c c'"
    using TdsReadsocket_ok [OF assms(1)] assms by (force simp: recv_ok_def)
  then show ?thesis by (simp add: refilledD)
qed

lemma TdsProcessHeader_safe:
  assumes "recv_ok c"
  shows "safe (keeps c) (TdsProcessHeader c)"
proof (cases "TdsLeftInPacket c = 0")
  case True
  from TdsProcessHeader_ok [OF assms True] show ?thesis
    by (auto simp: header_taken_def dest: bad_header_report)
qed (simp add: TdsProcessHeader_def)

lemma recv_tail_safe:
  assumes "kept c c1"
  shows "safe (keeps c) (if TdsLeftInPacket c1 = 0 then ret 0 c1 else recv_more c1)"
proof (cases "TdsLeftInPacket c1 = 0")
  case False
  then have "recv_ok c1" "0 < TdsLeftInPacket c1" using assms by (auto simp: kept_def recv_ok_def)
  moreover have "kept c c'" if "refilled c1 c'" for c'
    using kept_trans [OF assms refilledD(2) [OF that]] .
  ultimately show ?thesis
    using recv_more_ok [of c1] False by auto
qed (use assms in simp)

lemma recv_more_safe:
  assumes "recv_ok c"
  shows "safe (keeps c) (recv_more c)"
proof (cases "TdsLeftInPacket c = 0 \<and> TdsRecvStart c = TdsRecvEnd c")
  case True
  obtain r c1 where c1: "TdsReadsocket c = Inr (r, c1)" "refilled c c1"
    using TdsReadsocket_ok [OF assms] True assms by (force simp: recv_ok_def)
  have k1: "kept c c1" "recv_ok c1" "TdsLeftInPacket c1 = 0" using c1(2) True by (simp_all add: refilledD)
  let ?k = "\<lambda>(r, c). if r \<noteq> 0 then ret EOF c
      else if TdsRecvStart c = TdsRecvEnd c \<and> 0 < TdsLeftInPacket c
           then after (TdsReadsocket c) (\<lambda>(r, c). if r \<noteq> 0 then ret EOF c else check_pointers c)
           else check_pointers c"
  have "safe (keeps c1) (if TdsDoProcessHeader c1 then TdsProcessHeader c1 else ret 0 c1)"
    using TdsProcessHeader_safe [OF k1(2)] kept_refl [OF k1(2)] by simp
  then have "safe (keeps c) (io_then (if TdsDoProcessHeader c1 then TdsProcessHeader c1 else ret 0 c1) ?k)"
  proof (rule safe_io_then)
    fix x assume "keeps c1 x"
    then have "kept c1 (snd x)" by (cases x) simp
    then have x: "kept c (snd x)" "recv_ok (snd x)" using kept_trans [OF k1(1)] by (simp_all add: kept_def [of c1])
    from recv_tail_safe [OF x(1), folded recv_tail [OF x(2)]] x(1) show "safe (keeps c) (?k x)"
      by (cases x) (simp only: prod.case snd_conv, simp)
  qed
  with True c1(1) k1 show ?thesis by (simp add: recv_more_def)
next
  case False
  with recv_tail_safe [OF kept_refl [OF assms]] show ?thesis
    by (auto simp: recv_more_def check_pointers_ok [OF assms] kept_refl [OF assms] split: if_splits)
qed

lemma TdsRecvbuf_safe:
  assumes "recv_ok c"
  shows "safe (keeps c) (TdsRecvbuf c)"
proof -
  have more: "safe (keeps c) (recv_more c1)" if "kept c c1" for c1
    using recv_more_safe [of c1] that kept_trans [OF that]
    by (auto simp: kept_def [of c c1] elim!: safe_mono)
  show ?thesis
    unfolding TdsRecvbuf_def
    using more kept_refl [OF assms] by (auto intro!: safe_io_then [OF TdsProcessHeader_safe [OF assms]])
qed

lemma TdsReadNextBuffer_safe:
  assumes "recv_ok c"
  shows "safe (keeps c) (TdsReadNextBuffer c)"
  unfolding safe_def
proof (intro allI impI)
  fix y assume "TdsReadNextBuffer c = Some y"
  then have "recv_ok c \<longrightarrow> fine (keeps c) y"
  proof (rule TdsReadNextBuffer.raw_induct
      [where P = "\<lambda>c y. recv_ok c \<longrightarrow> fine (keeps c) y", rotated], goal_cases)
    case (1 loop c y)
    show ?case
    proof
      assume ok: "recv_ok c"
      have "safe (keeps c) (loop c1)" if "kept c c1" for c1
        using 1(1) [of c1] that kept_trans [OF that]
        by (fastforce simp: safe_def fine_def kept_def [of c c1] split: sum.splits)
      then have "safe (keeps c) (if (0 < TdsLeftInPacket c \<and> TdsRecvEnd c \<le> TdsRecvStart c) \<or> TdsDoProcessHeader c
          then io_then (TdsRecvbuf c) (\<lambda>(r, c). if r \<noteq> 0 then ret EOF c else loop c)
          else ret 0 c)"
        using kept_refl [OF ok] by (auto intro!: safe_io_then [OF TdsRecvbuf_safe [OF ok]])
      with 1(2) show "fine (keeps c) y" by (simp add: safe_def)
    qed
  qed
  with assms show "fine (keeps c) y" by blast
qed

lemma await_data_safe:
  assumes "recv_ok c"
  shows "safe (\<lambda>(r, c'). kept c c' \<and> (r = 0 \<longrightarrow> 0 < TdsLeftInPacket c' \<and> buffered c' \<noteq> [])) (await_data c)"
  unfolding safe_def
proof (intro allI impI)
  let ?P = "\<lambda>c. \<lambda>(r, c'). kept c c' \<and> (r = 0 \<longrightarrow> 0 < TdsLeftInPacket c' \<and> buffered c' \<noteq> [])"
  fix y assume "await_data c = Some y"
  then have "recv_ok c \<longrightarrow> fine (?P c) y"
  proof (rule await_data.raw_induct [where P = "\<lambda>c y. recv_ok c \<longrightarrow> fine (?P c) y", rotated], goal_cases)
    case (1 loop c y)
    show ?case
    proof
      assume ok: "recv_ok c"
      have "safe (?P c) (loop c1)" if "kept c c1" for c1
        using 1(1) [of c1] that kept_trans [OF that]
        by (fastforce simp: safe_def fine_def kept_def [of c c1] split: sum.splits)
      moreover have "?P c (0, c)" if "\<not> (TdsLeftInPacket c = 0 \<or> TdsRecvEnd c \<le> TdsRecvStart c)"
        using that ok kept_refl [OF ok] by (auto simp: recv_ok_def buffered_empty [OF ok])
      ultimately have "safe (?P c) (if TdsLeftInPacket c = 0 \<or> TdsRecvEnd c \<le> TdsRecvStart c
          then io_then (TdsRecvbuf c) (\<lambda>(r, c). if r \<noteq> 0 then ret EOF c else loop c)
          else ret 0 c)"
        by (auto intro!: safe_io_then [OF TdsRecvbuf_safe [OF ok]])
      with 1(2) show "fine (?P c) y" by (simp add: safe_def)
    qed
  qed
  with assms show "fine (?P c) y" by blast
qed

text \<open>What a round of the loops takes is in the buffer.\<close>

lemma amount_in_buffer:
  assumes "recv_ok c" and "0 < len" and "0 < TdsLeftInPacket c" and "buffered c \<noteq> []"
  defines "n \<equiv> amount_available len c"
  shows "kept c (take_bytes n c)" "read_at (TdsRecvBuffer c) (TdsRecvStart c) n = Inr (take n (stream c))"
proof -
  have "TdsRecvStart c < TdsRecvEnd c"
    using assms(1,4) by (auto simp: buffered_empty recv_ok_def)
  then have n: "0 < n" "int n \<le> TdsLeftInPacket c" "n \<le> length (buffered c)"
    using assms(1-3)
    by (auto simp: n_def amount_available_def recv_ok_def size_t_of_int_small min_def Let_def)
  from take_bytes_ok [OF assms(1) this] show "kept c (take_bytes n c)"
    "read_at (TdsRecvBuffer c) (TdsRecvStart c) n = Inr (take n (stream c))"
    by (simp_all add: consumed_def)
qed

abbreviation gets :: "tds_comm \<Rightarrow> nat \<Rightarrow> int \<times> byte list \<times> tds_comm \<Rightarrow> bool" where
  "gets c k \<equiv> (\<lambda>(r, s, c'). kept c c' \<and> length s \<le> k)"

lemma get_loop_safe:
  assumes "recv_ok c"
  shows "safe (gets c (length s + len)) (get_loop len s c)"
  unfolding safe_def
proof (intro allI impI)
  fix y assume "get_loop len s c = Some y"
  then have "recv_ok c \<longrightarrow> fine (gets c (length s + len)) y"
  proof (rule get_loop.raw_induct
      [where P = "\<lambda>len s c y. recv_ok c \<longrightarrow> fine (gets c (length s + len)) y", rotated], goal_cases)
    case (1 loop len s c y)
    show ?case
    proof
      assume ok: "recv_ok c"
      have rec: "safe (gets c (length s + len)) (loop k t c1)"
        if "kept c c1" "length t + k \<le> length s + len" for k t c1
        using 1(1) [of k t c1] that kept_trans [OF that(1)]
        by (fastforce simp: safe_def fine_def kept_def [of c c1] split: sum.splits)
      have step: "safe (gets c (length s + len)) (loop (len - n) (s @ take n bs) c1)"
        if "kept c c1" "n = amount_available len c2" for n bs c1 c2
        using that by (intro rec) (auto simp: amount_available_def Let_def)
      have "safe (gets c (length s + len)) (if r \<noteq> 0 then ret EOF (s, c1)
           else let amount = amount_available len c1
                in after (read_at (TdsRecvBuffer c1) (TdsRecvStart c1) amount) (\<lambda>b.
                   loop (len - amount) (s @ b) (take_bytes amount c1)))"
        if "0 < len" "kept c c1" "r = 0 \<longrightarrow> 0 < TdsLeftInPacket c1 \<and> buffered c1 \<noteq> []" for r c1
        using that amount_in_buffer [of c1 len] kept_trans [OF that(2)] step
        by (auto simp: Let_def kept_def [of c c1])
      then have "safe (gets c (length s + len)) (if 0 < len
        then io_then (await_data c) (\<lambda>(r, c).
           if r \<noteq> 0 then ret EOF (s, c)
           else let amount = amount_available len c
                in after (read_at (TdsRecvBuffer c) (TdsRecvStart c) amount) (\<lambda>b.
                   loop (len - amount) (s @ b) (take_bytes amount c)))
        else ret 0 (s, c))"
        using kept_refl [OF ok] by (auto intro!: safe_io_then [OF await_data_safe [OF ok]])
      with 1(2) show "fine (gets c (length s + len)) y"
        unfolding take_bytes_def by (simp add: safe_def)
    qed
  qed
  with assms show "fine (gets c (length s + len)) y" by blast
qed

lemma TdsDiscardbytes_safe:
  assumes "recv_ok c"
  shows "safe (keeps c) (TdsDiscardbytes len c)"
  unfolding safe_def
proof (intro allI impI)
  fix y assume "TdsDiscardbytes len c = Some y"
  then have "recv_ok c \<longrightarrow> fine (keeps c) y"
  proof (rule TdsDiscardbytes.raw_induct
      [where P = "\<lambda>len c y. recv_ok c \<longrightarrow> fine (keeps c) y", rotated], goal_cases)
    case (1 loop len c y)
    show ?case
    proof
      assume ok: "recv_ok c"
      have rec: "safe (keeps c) (loop k c1)" if "kept c c1" for k c1
        using 1(1) [of k c1] that kept_trans [OF that]
        by (fastforce simp: safe_def fine_def kept_def [of c c1] split: sum.splits)
      have "safe (keeps c) (if r \<noteq> 0 then ret EOF c1
           else let amount = amount_available len c1 in loop (len - amount) (take_bytes amount c1))"
        if "0 < len" "kept c c1" "r = 0 \<longrightarrow> 0 < TdsLeftInPacket c1 \<and> buffered c1 \<noteq> []" for r c1
        using that amount_in_buffer(1) [of c1 len] kept_trans [OF that(2)] rec
        by (auto simp: Let_def kept_def [of c c1])
      then have "safe (keeps c) (if 0 < len
        then io_then (await_data c) (\<lambda>(r, c).
           if r \<noteq> 0 then ret EOF c
           else let amount = amount_available len c in loop (len - amount) (take_bytes amount c))
        else ret 0 c)"
        using kept_refl [OF ok] by (auto intro!: safe_io_then [OF await_data_safe [OF ok]])
      with 1(2) show "fine (keeps c) y"
        unfolding take_bytes_def by (simp add: safe_def)
    qed
  qed
  with assms show "fine (keeps c) y" by blast
qed

definition reports :: "enlarge \<Rightarrow> bool" where
  "reports enlargeStringInfo \<longleftrightarrow> (\<forall>len n. fine (\<lambda>_. True) (enlargeStringInfo len n))"

lemma safe_io_thenD:
  "io_then m k = Some y \<Longrightarrow> safe P m \<Longrightarrow> (\<And>x. P x \<Longrightarrow> safe Q (k x)) \<Longrightarrow> fine Q y"
  by (metis safe_io_then safe_def)

text \<open>A message only grows by what was granted.\<close>

definition grown :: "enlarge \<Rightarrow> byte list \<Rightarrow> byte list \<Rightarrow> bool" where
  "grown enl m m' \<longleftrightarrow> m' = m \<or> (\<exists>n d. enl (length m) n = Inr () \<and> m' = m @ d \<and> length d \<le> n)"

lemma append_packet_safe:
  assumes "reports enl" and "recv_ok c"
  shows "safe (\<lambda>(r, m', c'). kept c c' \<and> grown enl m m') (append_packet enl m c)"
proof -
  let ?n = "size_t_of_int (TdsLeftInPacket c)"
  have "fine (\<lambda>_. enl (length m) ?n = Inr ()) (enl (length m) ?n)"
    using assms(1) by (auto simp: reports_def fine_def split: sum.splits)
  moreover have "safe (\<lambda>(r, m', c'). kept c c' \<and> grown enl m m') (io_then (get_loop ?n [] c) (\<lambda>(r, b, c).
      if r \<noteq> 0 then ret EOF (m, c) else ret 0 (m @ b, c)))" if "enl (length m) ?n = Inr ()"
    by (rule safe_io_then [OF get_loop_safe [OF assms(2)]]) (use that in \<open>auto simp: grown_def\<close>)
  ultimately show ?thesis
    unfolding append_packet_def TdsGetbytes_def Let_def by (auto intro!: safe_after)
qed

lemma request_loop_safe:
  assumes "reports enl" and "recv_ok c"
  shows "safe (\<lambda>(r, q, c'). kept c c') (request_loop enl isFirst q c)"
  unfolding safe_def
proof (intro allI impI)
  let ?P = "\<lambda>c. \<lambda>(r, q :: tds_request, c'). kept c c'"
  fix y assume "request_loop enl isFirst q c = Some y"
  then have "reports enl \<longrightarrow> recv_ok c \<longrightarrow> fine (?P c) y"
  proof (rule request_loop.raw_induct
      [where P = "\<lambda>enl isFirst q c y. reports enl \<longrightarrow> recv_ok c \<longrightarrow> fine (?P c) y", rotated], goal_cases)
    case (1 loop enl isFirst q c y)
    show ?case
    proof (intro impI)
      assume enl: "reports enl" and ok: "recv_ok c"
      have rec: "safe (?P c) (loop enl False t c1)" if "kept c c1" for t c1
        using 1(1) [of enl False t c1] enl that kept_trans [OF that]
        by (fastforce simp: safe_def fine_def kept_def [of c c1] split: sum.splits)
      have packet: "safe (?P c) (io_then (append_packet enl (req_message t) c1) (\<lambda>(r, m, c).
             if r \<noteq> 0 then ret EOF (t, c)
             else let q = t\<lparr>req_message := m\<rparr>
                  in if is_eom (TdsRecvPacketStatus c)
                     then ret 0 (q, if TdsLeftInPacket c = 0 \<and> TdsRecvStart c = TdsRecvEnd c
                                    then c\<lparr>TdsDoProcessHeader := True\<rparr> else c)
                     else if TdsRecvMessageType c = TDS_BULK_LOAD
                     then ret 0 (q, c\<lparr>TdsDoProcessHeader := True\<rparr>)
                     else loop enl False q c))" if keep: "kept c c1" for t c1
      proof (rule safe_io_then [OF append_packet_safe [OF enl]])
        show "recv_ok c1" using keep by (simp add: kept_def)
        fix x :: "int \<times> byte list \<times> tds_comm" assume "case x of (r, m, c') \<Rightarrow> kept c1 c' \<and> grown enl (req_message t) m"
        then obtain r m c2 where x: "x = (r, m, c2)" and k: "kept c c2"
          using kept_trans [OF keep] by (cases x) auto
        then have "kept c (c2\<lparr>TdsDoProcessHeader := True\<rparr>)" by (simp add: kept_def recv_ok_def)
        with k rec show "safe (?P c) (case x of (r, m, c) \<Rightarrow>
             if r \<noteq> 0 then ret EOF (t, c)
             else let q = t\<lparr>req_message := m\<rparr>
                  in if is_eom (TdsRecvPacketStatus c)
                     then ret 0 (q, if TdsLeftInPacket c = 0 \<and> TdsRecvStart c = TdsRecvEnd c
                                    then c\<lparr>TdsDoProcessHeader := True\<rparr> else c)
                     else if TdsRecvMessageType c = TDS_BULK_LOAD
                     then ret 0 (q, c\<lparr>TdsDoProcessHeader := True\<rparr>)
                     else loop enl False q c)"
          by (auto simp: x Let_def)
      qed
      show "fine (?P c) y"
      proof (rule safe_io_thenD [OF 1(2) TdsReadNextBuffer_safe [OF ok]], goal_cases)
        case (1 x)
        then have "kept c (snd x)" by (cases x) simp
        with packet [unfolded Let_def, OF this] show ?case
          unfolding Let_def by (cases x) simp
      qed
    qed
  qed
  with assms show "fine (?P c) y" by blast
qed

lemma TdsDiscardAllPendingBcpRequest_safe:
  assumes "recv_ok c"
  shows "safe (keeps c) (TdsDiscardAllPendingBcpRequest c)"
  unfolding safe_def
proof (intro allI impI)
  fix y assume "TdsDiscardAllPendingBcpRequest c = Some y"
  then have "recv_ok c \<longrightarrow> fine (keeps c) y"
  proof (rule TdsDiscardAllPendingBcpRequest.raw_induct
      [where P = "\<lambda>c y. recv_ok c \<longrightarrow> fine (keeps c) y", rotated], goal_cases)
    case (1 loop c y)
    show ?case
    proof
      assume ok: "recv_ok c"
      have rec: "safe (keeps c) (loop c1)" if "kept c c1" for c1
        using 1(1) [of c1] that kept_trans [OF that]
        by (fastforce simp: safe_def fine_def kept_def [of c c1] split: sum.splits)
      have skip: "safe (keeps c) (TdsDiscardbytes n c1)" if "kept c c1" for n c1
        using TdsDiscardbytes_safe [of c1 n] that kept_trans [OF that]
        by (auto simp: kept_def [of c c1] elim!: safe_mono)
      show "fine (keeps c) y"
      proof (rule safe_io_thenD [OF 1(2) TdsReadNextBuffer_safe [OF ok]], goal_cases)
        case (1 x)
        then have "kept c (snd x)" by (cases x) simp
        with rec show ?case by (cases x) (auto intro!: safe_io_then [OF skip])
      qed
    qed
  qed
  with assms show "fine (keeps c) y" by blast
qed

lemma TdsReadNextPendingBcpRequest_safe:
  assumes "reports enl" and "recv_ok c"
  shows "safe (\<lambda>(r, m', c'). kept c c' \<and> grown enl m m') (TdsReadNextPendingBcpRequest enl m c)"
  unfolding TdsReadNextPendingBcpRequest_def
proof (rule safe_io_then [OF TdsReadNextBuffer_safe [OF assms(2)]], goal_cases)
  case (1 x)
  then have k: "kept c (snd x)" by (cases x) simp
  then have "safe (\<lambda>(r, m', c'). kept (snd x) c' \<and> grown enl m m') (append_packet enl m (snd x))"
    by (intro append_packet_safe [OF assms(1)]) (simp add: kept_def)
  then have "safe (\<lambda>(r, m', c'). kept c c' \<and> grown enl m m') (append_packet enl m (snd x))"
    by (rule safe_mono) (auto intro: kept_trans [OF k])
  then show ?case
    using k by (cases x) (auto simp: grown_def intro!: safe_io_then)
qed

text \<open>Putting bytes keeps the send buffer in order, whatever becomes of the writes.\<close>

abbreviation sends :: "tds_comm \<Rightarrow> int \<times> tds_comm \<Rightarrow> bool" where
  "sends c \<equiv> (\<lambda>(r, c'). send_ok c' \<and> receiver c' = receiver c)"

lemma FlushBuffer_fine:
  "send_ok c \<Longrightarrow> fine (sends c) (and_then (SocketSetNonblocking False c) (InternalFlush lastPacket))"
  using FlushBuffer_ok [of c lastPacket] by auto

lemma InternalPutbytes_safe:
  assumes "send_ok c"
  shows "safe (sends c) (InternalPutbytes s c)"
  unfolding safe_def
proof (intro allI impI)
  fix y assume "InternalPutbytes s c = Some y"
  then have "send_ok c \<longrightarrow> fine (sends c) y"
  proof (rule InternalPutbytes.raw_induct
      [where P = "\<lambda>s c y. send_ok c \<longrightarrow> fine (sends c) y", rotated], goal_cases)
    case (1 loop s c y)
    show ?case
    proof
      assume ok: "send_ok c"
      have rec: "safe (sends c) (loop t c1)" if "send_ok c1" "receiver c1 = receiver c" for t c1
        using 1(1) [of t c1] that by (auto simp: safe_def)
      have put: "safe (sends c) (let amount = min (uint32_sub (TdsBufferSize c1) (TdsSendCur c1)) (length s)
                in after (memcpy_at (TdsSendBuffer c1) (TdsSendCur c1) (take amount s)) (\<lambda>d.
                   loop (drop amount s) (c1\<lparr>TdsSendBuffer := d, TdsSendCur := TdsSendCur c1 + amount\<rparr>)))"
        if c1: "send_ok c1" "receiver c1 = receiver c" for c1
      proof -
        define k where "k = min (uint32_sub (TdsBufferSize c1) (TdsSendCur c1)) (length s)"
        have "TdsSendCur c1 + k \<le> TdsBufferSize c1" "length (take k s) = k"
          using c1(1) by (auto simp: k_def send_ok_def uint32_sub_small)
        note put = put_some [OF c1(1) this]
        show ?thesis
          unfolding k_def [symmetric] Let_def put(1)
          using rec [OF put(2)] c1(2) by simp
      qed
      have "fine (sends c) (if TdsBufferSize c \<le> TdsSendCur c then FlushBuffer c else Inr (0, c))"
        using FlushBuffer_fine [OF ok, of False] ok by (simp add: FlushBuffer_def)
      then have "safe (sends c) (after (if TdsBufferSize c \<le> TdsSendCur c then FlushBuffer c else Inr (0, c)) (\<lambda>(r, c).
           if r \<noteq> 0 then ret EOF c
           else let amount = min (uint32_sub (TdsBufferSize c) (TdsSendCur c)) (length s)
                in after (memcpy_at (TdsSendBuffer c) (TdsSendCur c) (take amount s)) (\<lambda>d.
                   loop (drop amount s) (c\<lparr>TdsSendBuffer := d, TdsSendCur := TdsSendCur c + amount\<rparr>))))"
        by (rule safe_after) (use put in auto)
      with 1(2) ok show "fine (sends c) y" by (auto split: if_splits)
    qed
  qed
  with assms show "fine (sends c) y" by blast
qed

text \<open>Everything the listener does with a connection, and the states it can reach.\<close>

datatype comm_op =
    Read_request | Read_message byte | Read_bulk | Discard_bulk | Get_bytes nat
  | Set_type byte | Put_bytes "byte list" | Flush_part | Flush_message
  | Write_message "byte list" byte | Set_buffer_size nat | Reset

definition only_state :: "(int \<times> tds_comm) result \<Rightarrow> tds_comm result" where
  "only_state r = and_then r (\<lambda>(r, c). Inr c)"

fun run_op :: "pg_mem \<Rightarrow> enlarge \<Rightarrow> comm_op \<Rightarrow> tds_comm \<Rightarrow> tds_comm result option" where
  "run_op m enl Read_request c = io_then (TdsReadNextRequest enl no_request c) (\<lambda>(r, q, c). Some (Inr c))"
| "run_op m enl (Read_message ty) c = io_then (TdsReadMessage enl [] ty c) (\<lambda>(r, b, c). Some (Inr c))"
| "run_op m enl Read_bulk c = io_then (TdsReadNextPendingBcpRequest enl [] c) (\<lambda>(r, b, c). Some (Inr c))"
| "run_op m enl Discard_bulk c = io_then (TdsDiscardAllPendingBcpRequest c) (\<lambda>(r, c). Some (Inr c))"
| "run_op m enl (Get_bytes n) c = io_then (TdsGetbytes n c) (\<lambda>(r, b, c). Some (Inr c))"
| "run_op m enl (Set_type ty) c = Some (Inr (TdsSetMessageType ty c))"
| "run_op m enl (Put_bytes s) c = io_then (TdsPutbytes s c) (\<lambda>(r, c). Some (Inr c))"
| "run_op m enl Flush_part c = Some (only_state (FlushBuffer c))"
| "run_op m enl Flush_message c = Some (only_state (TdsSocketFlush c))"
| "run_op m enl (Write_message b ty) c = io_then (TdsWriteMessage b ty c) (\<lambda>(r, c). Some (Inr c))"
| "run_op m enl (Set_buffer_size n) c = Some (TdsSetBufferSize m n c)"
| "run_op m enl Reset c = Some (TdsCommReset m c)"

definition size_allowed :: "nat \<Rightarrow> bool" where
  "size_allowed n \<longleftrightarrow> 512 \<le> n \<and> n \<le> 32767"

definition op_allowed :: "comm_op \<Rightarrow> bool" where
  "op_allowed op \<longleftrightarrow> (case op of Set_buffer_size n \<Rightarrow> size_allowed n | _ \<Rightarrow> True)"

inductive comm_reachable :: "pg_mem \<Rightarrow> enlarge \<Rightarrow> tds_comm \<Rightarrow> bool" for m enl where
  comm_start: "TdsCommInit m n c = Inr c' \<Longrightarrow> size_allowed n \<Longrightarrow> noblock c \<noteq> None \<Longrightarrow>
     comm_reachable m enl c'"
| comm_world: "comm_reachable m enl c \<Longrightarrow>
     comm_reachable m enl (c\<lparr>incoming := bytes, read_events := res, write_events := wes\<rparr>)"
| comm_op: "comm_reachable m enl c \<Longrightarrow> op_allowed op \<Longrightarrow> run_op m enl op c = Some (Inr c') \<Longrightarrow>
     comm_reachable m enl c'"

definition comm_ok :: "tds_comm \<Rightarrow> bool" where
  "comm_ok c \<longleftrightarrow> recv_ok c \<and> send_ok c"

lemma comm_ok_kept: "comm_ok c \<Longrightarrow> kept c c' \<Longrightarrow> comm_ok c'"
  using sender_eqD [of c' c] by (simp add: comm_ok_def kept_def send_ok_def recv_ok_def)

lemma comm_ok_sends: "comm_ok c \<Longrightarrow> send_ok c' \<Longrightarrow> receiver c' = receiver c \<Longrightarrow> comm_ok c'"
  using receiver_eqD [of c' c] by (simp add: comm_ok_def send_ok_def recv_ok_def)

lemma comm_ok_new_buffers:
  assumes "pg_mem_spec m" and "noblock c \<noteq> None" and "8 < TdsBufferSize c" and "TdsBufferSize c \<le> 65535"
  shows "fine comm_ok (TdsCommReset m c)"
  using alloc_laws(1) [OF assms(1)] alloc_length [OF assms(1)] assms(2-4)
  unfolding TdsCommReset_def Let_def
  by (cases "palloc m (TdsBufferSize c)")
    (auto simp: and_then_def comm_ok_def recv_ok_def send_ok_def split: sum.splits)

lemma TdsSetBufferSize_fine:
  assumes "pg_mem_spec m" and "comm_ok c" and "size_allowed n"
  shows "fine comm_ok (TdsSetBufferSize m n c)"
  using alloc_laws(4,5) [OF assms(1)] assms(2,3)
  unfolding TdsSetBufferSize_def
  by (cases "repalloc m (TdsSendBuffer c) n"; cases "repalloc m (TdsRecvBuffer c) n")
    (auto simp: and_then_def comm_ok_def recv_ok_def send_ok_def size_allowed_def)

lemma TdsWriteMessage_safe:
  assumes "send_ok c"
  shows "safe (sends c) (TdsWriteMessage message ty c)"
proof -
  have "send_ok (TdsSetMessageType ty c)" and r: "receiver (TdsSetMessageType ty c) = receiver c"
    using assms by (simp_all add: TdsSetMessageType_def send_ok_def)
  then have put: "safe (sends c) (TdsPutbytes message (TdsSetMessageType ty c))"
    using InternalPutbytes_safe [of "TdsSetMessageType ty c"] by (simp add: TdsPutbytes_def)
  have flush: "safe (sends c) (after (TdsSocketFlush c') (\<lambda>(r, c). if r \<noteq> 0 then ret EOF c else ret 0 c))"
    if "send_ok c'" "receiver c' = receiver c" for c'
    unfolding TdsSocketFlush_def using that by (auto intro!: safe_after [OF FlushBuffer_fine])
  show ?thesis
    unfolding TdsWriteMessage_def using flush by (auto intro!: safe_io_then [OF put])
qed

lemma run_op_safe:
  assumes "pg_mem_spec m" and "reports enl" and ok: "comm_ok c" and "op_allowed op"
  shows "safe comm_ok (run_op m enl op c)"
proof -
  have r: "recv_ok c" and s: "send_ok c" using ok by (simp_all add: comm_ok_def)
  note keep = comm_ok_kept [OF ok] and send = comm_ok_sends [OF ok]
  have request: "safe (\<lambda>(r, q, c'). kept c c') (TdsReadNextRequest enl q c)" for q
    unfolding TdsReadNextRequest_def using request_loop_safe [OF assms(2) r] .
  show ?thesis
  proof (cases op)
    case Read_request
    then show ?thesis using keep by (auto intro!: safe_io_then [OF request])
  next
    case (Read_message ty)
    have "safe (\<lambda>(r, b, c'). kept c c') (TdsReadMessage enl [] ty c)"
      unfolding TdsReadMessage_def by (auto intro!: safe_io_then [OF request])
    with Read_message keep show ?thesis by (auto intro!: safe_io_then)
  next
    case Read_bulk
    then show ?thesis
      using keep by (auto intro!: safe_io_then [OF TdsReadNextPendingBcpRequest_safe [OF assms(2) r]])
  next
    case Discard_bulk
    then show ?thesis using keep by (auto intro!: safe_io_then [OF TdsDiscardAllPendingBcpRequest_safe [OF r]])
  next
    case (Get_bytes n)
    then show ?thesis using keep by (auto simp: TdsGetbytes_def intro!: safe_io_then [OF get_loop_safe [OF r]])
  next
    case (Set_type ty)
    with ok show ?thesis by (simp add: TdsSetMessageType_def comm_ok_def recv_ok_def send_ok_def)
  next
    case (Put_bytes b)
    then show ?thesis
      using send by (auto simp: TdsPutbytes_def intro!: safe_io_then [OF InternalPutbytes_safe [OF s]])
  next
    case Flush_part
    then show ?thesis
      using FlushBuffer_ok [OF s, of False] send by (auto simp: only_state_def FlushBuffer_def)
  next
    case Flush_message
    then show ?thesis
      using FlushBuffer_ok [OF s, of True] send by (auto simp: only_state_def TdsSocketFlush_def)
  next
    case (Write_message b ty)
    with TdsWriteMessage_safe [OF s] send show ?thesis by (auto intro!: safe_io_then)
  next
    case (Set_buffer_size n)
    with assms(4) TdsSetBufferSize_fine [OF assms(1) ok] show ?thesis by (simp add: op_allowed_def)
  next
    case Reset
    with comm_ok_new_buffers [OF assms(1), of c] r show ?thesis by (simp add: recv_ok_def)
  qed
qed

text \<open>
  C6. Whatever a client sends and however the system calls end, no operation of a
  connection reads or writes outside of its buffers: in every state that is reachable the
  buffers have the negotiated size, the indices are in order, and every operation returns
  a state, reports, or keeps running.
\<close>

theorem transport_in_bounds:
  assumes "pg_mem_spec m" and "reports enl" and "comm_reachable m enl c" and "op_allowed op"
  shows "length (TdsRecvBuffer c) = TdsBufferSize c \<and> TdsRecvStart c \<le> TdsRecvEnd c \<and>
    TdsRecvEnd c \<le> TdsBufferSize c \<and> length (TdsSendBuffer c) = TdsBufferSize c \<and>
    TdsSendStart c \<le> TdsSendCur c \<and> TdsSendCur c \<le> TdsBufferSize c \<and>
    (case run_op m enl op c of Some (Inl e) \<Rightarrow> is_report e | _ \<Rightarrow> True)"
proof -
  have "comm_ok c"
    using assms(3)
  proof induction
    case (comm_start n c c')
    then show ?case
      using comm_ok_new_buffers [OF assms(1), of "c\<lparr>TdsDoProcessHeader := True, TdsBufferSize := n\<rparr>"]
      by (simp add: TdsCommInit_def size_allowed_def)
  next
    case (comm_world c bytes res wes)
    then show ?case by (simp add: comm_ok_def recv_ok_def send_ok_def)
  next
    case (comm_op c op c')
    with run_op_safe [OF assms(1,2) comm_op.IH comm_op.hyps(2)] show ?case by simp
  qed
  with run_op_safe [OF assms(1,2) this assms(4)] show ?thesis
    by (auto simp: comm_ok_def recv_ok_def send_ok_def safe_def split: option.splits sum.splits)
qed

theorem transport_in_bounds_witness:
  "\<exists>c. TdsCommInit pg_mem_simple 4096 (new_comm 0 [1, 0, 255, 255, 0, 0, 0, 0, 9] [Chunk 3] []) = Inr c \<and>
     comm_reachable pg_mem_simple grant_all c \<and>
     (case run_op pg_mem_simple grant_all Read_request c of Some (Inl e) \<Rightarrow> is_report e | _ \<Rightarrow> True)"
proof -
  obtain c where c: "TdsCommInit pg_mem_simple 4096 (new_comm 0 [1, 0, 255, 255, 0, 0, 0, 0, 9] [Chunk 3] []) = Inr c"
    by (simp add: TdsCommInit_def TdsCommReset_def pg_mem_simple_def alloc_or_report_def MaxAllocSize_def
        Let_def new_comm_def)
  then have "comm_reachable pg_mem_simple grant_all c"
    by (rule comm_start) (simp_all add: size_allowed_def new_comm_def)
  moreover have "reports grant_all" by (simp add: reports_def grant_all_def)
  ultimately show ?thesis
    using c transport_in_bounds [OF pg_mem_simple_ok, of grant_all c Read_request]
    by (simp add: op_allowed_def del: run_op.simps)
qed

end
