(* ===== verification/Tds_Bulk.thy ===== *)
theory Tds_Bulk
  imports Tds_Comm
begin

text \<open>
  Bulk loads, \<^verbatim>\<open>tdsbulkload.c\<close>: the metadata of the columns and the rows of a bulk load are
  parsed while its packets arrive. More packets are fetched whenever the bytes at hand do
  not suffice, what was parsed is dropped, and the rows are handed over in batches. This
  theory holds the model of the reader.
\<close>

named_theorems tds_types \<open>the numbers of the types of columns\<close>

section \<open>Columns\<close>

definition TDS_TYPE_TEXT :: byte where [tds_types]: "TDS_TYPE_TEXT = 35"
definition TDS_TYPE_UNIQUEIDENTIFIER :: byte where [tds_types]: "TDS_TYPE_UNIQUEIDENTIFIER = 36"
definition TDS_TYPE_INTEGER :: byte where [tds_types]: "TDS_TYPE_INTEGER = 38"
definition TDS_TYPE_NTEXT :: byte where [tds_types]: "TDS_TYPE_NTEXT = 99"
definition TDS_TYPE_BIT :: byte where [tds_types]: "TDS_TYPE_BIT = 104"
definition TDS_TYPE_FLOAT :: byte where [tds_types]: "TDS_TYPE_FLOAT = 109"
definition TDS_TYPE_VARCHAR :: byte where [tds_types]: "TDS_TYPE_VARCHAR = 167"
definition TDS_TYPE_NVARCHAR :: byte where [tds_types]: "TDS_TYPE_NVARCHAR = 231"
definition TDS_TYPE_NCHAR :: byte where [tds_types]: "TDS_TYPE_NCHAR = 239"
definition TDS_TYPE_MONEYN :: byte where [tds_types]: "TDS_TYPE_MONEYN = 110"
definition TDS_TYPE_CHAR :: byte where [tds_types]: "TDS_TYPE_CHAR = 175"
definition TDS_TYPE_DATE :: byte where [tds_types]: "TDS_TYPE_DATE = 40"
definition TDS_TYPE_DATETIMEN :: byte where [tds_types]: "TDS_TYPE_DATETIMEN = 111"
definition TDS_TYPE_NUMERICN :: byte where [tds_types]: "TDS_TYPE_NUMERICN = 108"
definition TDS_TYPE_XML :: byte where [tds_types]: "TDS_TYPE_XML = 241"
definition TDS_TYPE_DECIMALN :: byte where [tds_types]: "TDS_TYPE_DECIMALN = 106"
definition TDS_TYPE_VARBINARY :: byte where [tds_types]: "TDS_TYPE_VARBINARY = 165"
definition TDS_TYPE_BINARY :: byte where [tds_types]: "TDS_TYPE_BINARY = 173"
definition TDS_TYPE_IMAGE :: byte where [tds_types]: "TDS_TYPE_IMAGE = 34"
definition TDS_TYPE_TIME :: byte where [tds_types]: "TDS_TYPE_TIME = 41"
definition TDS_TYPE_DATETIME2 :: byte where [tds_types]: "TDS_TYPE_DATETIME2 = 42"
definition TDS_TYPE_SQLVARIANT :: byte where [tds_types]: "TDS_TYPE_SQLVARIANT = 98"
definition TDS_TYPE_DATETIMEOFFSET :: byte where [tds_types]: "TDS_TYPE_DATETIMEOFFSET = 43"

definition VARIANT_TYPE_TINYINT :: byte where [tds_types]: "VARIANT_TYPE_TINYINT = 48"
definition VARIANT_TYPE_BIT :: byte where [tds_types]: "VARIANT_TYPE_BIT = 50"
definition VARIANT_TYPE_SMALLINT :: byte where [tds_types]: "VARIANT_TYPE_SMALLINT = 52"
definition VARIANT_TYPE_INT :: byte where [tds_types]: "VARIANT_TYPE_INT = 56"
definition VARIANT_TYPE_BIGINT :: byte where [tds_types]: "VARIANT_TYPE_BIGINT = 127"
definition VARIANT_TYPE_REAL :: byte where [tds_types]: "VARIANT_TYPE_REAL = 59"
definition VARIANT_TYPE_FLOAT :: byte where [tds_types]: "VARIANT_TYPE_FLOAT = 62"
definition VARIANT_TYPE_MONEY :: byte where [tds_types]: "VARIANT_TYPE_MONEY = 60"
definition VARIANT_TYPE_SMALLMONEY :: byte where [tds_types]: "VARIANT_TYPE_SMALLMONEY = 122"
definition VARIANT_TYPE_SMALLDATETIME :: byte where [tds_types]: "VARIANT_TYPE_SMALLDATETIME = 58"
definition VARIANT_TYPE_DATETIME :: byte where [tds_types]: "VARIANT_TYPE_DATETIME = 61"

definition TDS_TOKEN_COLMETADATA :: byte where [tds_types]: "TDS_TOKEN_COLMETADATA = 129"
definition TDS_TOKEN_ROW :: byte where [tds_types]: "TDS_TOKEN_ROW = 209"
definition TDS_TOKEN_DONE :: byte where [tds_types]: "TDS_TOKEN_DONE = 253"

definition PLP_TERMINATOR :: nat where "PLP_TERMINATOR = 0"
definition PLP_NULL :: nat where "PLP_NULL = 2 ^ 64 - 1"
definition PLP_UNKNOWN_LEN :: nat where "PLP_UNKNOWN_LEN = 2 ^ 64 - 2"
definition MAX_BULK_LOAD_COLUMNS :: nat where "MAX_BULK_LOAD_COLUMNS = 30000"

record BulkLoadColMetaData =
  userType :: int
  flags :: nat
  columnTdsType :: byte
  scale :: byte
  precision :: byte
  sortId :: byte
  encoding :: int
  maxLen :: nat
  colName :: "byte list"
  variantType :: bool

text \<open>
  What the listener uses of the rest of the system: whether \<open>char\<close> is signed on the machine,
  the server's \<open>enlargeStringInfo\<close>, the encodings by language, the limits of a batch, the
  functions that convert the bytes of a value, the callback that inserts rows into the
  database \<open>'t\<close>, and the value of a \<open>Datum\<close> that is zero.
\<close>

record ('d, 't) bulk_env =
  char_signed :: bool
  enlargeStringInfo :: enlarge
  TdsLookupEncodingByLCID :: "nat \<Rightarrow> int"
  TdsDefaultLcid :: nat
  insert_bulk_kilobytes_per_batch :: int
  insert_bulk_rows_per_batch :: int
  TdsTypeIntegerToDatum :: "byte list \<Rightarrow> nat \<Rightarrow> 'd result"
  TdsTypeFloatToDatum :: "byte list \<Rightarrow> nat \<Rightarrow> 'd result"
  TdsTypeTimeToDatum :: "byte list \<Rightarrow> byte \<Rightarrow> nat \<Rightarrow> 'd result"
  TdsTypeDateToDatum :: "byte list \<Rightarrow> 'd result"
  TdsTypeDatetime2ToDatum :: "byte list \<Rightarrow> byte \<Rightarrow> nat \<Rightarrow> 'd result"
  TdsTypeSmallDatetimeToDatum :: "byte list \<Rightarrow> 'd result"
  TdsTypeDatetimeToDatum :: "byte list \<Rightarrow> 'd result"
  TdsTypeDatetimeoffsetToDatum :: "byte list \<Rightarrow> byte \<Rightarrow> nat \<Rightarrow> 'd result"
  TdsTypeSmallMoneyToDatum :: "byte list \<Rightarrow> 'd result"
  TdsTypeMoneyToDatum :: "byte list \<Rightarrow> 'd result"
  TdsTypeUIDToDatum :: "byte list \<Rightarrow> 'd result"
  TdsTypeNumericToDatum :: "byte list \<Rightarrow> byte \<Rightarrow> 'd result"
  TdsTypeVarcharToDatum :: "byte list \<Rightarrow> int \<Rightarrow> byte \<Rightarrow> 'd result"
  TdsTypeNCharToDatum :: "byte list \<Rightarrow> 'd result"
  TdsTypeVarbinaryToDatum :: "byte list \<Rightarrow> 'd result"
  TdsTypeXMLToDatum :: "byte list \<Rightarrow> 'd result"
  TdsTypeSqlVariantToDatum :: "byte list \<Rightarrow> 'd result"
  bulk_load_callback :: "nat \<Rightarrow> int \<Rightarrow> 'd option list \<Rightarrow> 't \<Rightarrow> (nat \<times> 't) result"
  Datum_zero :: 'd

section \<open>The message of a bulk load\<close>

text \<open>
  The state while a bulk load is read: the connection, the message at hand (its structure is
  a local variable of the caller until the first rows are read), the offset of the next byte
  to parse, and the counters of the current batch.
\<close>

record bulk =
  comm :: tds_comm
  message :: "byte list"
  on_stack :: bool
  bcpOffset :: nat
  rowCount :: int
  currentBatchSize :: int

text \<open>
  A report leaves the global state as it was when it was raised, which the error handling
  goes on from. A report from within the transport is \<open>Lost\<close>: nothing is said about the
  connection after it, which most of these reports end.
\<close>

datatype 'a outcome = Ok 'a bulk | Raised pg_error bulk | Lost pg_error

abbreviation bulk_then ::
  "'a outcome option \<Rightarrow> ('a \<Rightarrow> bulk \<Rightarrow> 'b outcome option) \<Rightarrow> 'b outcome option" where
  "bulk_then m k \<equiv> Option.bind m (\<lambda>r. case r of
     Ok x b \<Rightarrow> k x b | Raised e b \<Rightarrow> Some (Raised e b) | Lost e \<Rightarrow> Some (Lost e))"

definition attempt :: "'a result \<Rightarrow> bulk \<Rightarrow> 'a outcome option" where
  "attempt r b = (case r of Inl e \<Rightarrow> Some (Raised e b) | Inr x \<Rightarrow> Some (Ok x b))"

definition violation :: "string \<Rightarrow> bulk \<Rightarrow> 'a outcome option" where
  "violation msg b = Some (Raised (Report ERROR ERRCODE_PROTOCOL_VIOLATION msg) b)"

definition stream_incorrect :: "string \<Rightarrow> bulk \<Rightarrow> 'a outcome option" where
  "stream_incorrect msg b = violation (''The incoming tabular data stream (TDS) Bulk Load Request (BulkLoadBCP) protocol stream is incorrect. '' @ msg) b"

definition TdsResetBcpOffset :: "bulk \<Rightarrow> bulk" where
  "TdsResetBcpOffset b = b\<lparr>bcpOffset := 0\<rparr>"

text \<open>
  The loop that fetches packets until \<open>want\<close> bytes can be read. When the connection ends
  \<open>FetchMoreBcpData\<close>, but not \<open>FetchMoreBcpPlpData\<close>, releases the message first.
\<close>

partial_function (option) fetch_packets ::
  "enlarge \<Rightarrow> bool \<Rightarrow> nat \<Rightarrow> bulk \<Rightarrow> unit outcome option" where
  "fetch_packets enl releases want b =
     (if length (message b) < size_t_add want (bcpOffset b)
      then Option.bind (TdsReadNextPendingBcpRequest enl (message b) (comm b)) (\<lambda>res.
           case res of
             Inl e \<Rightarrow> Some (Lost e)
           | Inr (r, m, c) \<Rightarrow>
               let b = b\<lparr>message := m, comm := c\<rparr>
               in if r < 0
                  then if releases \<and> on_stack b then Some (Lost (Invalid_access ''pfree of a local variable''))
                       else violation ''EOF on TDS socket while fetching For Bulk Load Request'' b
                  else fetch_packets enl releases want b)
      else Some (Ok () b))"

text \<open>What was parsed is dropped: the rest is copied and the message released.\<close>

definition drop_parsed :: "enlarge \<Rightarrow> bulk \<Rightarrow> unit outcome option" where
  "drop_parsed enl b =
     (let n = size_t_sub (length (message b)) (bcpOffset b)
      in bulk_then (attempt (enl 0 n) b) (\<lambda>_ b.
         bulk_then (attempt (read_at (message b) (bcpOffset b) n) b) (\<lambda>temp b.
         if on_stack b then Some (Lost (Invalid_access ''pfree of a local variable''))
         else Some (Ok () (b\<lparr>message := temp, bcpOffset := 0\<rparr>)))))"

definition FetchMoreBcpData :: "enlarge \<Rightarrow> bool \<Rightarrow> nat \<Rightarrow> bulk \<Rightarrow> unit outcome option" where
  "FetchMoreBcpData enl freeMessageData dataLenToRead b =
     (if TdsGetRecvPacketEomStatus (comm b)
      then violation ''Trying to read more data than available in BCP request.'' b
      else bulk_then (if freeMessageData then drop_parsed enl b else Some (Ok () b)) (\<lambda>_ b.
           fetch_packets enl True (size_t_of_int (to_int32 (int dataLenToRead))) b))"

definition FetchMoreBcpPlpData :: "enlarge \<Rightarrow> nat \<Rightarrow> bulk \<Rightarrow> unit outcome option" where
  "FetchMoreBcpPlpData enl dataLenToRead b =
     (if TdsGetRecvPacketEomStatus (comm b)
      then violation ''Trying to read more data than available in BCP request.'' b
      else fetch_packets enl False (size_t_of_int (to_int32 (int dataLenToRead))) b)"

text \<open>The three macros that make sure of enough bytes, which differ in what they call.\<close>

definition has_enough :: "(nat \<Rightarrow> bulk \<Rightarrow> unit outcome option) \<Rightarrow> nat \<Rightarrow> bulk \<Rightarrow> unit outcome option" where
  "has_enough fetch dataLen b =
     (if size_t_sub (length (message b)) (bcpOffset b) < dataLen then fetch dataLen b
      else Some (Ok () b))"

definition CheckMessageHasEnoughBytesToReadColMetadata :: "enlarge \<Rightarrow> nat \<Rightarrow> bulk \<Rightarrow> unit outcome option" where
  "CheckMessageHasEnoughBytesToReadColMetadata enl = has_enough (FetchMoreBcpData enl False)"

definition CheckMessageHasEnoughBytesToReadRows :: "enlarge \<Rightarrow> nat \<Rightarrow> bulk \<Rightarrow> unit outcome option" where
  "CheckMessageHasEnoughBytesToReadRows enl = has_enough (FetchMoreBcpData enl True)"

definition CheckPlpMessageHasEnoughBytesToRead :: "enlarge \<Rightarrow> nat \<Rightarrow> bulk \<Rightarrow> unit outcome option" where
  "CheckPlpMessageHasEnoughBytesToRead enl = has_enough (FetchMoreBcpPlpData enl)"

text \<open>
  The bytes at the offset, and moving it, without and with counting the bytes for the batch.
  A byte assigned to an integer is sign-extended where \<open>char\<close> is signed; numbers are copied
  with the least significant byte first.
\<close>

definition peek :: "nat \<Rightarrow> bulk \<Rightarrow> byte list outcome option" where
  "peek n b = attempt (read_at (message b) (bcpOffset b) n) b"

definition advance :: "nat \<Rightarrow> bulk \<Rightarrow> bulk" where
  "advance n b = b\<lparr>bcpOffset := bcpOffset b + n\<rparr>"

definition count :: "nat \<Rightarrow> bulk \<Rightarrow> bulk" where
  "count n b = b\<lparr>bcpOffset := bcpOffset b + n, currentBatchSize := to_int32 (currentBatchSize b + int n)\<rparr>"

definition char_value :: "bool \<Rightarrow> byte \<Rightarrow> nat" where
  "char_value sx x = (if sx \<and> 128 \<le> unat x then 2 ^ 32 - 256 + unat x else unat x)"

primrec le_value :: "byte list \<Rightarrow> nat" where
  "le_value [] = 0"
| "le_value (x # xs) = unat x + 256 * le_value xs"

section \<open>Column metadata\<close>

definition TdsGetEncoding :: "('d, 't) bulk_env \<Rightarrow> nat \<Rightarrow> int" where
  "TdsGetEncoding env collation =
     (if collation mod 2 ^ 20 \<noteq> 0 then TdsLookupEncodingByLCID env (collation mod 2 ^ 20)
      else TdsLookupEncodingByLCID env (TdsDefaultLcid env))"

text \<open>Types of columns that cannot be NULL: the type they stand for and its length.\<close>

definition variant_info :: "byte \<Rightarrow> (byte \<times> nat) option" where
  "variant_info t =
     (if t = VARIANT_TYPE_INT then Some (TDS_TYPE_INTEGER, 4)
      else if t = VARIANT_TYPE_BIT then Some (TDS_TYPE_BIT, 1)
      else if t = VARIANT_TYPE_BIGINT then Some (TDS_TYPE_INTEGER, 8)
      else if t = VARIANT_TYPE_SMALLINT then Some (TDS_TYPE_INTEGER, 2)
      else if t = VARIANT_TYPE_TINYINT then Some (TDS_TYPE_INTEGER, 1)
      else if t = VARIANT_TYPE_REAL then Some (TDS_TYPE_FLOAT, 4)
      else if t = VARIANT_TYPE_FLOAT then Some (TDS_TYPE_FLOAT, 8)
      else if t = VARIANT_TYPE_DATETIME then Some (TDS_TYPE_DATETIMEN, 8)
      else if t = VARIANT_TYPE_SMALLDATETIME then Some (TDS_TYPE_DATETIMEN, 4)
      else if t = VARIANT_TYPE_MONEY then Some (TDS_TYPE_MONEYN, 8)
      else if t = VARIANT_TYPE_SMALLMONEY then Some (TDS_TYPE_MONEYN, 4)
      else None)"

text \<open>Reading \<open>n\<close> bytes of metadata and passing over them.\<close>

definition meta_bytes :: "enlarge \<Rightarrow> nat \<Rightarrow> bulk \<Rightarrow> byte list outcome option" where
  "meta_bytes enl n b =
     bulk_then (CheckMessageHasEnoughBytesToReadColMetadata enl n b) (\<lambda>_ b.
     bulk_then (peek n b) (\<lambda>v b. Some (Ok v (advance n b))))"

text \<open>The name of the table of a large object is passed over without being read.\<close>

definition table_name :: "enlarge \<Rightarrow> bulk \<Rightarrow> unit outcome option" where
  "table_name enl b =
     bulk_then (meta_bytes enl 2 b) (\<lambda>v b.
     let tableLen = le_value v
     in bulk_then (CheckMessageHasEnoughBytesToReadColMetadata enl (tableLen * 2) b) (\<lambda>_ b.
        Some (Ok () (advance (tableLen * 2) b))))"

definition type_info ::
  "('d, 't) bulk_env \<Rightarrow> BulkLoadColMetaData \<Rightarrow> bulk \<Rightarrow> BulkLoadColMetaData outcome option" where
  "type_info env col b =
     (let t = columnTdsType col; enl = enlargeStringInfo env; sx = char_signed env
      in if t \<in> {TDS_TYPE_INTEGER, TDS_TYPE_BIT, TDS_TYPE_FLOAT, TDS_TYPE_MONEYN, TDS_TYPE_DATETIMEN,
                TDS_TYPE_UNIQUEIDENTIFIER, TDS_TYPE_XML}
         then bulk_then (meta_bytes enl 1 b) (\<lambda>v b. Some (Ok (col\<lparr>maxLen := char_value sx (v ! 0)\<rparr>) b))
         else if t \<in> {TDS_TYPE_DECIMALN, TDS_TYPE_NUMERICN}
         then bulk_then (meta_bytes enl 3 b) (\<lambda>v b.
              Some (Ok (col\<lparr>maxLen := char_value sx (v ! 0), precision := v ! 1, scale := v ! 2\<rparr>) b))
         else if t \<in> {TDS_TYPE_CHAR, TDS_TYPE_VARCHAR, TDS_TYPE_NCHAR, TDS_TYPE_NVARCHAR}
         then bulk_then (meta_bytes enl 7 b) (\<lambda>v b.
              Some (Ok (col\<lparr>maxLen := le_value (take 2 v), sortId := v ! 6,
                            encoding := TdsGetEncoding env (le_value (take 4 (drop 2 v)))\<rparr>) b))
         else if t \<in> {TDS_TYPE_TEXT, TDS_TYPE_NTEXT}
         then bulk_then (meta_bytes enl 4 b) (\<lambda>m b.
              bulk_then (meta_bytes enl 5 b) (\<lambda>v b.
              bulk_then (table_name enl b) (\<lambda>_ b.
              Some (Ok (col\<lparr>maxLen := le_value m, sortId := v ! 4,
                            encoding := TdsGetEncoding env (le_value (take 4 v))\<rparr>) b))))
         else if t = TDS_TYPE_IMAGE
         then bulk_then (meta_bytes enl 4 b) (\<lambda>m b.
              bulk_then (table_name enl b) (\<lambda>_ b. Some (Ok (col\<lparr>maxLen := le_value m\<rparr>) b)))
         else if t = TDS_TYPE_DATETIME2
         then bulk_then (meta_bytes enl 1 b) (\<lambda>v b. Some (Ok (col\<lparr>scale := v ! 0, maxLen := 8\<rparr>) b))
         else if t = TDS_TYPE_TIME
         then bulk_then (meta_bytes enl 1 b) (\<lambda>v b. Some (Ok (col\<lparr>scale := v ! 0, maxLen := 5\<rparr>) b))
         else if t = TDS_TYPE_DATETIMEOFFSET
         then bulk_then (meta_bytes enl 1 b) (\<lambda>v b. Some (Ok (col\<lparr>scale := v ! 0, maxLen := 10\<rparr>) b))
         else if t \<in> {TDS_TYPE_BINARY, TDS_TYPE_VARBINARY}
         then bulk_then (meta_bytes enl 2 b) (\<lambda>v b. Some (Ok (col\<lparr>maxLen := le_value v\<rparr>) b))
         else if t = TDS_TYPE_DATE then Some (Ok (col\<lparr>maxLen := 3\<rparr>) b)
         else if t = TDS_TYPE_SQLVARIANT
         then bulk_then (meta_bytes enl 4 b) (\<lambda>v b. Some (Ok (col\<lparr>maxLen := le_value v\<rparr>) b))
         else case variant_info t of
                Some (t', n) \<Rightarrow> Some (Ok (col\<lparr>columnTdsType := t', variantType := True, maxLen := n\<rparr>) b)
              | None \<Rightarrow> violation ''The incoming tabular data stream (TDS) is incorrect. Data type 0x%02X is unknown.'' b)"

definition column_metadata ::
  "('d, 't) bulk_env \<Rightarrow> bulk \<Rightarrow> BulkLoadColMetaData outcome option" where
  "column_metadata env b =
     bulk_then (meta_bytes (enlargeStringInfo env) 7 b) (\<lambda>v b.
     bulk_then (type_info env
       \<lparr>userType = to_int32 (int (le_value (take 4 v))), flags = le_value (take 2 (drop 4 v)),
        columnTdsType = v ! 6, scale = 0, precision = 0, sortId = 0, encoding = 0, maxLen = 0,
        colName = [], variantType = False\<rparr> b) (\<lambda>col b.
     bulk_then (meta_bytes (enlargeStringInfo env) 1 b) (\<lambda>v b.
     bulk_then (meta_bytes (enlargeStringInfo env) (unat (v ! 0) * 2) b) (\<lambda>name b.
     Some (Ok (col\<lparr>colName := name\<rparr>) b)))))"

primrec columns_metadata ::
  "('d, 't) bulk_env \<Rightarrow> nat \<Rightarrow> bulk \<Rightarrow> BulkLoadColMetaData list outcome option" where
  "columns_metadata env 0 b = Some (Ok [] b)"
| "columns_metadata env (Suc n) b =
     bulk_then (column_metadata env b) (\<lambda>col b.
     bulk_then (columns_metadata env n b) (\<lambda>cols b. Some (Ok (col # cols) b)))"

text \<open>The number of columns and the columns, and the token in front.\<close>

definition counted_metadata ::
  "('d, 't) bulk_env \<Rightarrow> bulk \<Rightarrow> BulkLoadColMetaData list outcome option" where
  "counted_metadata env b =
     bulk_then (CheckMessageHasEnoughBytesToReadColMetadata (enlargeStringInfo env) 2 b) (\<lambda>_ b.
     bulk_then (peek 2 b) (\<lambda>v b.
     let colCount = le_value v
     in if colCount = 0 \<or> MAX_BULK_LOAD_COLUMNS < colCount
        then stream_incorrect ''column count %u is invalid.'' b
        else columns_metadata env colCount (advance 2 b)))"

definition request_metadata ::
  "('d, 't) bulk_env \<Rightarrow> bulk \<Rightarrow> BulkLoadColMetaData list outcome option" where
  "request_metadata env b =
     bulk_then (CheckMessageHasEnoughBytesToReadColMetadata (enlargeStringInfo env) 1 b) (\<lambda>_ b.
     bulk_then (peek 1 b) (\<lambda>v b.
     if hd v \<noteq> TDS_TOKEN_COLMETADATA
     then stream_incorrect ''unexpected token encountered processing the request.'' b
     else counted_metadata env (advance 1 b)))"

text \<open>
  The message of \<open>GetTDSRequest\<close>, which is a local variable, is copied into the request after
  the metadata.
\<close>

definition GetBulkLoadRequest ::
  "('d, 't) bulk_env \<Rightarrow> bulk \<Rightarrow> BulkLoadColMetaData list outcome option" where
  "GetBulkLoadRequest env b =
     bulk_then (request_metadata env (TdsResetBcpOffset b)) (\<lambda>cols b.
     bulk_then (attempt (enlargeStringInfo env 0 (length (message b))) b) (\<lambda>_ b.
     Some (Ok cols (b\<lparr>on_stack := False\<rparr>))))"

section \<open>Values\<close>

text \<open>The conversion of a value, by the type of its column.\<close>

definition column_datum :: "('d, 't) bulk_env \<Rightarrow> BulkLoadColMetaData \<Rightarrow> byte list \<Rightarrow> 'd result" where
  "column_datum env col v =
     (let t = columnTdsType col
      in if t \<in> {TDS_TYPE_INTEGER, TDS_TYPE_BIT} then TdsTypeIntegerToDatum env v (maxLen col)
         else if t = TDS_TYPE_FLOAT then TdsTypeFloatToDatum env v (maxLen col)
         else if t = TDS_TYPE_TIME then TdsTypeTimeToDatum env v (scale col) (length v)
         else if t = TDS_TYPE_DATE then TdsTypeDateToDatum env v
         else if t = TDS_TYPE_DATETIME2 then TdsTypeDatetime2ToDatum env v (scale col) (length v)
         else if t = TDS_TYPE_DATETIMEN
         then (if maxLen col = 4 then TdsTypeSmallDatetimeToDatum env v else TdsTypeDatetimeToDatum env v)
         else if t = TDS_TYPE_DATETIMEOFFSET then TdsTypeDatetimeoffsetToDatum env v (scale col) (length v)
         else if t = TDS_TYPE_MONEYN
         then (if maxLen col = 4 then TdsTypeSmallMoneyToDatum env v else TdsTypeMoneyToDatum env v)
         else if t = TDS_TYPE_UNIQUEIDENTIFIER then TdsTypeUIDToDatum env v
         else if t \<in> {TDS_TYPE_NUMERICN, TDS_TYPE_DECIMALN} then TdsTypeNumericToDatum env v (scale col)
         else if t \<in> {TDS_TYPE_CHAR, TDS_TYPE_VARCHAR, TDS_TYPE_TEXT}
         then TdsTypeVarcharToDatum env v (encoding col) t
         else if t \<in> {TDS_TYPE_NCHAR, TDS_TYPE_NVARCHAR, TDS_TYPE_NTEXT} then TdsTypeNCharToDatum env v
         else if t \<in> {TDS_TYPE_BINARY, TDS_TYPE_VARBINARY, TDS_TYPE_IMAGE} then TdsTypeVarbinaryToDatum env v
         else if t = TDS_TYPE_XML then TdsTypeXMLToDatum env v
         else TdsTypeSqlVariantToDatum env v)"

text \<open>A value of \<open>len\<close> bytes: its length is checked, it is read, converted and passed over.\<close>

definition sized_value ::
  "('d, 't) bulk_env \<Rightarrow> BulkLoadColMetaData \<Rightarrow> nat \<Rightarrow> bulk \<Rightarrow> 'd option outcome option" where
  "sized_value env col len b =
     (if maxLen col < len
      then stream_incorrect ''Row %d, column %d: Data type 0x%02X has an invalid data length or metadata length.'' b
      else bulk_then (CheckMessageHasEnoughBytesToReadRows (enlargeStringInfo env) len b) (\<lambda>_ b.
           bulk_then (peek len b) (\<lambda>v b.
           bulk_then (attempt (column_datum env col v) b) (\<lambda>d b.
           Some (Ok (Some d) (count len b))))))"

text \<open>A value with its length, and 0 for NULL, in front: in one byte, or in four.\<close>

definition byte_sized_value ::
  "('d, 't) bulk_env \<Rightarrow> BulkLoadColMetaData \<Rightarrow> bulk \<Rightarrow> 'd option outcome option" where
  "byte_sized_value env col b =
     bulk_then (CheckMessageHasEnoughBytesToReadRows (enlargeStringInfo env) 1 b) (\<lambda>_ b.
     bulk_then (peek 1 b) (\<lambda>v b.
     let len = char_value (char_signed env) (hd v); b = count 1 b
     in if len = 0 then Some (Ok None b) else sized_value env col len b))"

definition long_sized_value ::
  "('d, 't) bulk_env \<Rightarrow> BulkLoadColMetaData \<Rightarrow> bulk \<Rightarrow> 'd option outcome option" where
  "long_sized_value env col b =
     bulk_then (peek 4 b) (\<lambda>v b.
     let len = le_value v; b = count 4 b
     in if len = 0 then Some (Ok None b) else sized_value env col len b)"

definition fixed_value ::
  "('d, 't) bulk_env \<Rightarrow> BulkLoadColMetaData \<Rightarrow> bulk \<Rightarrow> 'd option outcome option" where
  "fixed_value env col b =
     (if variantType col then sized_value env col (maxLen col) b else byte_sized_value env col b)"

definition numeric_value ::
  "('d, 't) bulk_env \<Rightarrow> BulkLoadColMetaData \<Rightarrow> bulk \<Rightarrow> 'd option outcome option" where
  "numeric_value env col b =
     (if precision col < scale col
      then stream_incorrect ''Row %d, column %d: The supplied value is not a valid instance of data type Numeric/Decimal. Check the source data for invalid values. An example of an invalid value is data of numeric type with scale greater than precision.'' b
      else byte_sized_value env col b)"

subsection \<open>Values in chunks\<close>

text \<open>
  The loop over the chunks: it returns whether the chunks are well-formed, their offsets and
  lengths, and their total length.
\<close>

partial_function (option) plp_loop ::
  "enlarge \<Rightarrow> (nat \<times> nat) list \<Rightarrow> nat \<Rightarrow> bulk \<Rightarrow> (bool \<times> (nat \<times> nat) list \<times> nat) outcome option" where
  "plp_loop enl plp lenCheck b =
     bulk_then (CheckPlpMessageHasEnoughBytesToRead enl 4 b) (\<lambda>_ b.
     if length (message b) < bcpOffset b + 4 then Some (Ok (False, plp, lenCheck) b)
     else bulk_then (peek 4 b) (\<lambda>v b.
          let tempLen = le_value v; b = count 4 b
          in if tempLen = PLP_TERMINATOR then Some (Ok (True, plp, lenCheck) b)
             else let plp = plp @ [(bcpOffset b, tempLen)]
                  in bulk_then (CheckPlpMessageHasEnoughBytesToRead enl tempLen b) (\<lambda>_ b.
                     if length (message b) < bcpOffset b + tempLen then Some (Ok (False, plp, lenCheck) b)
                     else plp_loop enl plp (size_t_add lenCheck tempLen) (count tempLen b))))"

definition ReadBcpPlp :: "enlarge \<Rightarrow> bulk \<Rightarrow> (bool \<times> (nat \<times> nat) list option) outcome option" where
  "ReadBcpPlp enl b =
     bulk_then (CheckPlpMessageHasEnoughBytesToRead enl 8 b) (\<lambda>_ b.
     bulk_then (peek 8 b) (\<lambda>v b.
     let plpTok = le_value v; b = count 8 b
     in if plpTok = PLP_NULL then Some (Ok (True, None) b)
        else bulk_then (plp_loop enl [] 0 b) (\<lambda>(ok, plp, lenCheck) b.
             Some (Ok (ok \<and> (plpTok = PLP_UNKNOWN_LEN \<or> lenCheck = plpTok), Some plp) b))))"

primrec append_chunks :: "enlarge \<Rightarrow> byte list \<Rightarrow> byte list \<Rightarrow> (nat \<times> nat) list \<Rightarrow> byte list result" where
  "append_chunks enl msg pbuf [] = Inr pbuf"
| "append_chunks enl msg pbuf (t # ts) =
     and_then (enl (length pbuf) (snd t)) (\<lambda>_.
     and_then (read_at msg (fst t) (snd t)) (\<lambda>d. append_chunks enl msg (pbuf @ d) ts))"

definition TdsGetPlpStringInfoBufferFromToken :: "enlarge \<Rightarrow> byte list \<Rightarrow> (nat \<times> nat) list \<Rightarrow> byte list result" where
  "TdsGetPlpStringInfoBufferFromToken enl msg plp =
     (if plp = [] then Inr []
      else and_then (enl 0 (sum_list (map snd plp))) (\<lambda>_. append_chunks enl msg [] plp))"

definition plp_value ::
  "('d, 't) bulk_env \<Rightarrow> BulkLoadColMetaData \<Rightarrow> bulk \<Rightarrow> 'd option outcome option" where
  "plp_value env col b =
     bulk_then (ReadBcpPlp (enlargeStringInfo env) b) (\<lambda>(ok, token) b.
     if \<not> ok
     then stream_incorrect ''Row %d, column %d: The chunking format is incorrect for a large object parameter of data type 0x%02X.'' b
     else case token of
            None \<Rightarrow> Some (Ok None b)
          | Some plp \<Rightarrow>
              bulk_then (attempt (TdsGetPlpStringInfoBufferFromToken (enlargeStringInfo env) (message b) plp) b) (\<lambda>v b.
              bulk_then (attempt (column_datum env col v) b) (\<lambda>d b. Some (Ok (Some d) b))))"

text \<open>Strings: chunks if the column has no maximal length, otherwise a length in two bytes.\<close>

definition string_value ::
  "('d, 't) bulk_env \<Rightarrow> BulkLoadColMetaData \<Rightarrow> bulk \<Rightarrow> 'd option outcome option" where
  "string_value env col b =
     (if maxLen col \<noteq> 65535
      then bulk_then (CheckMessageHasEnoughBytesToReadRows (enlargeStringInfo env) 2 b) (\<lambda>_ b.
           bulk_then (peek 2 b) (\<lambda>v b.
           let len = le_value v; b = count 2 b
           in if len \<noteq> 65535
              then if maxLen col < len
                   then stream_incorrect ''Row %d, column %d: Data type 0x%02X has an invalid data length or metadata length.'' b
                   else bulk_then (CheckMessageHasEnoughBytesToReadRows (enlargeStringInfo env) len b) (\<lambda>_ b.
                        bulk_then (peek len b) (\<lambda>v b.
                        bulk_then (attempt (column_datum env col v) (count len b)) (\<lambda>d b.
                        Some (Ok (Some d) b))))
              else Some (Ok None b)))
      else plp_value env col b)"

text \<open>Large objects: a text pointer, which is NULL or skipped with a timestamp, and the value.\<close>

definition text_value ::
  "('d, 't) bulk_env \<Rightarrow> BulkLoadColMetaData \<Rightarrow> bulk \<Rightarrow> 'd option outcome option" where
  "text_value env col b =
     bulk_then (CheckMessageHasEnoughBytesToReadRows (enlargeStringInfo env) 1 b) (\<lambda>_ b.
     bulk_then (peek 1 b) (\<lambda>v b.
     let dataTextPtrLen = unat (hd v); b = count 1 b
     in if dataTextPtrLen = 0 then Some (Ok None b)
        else bulk_then (CheckMessageHasEnoughBytesToReadRows (enlargeStringInfo env) (dataTextPtrLen + 8 + 4) b) (\<lambda>_ b.
             long_sized_value env col (count 8 (count dataTextPtrLen b)))))"

definition variant_value ::
  "('d, 't) bulk_env \<Rightarrow> BulkLoadColMetaData \<Rightarrow> bulk \<Rightarrow> 'd option outcome option" where
  "variant_value env col b =
     bulk_then (CheckMessageHasEnoughBytesToReadRows (enlargeStringInfo env) 4 b) (\<lambda>_ b.
     long_sized_value env col b)"

definition column_value ::
  "('d, 't) bulk_env \<Rightarrow> BulkLoadColMetaData \<Rightarrow> bulk \<Rightarrow> 'd option outcome option" where
  "column_value env col b =
     (let t = columnTdsType col
      in if t \<in> {TDS_TYPE_INTEGER, TDS_TYPE_BIT, TDS_TYPE_FLOAT, TDS_TYPE_TIME, TDS_TYPE_DATE,
                TDS_TYPE_DATETIME2, TDS_TYPE_DATETIMEN, TDS_TYPE_MONEYN, TDS_TYPE_UNIQUEIDENTIFIER,
                TDS_TYPE_DATETIMEOFFSET} then fixed_value env col b
         else if t \<in> {TDS_TYPE_NUMERICN, TDS_TYPE_DECIMALN} then numeric_value env col b
         else if t \<in> {TDS_TYPE_CHAR, TDS_TYPE_VARCHAR, TDS_TYPE_NCHAR, TDS_TYPE_NVARCHAR,
                     TDS_TYPE_BINARY, TDS_TYPE_VARBINARY} then string_value env col b
         else if t \<in> {TDS_TYPE_TEXT, TDS_TYPE_NTEXT, TDS_TYPE_IMAGE} then text_value env col b
         else if t = TDS_TYPE_XML then plp_value env col b
         else if t = TDS_TYPE_SQLVARIANT then variant_value env col b
         else Some (Ok (Some (Datum_zero env)) b))"

section \<open>Rows\<close>

primrec column_values ::
  "('d, 't) bulk_env \<Rightarrow> BulkLoadColMetaData list \<Rightarrow> bulk \<Rightarrow> 'd option list outcome option" where
  "column_values env [] b = Some (Ok [] b)"
| "column_values env (col # cols) b =
     bulk_then (column_value env col b) (\<lambda>v b.
     bulk_then (column_values env cols b) (\<lambda>vs b. Some (Ok (v # vs) b)))"

definition batch_open :: "('d, 't) bulk_env \<Rightarrow> bulk \<Rightarrow> bool" where
  "batch_open env b \<longleftrightarrow>
     currentBatchSize b < to_int32 (insert_bulk_kilobytes_per_batch env * 1024) \<and>
     rowCount b < insert_bulk_rows_per_batch env"

partial_function (option) row_loop ::
  "('d, 't) bulk_env \<Rightarrow> BulkLoadColMetaData list \<Rightarrow> 'd option list list \<Rightarrow> bulk \<Rightarrow>
     'd option list list outcome option" where
  "row_loop env cols rows b =
     bulk_then (peek 1 b) (\<lambda>v b.
     if hd v = TDS_TOKEN_ROW \<and> batch_open env b
     then bulk_then (column_values env cols (count 1 (b\<lparr>rowCount := to_int32 (rowCount b + 1)\<rparr>))) (\<lambda>row b.
          bulk_then (CheckMessageHasEnoughBytesToReadRows (enlargeStringInfo env) 1 b) (\<lambda>_ b.
          row_loop env cols (rows @ [row]) b))
     else Some (Ok rows b))"

text \<open>After the last row of a batch that is not full the message has to end.\<close>

definition check_done :: "('d, 't) bulk_env \<Rightarrow> bulk \<Rightarrow> unit outcome option" where
  "check_done env b =
     (if batch_open env b
      then bulk_then (peek 1 b) (\<lambda>v b.
           if hd v = TDS_TOKEN_DONE
           then let left = size_t_sub (length (message b)) (bcpOffset b)
                in if left < 13 \<and> \<not> TdsGetRecvPacketEomStatus (comm b)
                   then CheckMessageHasEnoughBytesToReadRows (enlargeStringInfo env) (size_t_add left 1) b
                   else Some (Ok () b)
           else stream_incorrect ''Row %d, unexpected token encountered processing the request. %d'' b)
      else Some (Ok () b))"

definition SetBulkLoadRowData ::
  "('d, 't) bulk_env \<Rightarrow> BulkLoadColMetaData list \<Rightarrow> bulk \<Rightarrow> 'd option list list outcome option" where
  "SetBulkLoadRowData env cols b =
     bulk_then (CheckMessageHasEnoughBytesToReadRows (enlargeStringInfo env) 1
                  (b\<lparr>rowCount := 0, currentBatchSize := 0\<rparr>)) (\<lambda>_ b.
     bulk_then (row_loop env cols [] b) (\<lambda>rows b.
     bulk_then (CheckMessageHasEnoughBytesToReadRows (enlargeStringInfo env) 1 b) (\<lambda>_ b.
     bulk_then (check_done env b) (\<lambda>_ b. Some (Ok rows b)))))"

section \<open>The request\<close>

text \<open>An error is raised again after the rest of the bulk load has been read and dropped.\<close>

definition CleanupBCPDuringError :: "pg_error \<Rightarrow> bulk \<Rightarrow> 'a outcome option" where
  "CleanupBCPDuringError e b =
     (let b = TdsResetBcpOffset b
      in if \<not> TdsGetRecvPacketEomStatus (comm b)
         then Option.bind (TdsDiscardAllPendingBcpRequest (comm b)) (\<lambda>res.
              case res of Inl e' \<Rightarrow> Some (Lost e') | Inr (r, c) \<Rightarrow> Some (Raised e (b\<lparr>comm := c\<rparr>)))
         else Some (Raised e b))"

abbreviation cleaning_up :: "'a outcome option \<Rightarrow> 'a outcome option" where
  "cleaning_up m \<equiv> Option.bind m (\<lambda>r. case r of
     Ok x b \<Rightarrow> Some (Ok x b) | Raised e b \<Rightarrow> CleanupBCPDuringError e b | Lost e \<Rightarrow> Some (Lost e))"

partial_function (option) batch_loop ::
  "('d, 't) bulk_env \<Rightarrow> BulkLoadColMetaData list \<Rightarrow> nat \<Rightarrow> 't \<Rightarrow> bulk \<Rightarrow> (nat \<times> 't) outcome option" where
  "batch_loop env cols retValue t b =
     bulk_then (cleaning_up (SetBulkLoadRowData env cols b)) (\<lambda>rows b.
     bulk_then (cleaning_up (attempt (bulk_load_callback env
         (if rowCount b \<noteq> 0 then length cols else 0) (rowCount b) (concat rows) t) b)) (\<lambda>(n, t) b.
     if rows \<noteq> [] then batch_loop env cols (size_t_add retValue n) t b
     else Some (Ok (size_t_add retValue n, t) (TdsResetBcpOffset b))))"

definition ProcessBCPRequest ::
  "('d, 't) bulk_env \<Rightarrow> BulkLoadColMetaData list \<Rightarrow> 't \<Rightarrow> bulk \<Rightarrow> (nat \<times> 't) outcome option" where
  "ProcessBCPRequest env cols t b = batch_loop env cols 0 t b"

end
