(* ===== verification/Tds_Bulk_Refine.thy ===== *)
theory Tds_Bulk_Refine
  imports Tds_Bulk
begin

text \<open>
  What a bulk load means: a parser of the joined bytes of its packets for the metadata and
  for the rows, and the proof that the reader delivers the rows of that parser, however the
  bytes are cut into packets and the rows into batches, and that an error in the rows leaves
  the connection at the next request.
\<close>

section \<open>The bytes of a bulk load\<close>

text \<open>
  The packets of the bulk load that the connection still holds, followed by the \<open>tail\<close> of
  the stream, and the unread bytes: those of the message and those of the packets. Packets
  before the last one have room for a DONE token of 13 bytes (a full packet has at least
  504 bytes), and there is \<open>room\<close> for all bytes in one string.
\<close>

definition bulk_packets :: "byte list list \<Rightarrow> byte list" where
  "bulk_packets ps = concat (map (packet TDS_BULK_LOAD 0) (butlast ps)) @
     packet TDS_BULK_LOAD TDS_PACKET_HEADER_STATUS_EOM (last ps)"

definition pending_packets :: "byte list list \<Rightarrow> byte list \<Rightarrow> tds_comm \<Rightarrow> bool" where
  "pending_packets ps tail c \<longleftrightarrow> at_boundary c \<and> quiet c \<and> TdsGetRecvPacketEomStatus c = (ps = []) \<and>
     (\<forall>p \<in> set ps. p \<noteq> [] \<and> length p + 8 \<le> TdsBufferSize c) \<and>
     (\<forall>p \<in> set (butlast ps). 13 \<le> length p) \<and>
     stream c = (if ps = [] then tail else bulk_packets ps @ tail)"

definition room :: "enlarge \<Rightarrow> nat \<Rightarrow> bool" where
  "room enl k \<longleftrightarrow> k \<le> MaxAllocSize \<and> grants enl k"

definition rest :: "bulk \<Rightarrow> byte list" where
  "rest b = drop (bcpOffset b) (message b)"

definition unread :: "byte list list \<Rightarrow> bulk \<Rightarrow> byte list" where
  "unread ps b = rest b @ concat ps"

definition bulk_at :: "enlarge \<Rightarrow> byte list list \<Rightarrow> byte list \<Rightarrow> bulk \<Rightarrow> bool" where
  "bulk_at enl ps tail b \<longleftrightarrow> pending_packets ps tail (comm b) \<and> bcpOffset b \<le> length (message b) \<and>
     room enl (length (message b) + length (concat ps) + TdsBufferSize (comm b))"

definition same_batch :: "bulk \<Rightarrow> bulk \<Rightarrow> bool" where
  "same_batch b b' \<longleftrightarrow> on_stack b' = on_stack b \<and> rowCount b' = rowCount b \<and>
     currentBatchSize b' = currentBatchSize b"

lemma room_mono: "room enl k \<Longrightarrow> k' \<le> k \<Longrightarrow> room enl k'"
  by (auto simp: room_def intro: grants_mono)

lemma same_batch_trans: "same_batch b b1 \<Longrightarrow> same_batch b1 b2 \<Longrightarrow> same_batch b b2"
  by (simp add: same_batch_def)

lemma length_rest: "length (rest b) = length (message b) - bcpOffset b"
  by (simp add: rest_def)

lemma bulk_at_rest:
  assumes "bulk_at enl ps tail b"
  shows "size_t_sub (length (message b)) (bcpOffset b) = length (rest b)"
    and "bcpOffset b + length (rest b) = length (message b)"
    and "length (message b) \<le> MaxAllocSize"
    and "length (unread ps b) \<le> MaxAllocSize"
proof -
  have "length (message b) + length (concat ps) \<le> MaxAllocSize" "bcpOffset b \<le> length (message b)"
    using assms by (simp_all add: bulk_at_def room_def)
  then show "size_t_sub (length (message b)) (bcpOffset b) = length (rest b)"
    "bcpOffset b + length (rest b) = length (message b)"
    "length (message b) \<le> MaxAllocSize" "length (unread ps b) \<le> MaxAllocSize"
    by (simp_all add: length_rest unread_def)
qed

lemma first_packet:
  assumes "pending_packets (p # ps) tail c"
  shows "parse_packet (TdsBufferSize c) (stream c) =
    Packet TDS_BULK_LOAD (if ps = [] then TDS_PACKET_HEADER_STATUS_EOM else 0) p
      (if ps = [] then tail else bulk_packets ps @ tail)"
proof -
  have "stream c = packet TDS_BULK_LOAD (if ps = [] then TDS_PACKET_HEADER_STATUS_EOM else 0) p @
      (if ps = [] then tail else bulk_packets ps @ tail)"
    using assms by (simp add: pending_packets_def bulk_packets_def)
  moreover have "TdsBufferSize c \<le> 65535" "length p + 8 \<le> TdsBufferSize c"
    using assms by (simp_all add: pending_packets_def at_boundary_def recv_ok_def)
  ultimately show ?thesis by (simp add: parse_packet_packet)
qed

lemma next_packet:
  assumes pend: "pending_packets (p # ps) tail c" and room: "grants enl (length m + TdsBufferSize c)"
  shows "\<exists>c'. TdsReadNextPendingBcpRequest enl m c = ret (if ps = [] then 1 else 0) (m @ p, c') \<and>
    pending_packets ps tail c' \<and> TdsBufferSize c' = TdsBufferSize c"
proof -
  define st where "st = (if ps = [] then TDS_PACKET_HEADER_STATUS_EOM else 0)"
  define more where "more = (if ps = [] then tail else bulk_packets ps @ tail)"
  have c: "at_boundary c" "quiet c" "p \<noteq> []" "length p + 8 \<le> TdsBufferSize c"
    "\<forall>q \<in> set ps. q \<noteq> [] \<and> length q + 8 \<le> TdsBufferSize c" "\<forall>q \<in> set (butlast ps). 13 \<le> length q"
    using pend by (auto simp: pending_packets_def split: if_splits)
  have "parse_packet (TdsBufferSize c) (stream c) = Packet TDS_BULK_LOAD st p more"
    using first_packet [OF pend] by (simp add: st_def more_def)
  from pending_bcp_ok [OF c(1,2) room this] obtain c' where
    read: "TdsReadNextPendingBcpRequest enl m c = ret (if is_eom st then 1 else 0) (m @ p, c')"
    and c': "recv_ok c'" "TdsLeftInPacket c' = 0" "TdsDoProcessHeader c' = (p \<noteq> [])" "stream c' = more"
      "TdsRecvPacketStatus c' = st" "kept c c'"
    by auto
  have eom: "is_eom st = (ps = [])" by (simp add: st_def)
  have B: "TdsBufferSize c' = TdsBufferSize c"
    using c'(6) sender_eqD(1) [of c' c] by (simp add: kept_def)
  have "pending_packets ps tail c'"
    unfolding pending_packets_def
    using c(3,5,6) c'(1-5) B eom quiet_kept [OF c(2) c'(6)]
    by (simp add: at_boundary_def TdsGetRecvPacketEomStatus_def more_def)
  with read B eom show ?thesis by simp
qed

text \<open>One round of the loop takes the next packet.\<close>

lemma fetch_one:
  assumes at: "bulk_at enl (p # ps) tail b" and short: "length (message b) < size_t_add want (bcpOffset b)"
  shows "\<exists>c1. fetch_packets enl rel want b = fetch_packets enl rel want (b\<lparr>message := message b @ p, comm := c1\<rparr>) \<and>
    bulk_at enl ps tail (b\<lparr>message := message b @ p, comm := c1\<rparr>) \<and> TdsBufferSize c1 = TdsBufferSize (comm b)"
proof -
  have "grants enl (length (message b) + TdsBufferSize (comm b))"
    using at by (auto simp: bulk_at_def room_def intro: grants_mono)
  with next_packet [of p ps tail "comm b" enl "message b"] at
  obtain c1 where c1: "TdsReadNextPendingBcpRequest enl (message b) (comm b) =
      ret (if ps = [] then 1 else 0) (message b @ p, c1)"
    "pending_packets ps tail c1" "TdsBufferSize c1 = TdsBufferSize (comm b)"
    by (auto simp: bulk_at_def)
  have "bulk_at enl ps tail (b\<lparr>message := message b @ p, comm := c1\<rparr>)"
    using at c1(2,3) by (simp add: bulk_at_def algebra_simps)
  moreover have "fetch_packets enl rel want b = fetch_packets enl rel want (b\<lparr>message := message b @ p, comm := c1\<rparr>)"
    using short c1(1) by (subst fetch_packets.simps) simp
  ultimately show ?thesis using c1(3) by blast
qed

text \<open>Fetching as many packets as needed, when the bulk load has enough bytes.\<close>

lemma fetch_packets_ok:
  assumes "bulk_at enl ps tail b" and "want \<le> length (unread ps b)"
  shows "\<exists>qs ps' c'. ps = qs @ ps' \<and>
    fetch_packets enl rel want b = Some (Ok () (b\<lparr>message := message b @ concat qs, comm := c'\<rparr>)) \<and>
    bulk_at enl ps' tail (b\<lparr>message := message b @ concat qs, comm := c'\<rparr>) \<and>
    want + bcpOffset b \<le> length (message b @ concat qs)"
  using assms
proof (induction ps arbitrary: b)
  case Nil
  note b = bulk_at_rest [OF Nil.prems(1)]
  have "want + bcpOffset b \<le> length (message b)"
    using Nil.prems(2) b(2) by (simp add: unread_def)
  moreover from this have "size_t_add want (bcpOffset b) = want + bcpOffset b"
    using b(3) by (intro size_t_small) simp
  ultimately have "fetch_packets enl rel want b = Some (Ok () b) \<and> want + bcpOffset b \<le> length (message b)"
    by (subst fetch_packets.simps) simp
  with Nil.prems(1) show ?case
    by (intro exI [of _ "[]"] exI [of _ "[]"] exI [of _ "comm b"]) simp
next
  case (Cons p ps)
  note b = bulk_at_rest [OF Cons.prems(1)]
  have "want + bcpOffset b \<le> length (message b) + length (concat (p # ps))"
    using Cons.prems(2) b(2) by (simp add: unread_def)
  moreover have "\<dots> \<le> MaxAllocSize"
    using Cons.prems(1) by (simp add: bulk_at_def room_def)
  ultimately have add: "size_t_add want (bcpOffset b) = want + bcpOffset b"
    by (intro size_t_small) simp
  show ?case
  proof (cases "want + bcpOffset b \<le> length (message b)")
    case True
    then have "fetch_packets enl rel want b = Some (Ok () b)"
      using add by (subst fetch_packets.simps) simp
    with True Cons.prems(1) show ?thesis
      by (intro exI [of _ "[]"] exI [of _ "p # ps"] exI [of _ "comm b"]) simp
  next
    case False
    with add have "length (message b) < size_t_add want (bcpOffset b)" by simp
    from fetch_one [OF Cons.prems(1) this, of rel] obtain c1 where
      step: "fetch_packets enl rel want b = fetch_packets enl rel want (b\<lparr>message := message b @ p, comm := c1\<rparr>)"
      and at: "bulk_at enl ps tail (b\<lparr>message := message b @ p, comm := c1\<rparr>)"
      by blast
    let ?b = "b\<lparr>message := message b @ p, comm := c1\<rparr>"
    have "unread ps ?b = unread (p # ps) b"
      using Cons.prems(1) by (simp add: unread_def rest_def bulk_at_def)
    with Cons.prems(2) have "want \<le> length (unread ps ?b)" by simp
    from Cons.IH [OF at this] obtain qs ps' c' where IH: "ps = qs @ ps'"
      "fetch_packets enl rel want ?b = Some (Ok () (?b\<lparr>message := message ?b @ concat qs, comm := c'\<rparr>))"
      "bulk_at enl ps' tail (?b\<lparr>message := message ?b @ concat qs, comm := c'\<rparr>)"
      "want + bcpOffset ?b \<le> length (message ?b @ concat qs)"
      by blast
    with step show ?thesis
      by (intro exI [of _ "p # qs"] exI [of _ ps'] exI [of _ c']) simp
  qed
qed

text \<open>When it has not, all packets are taken and the loop goes on.\<close>

lemma fetch_all:
  assumes "bulk_at enl ps tail b" and "length (unread ps b) < want" and "want \<le> MaxAllocSize"
  shows "\<exists>c'. fetch_packets enl rel want b =
      fetch_packets enl rel want (b\<lparr>message := message b @ concat ps, comm := c'\<rparr>) \<and>
    pending_packets [] tail c' \<and> TdsBufferSize c' = TdsBufferSize (comm b)"
  using assms
proof (induction ps arbitrary: b)
  case Nil
  then show ?case by (intro exI [of _ "comm b"]) (simp add: bulk_at_def)
next
  case (Cons p ps)
  note b = bulk_at_rest [OF Cons.prems(1)]
  have "size_t_add want (bcpOffset b) = want + bcpOffset b"
    using Cons.prems(3) b(2,3) by (simp add: size_t_add_def MaxAllocSize_def)
  with Cons.prems(2) b(2) have "length (message b) < size_t_add want (bcpOffset b)"
    by (simp add: unread_def)
  from fetch_one [OF Cons.prems(1) this, of rel] obtain c1 where
    step: "fetch_packets enl rel want b = fetch_packets enl rel want (b\<lparr>message := message b @ p, comm := c1\<rparr>)"
      "bulk_at enl ps tail (b\<lparr>message := message b @ p, comm := c1\<rparr>)" "TdsBufferSize c1 = TdsBufferSize (comm b)"
    by blast
  have "unread ps (b\<lparr>message := message b @ p, comm := c1\<rparr>) = unread (p # ps) b"
    using Cons.prems(1) by (simp add: unread_def rest_def bulk_at_def)
  with Cons.IH [OF step(2)] Cons.prems(2,3) obtain c' where
    "fetch_packets enl rel want (b\<lparr>message := message b @ p, comm := c1\<rparr>) =
       fetch_packets enl rel want (b\<lparr>message := (message b @ p) @ concat ps, comm := c'\<rparr>)"
    "pending_packets [] tail c'" "TdsBufferSize c' = TdsBufferSize c1"
    by auto
  with step show ?case by (intro exI [of _ c']) simp
qed

text \<open>The bytes \<open>bs\<close> of the bulk load are still to be read, wherever they are.\<close>

definition holds :: "enlarge \<Rightarrow> byte list \<Rightarrow> byte list \<Rightarrow> bulk \<Rightarrow> bool" where
  "holds enl tail bs b \<longleftrightarrow> (\<exists>ps. bulk_at enl ps tail b \<and> unread ps b = bs)"

lemma holds_rest:
  assumes "holds enl tail bs b"
  shows "size_t_sub (length (message b)) (bcpOffset b) = length (rest b)"
    and "bcpOffset b + length (rest b) = length (message b)"
    and "length (message b) \<le> MaxAllocSize"
    and "length bs \<le> MaxAllocSize"
    and "rest b = take (length (rest b)) bs"
  using assms bulk_at_rest unfolding holds_def by (auto simp: unread_def)

lemma peek_holds:
  assumes "holds enl tail bs b" and "n \<le> length (rest b)"
  shows "peek n b = Some (Ok (take n bs) b)"
proof -
  note b = holds_rest [OF assms(1)]
  have "take n bs = take n (rest b)"
    using assms(2) by (subst b(5)) simp
  with b(2) assms(2) show ?thesis
    by (simp add: peek_def attempt_def read_at_def rest_def)
qed

lemma rest_advance [simp]:
  "rest (count n b) = drop n (rest b)" "rest (advance n b) = drop n (rest b)"
  by (simp_all add: rest_def count_def advance_def add.commute)

lemma holds_advance:
  assumes "holds enl tail bs b" and "n \<le> length (rest b)"
  shows "holds enl tail (drop n bs) (count n b)" and "holds enl tail (drop n bs) (advance n b)"
  using assms unfolding holds_def
  by (auto simp: bulk_at_def unread_def rest_def count_def advance_def add.commute)

lemma same_advance [simp]:
  "on_stack (count n b) = on_stack b" "rowCount (count n b) = rowCount b"
  "on_stack (advance n b) = on_stack b" "rowCount (advance n b) = rowCount b"
  by (simp_all add: count_def advance_def)

subsection \<open>The contract of fetching\<close>

text \<open>
  What the parser relies on: if the bulk load has \<open>n\<close> bytes, they are in the message
  afterwards, and nothing is lost. Some functions must not see a message on the stack, and
  some only append to it.
\<close>

locale fetching =
  fixes enl :: enlarge and stack_allowed :: bool and fetch :: "nat \<Rightarrow> bulk \<Rightarrow> unit outcome option"
  assumes fetch_ok: "bulk_at enl ps tail b \<Longrightarrow> (on_stack b \<longrightarrow> stack_allowed) \<Longrightarrow>
    n \<le> length (unread ps b) \<Longrightarrow> length (rest b) < n \<Longrightarrow>
    \<exists>qs ps' b'. ps = qs @ ps' \<and> fetch n b = Some (Ok () b') \<and> bulk_at enl ps' tail b' \<and>
      rest b' = rest b @ concat qs \<and> n \<le> length (rest b') \<and> same_batch b b'"
begin

lemma enough:
  assumes "holds enl tail bs b" and "on_stack b \<longrightarrow> stack_allowed" and "n \<le> length bs"
  obtains b' where "has_enough fetch n b = Some (Ok () b')" "holds enl tail bs b'"
    "n \<le> length (rest b')" "same_batch b b'"
proof (cases "length (rest b) < n")
  case True
  obtain ps where ps: "bulk_at enl ps tail b" "unread ps b = bs"
    using assms(1) by (auto simp: holds_def)
  from fetch_ok [OF ps(1) assms(2) _ True] ps(2) assms(3)
  obtain qs ps' b' where b': "ps = qs @ ps'" "fetch n b = Some (Ok () b')" "bulk_at enl ps' tail b'"
    "rest b' = rest b @ concat qs" "n \<le> length (rest b')" "same_batch b b'"
    by blast
  have "unread ps' b' = bs" using ps(2) b'(1,4) by (simp add: unread_def)
  with b' True holds_rest(1) [OF assms(1)] show ?thesis
    by (intro that [of b']) (auto simp: has_enough_def holds_def)
next
  case False
  with assms(1) holds_rest(1) [OF assms(1)] show ?thesis
    by (intro that [of b]) (simp_all add: has_enough_def same_batch_def)
qed

end

locale appending = fetching +
  assumes fetch_appends: "bulk_at enl ps tail b \<Longrightarrow> n \<le> length (unread ps b) \<Longrightarrow>
    fetch n b = Some (Ok () b') \<Longrightarrow> bcpOffset b' = bcpOffset b \<and> (\<exists>more. message b' = message b @ more)"
begin

lemma enough_appends:
  assumes "holds enl tail bs b" and "n \<le> length bs" and "has_enough fetch n b = Some (Ok () b')"
  shows "bcpOffset b' = bcpOffset b" and "\<exists>more. message b' = message b @ more"
  using assms fetch_appends unfolding holds_def has_enough_def
  by (fastforce split: if_splits)+

end

lemma int_length_param: "n \<le> MaxAllocSize \<Longrightarrow> size_t_of_int (to_int32 (int n)) = n"
  by (simp add: size_t_of_int_def MaxAllocSize_def in_s_def)

lemma drop_parsed_ok:
  assumes "bulk_at enl ps tail b" and "\<not> on_stack b"
  shows "drop_parsed enl b = Some (Ok () (b\<lparr>message := rest b, bcpOffset := 0\<rparr>))"
    and "bulk_at enl ps tail (b\<lparr>message := rest b, bcpOffset := 0\<rparr>)"
proof -
  note b = bulk_at_rest [OF assms(1)]
  have len: "length (rest b) \<le> length (message b)" by (simp add: length_rest)
  have room: "room enl (length (message b) + length (concat ps) + TdsBufferSize (comm b))"
    using assms(1) by (simp add: bulk_at_def)
  then have "enl 0 (length (rest b)) = Inr ()"
    using len by (auto simp: room_def intro: grantsD)
  moreover have "read_at (message b) (bcpOffset b) (length (rest b)) = Inr (rest b)"
    using b(2) by (simp add: read_at_def rest_def)
  ultimately show "drop_parsed enl b = Some (Ok () (b\<lparr>message := rest b, bcpOffset := 0\<rparr>))"
    using assms(2) b(1) by (simp add: drop_parsed_def attempt_def)
  show "bulk_at enl ps tail (b\<lparr>message := rest b, bcpOffset := 0\<rparr>)"
    using assms(1) len room_mono [OF room] by (simp add: bulk_at_def)
qed

lemma fetch_rest:
  assumes "bulk_at enl ps tail b" and "n \<le> length (unread ps b)" and "length (rest b) < n"
  shows "\<not> TdsGetRecvPacketEomStatus (comm b)" and "size_t_of_int (to_int32 (int n)) = n"
proof -
  have "ps \<noteq> []" using assms(2,3) by (auto simp: unread_def)
  then show "\<not> TdsGetRecvPacketEomStatus (comm b)"
    using assms(1) by (simp add: bulk_at_def pending_packets_def)
  show "size_t_of_int (to_int32 (int n)) = n"
    using assms(2) bulk_at_rest(4) [OF assms(1)] by (intro int_length_param) simp
qed

text \<open>The loop, as the contract has it.\<close>

lemma fetch_packets_rest:
  assumes "bulk_at enl ps tail b" and "n \<le> length (unread ps b)"
  obtains qs ps' b' where "ps = qs @ ps'" "fetch_packets enl rel n b = Some (Ok () b')" "bulk_at enl ps' tail b'"
    "rest b' = rest b @ concat qs" "n \<le> length (rest b')" "same_batch b b'"
    "bcpOffset b' = bcpOffset b" "message b' = message b @ concat qs"
proof -
  from fetch_packets_ok [OF assms, of rel] obtain qs ps' c' where
    f: "ps = qs @ ps'" "fetch_packets enl rel n b = Some (Ok () (b\<lparr>message := message b @ concat qs, comm := c'\<rparr>))"
      "bulk_at enl ps' tail (b\<lparr>message := message b @ concat qs, comm := c'\<rparr>)"
      "n + bcpOffset b \<le> length (message b @ concat qs)"
    by blast
  have "bcpOffset b \<le> length (message b)" using assms(1) by (simp add: bulk_at_def)
  with f show ?thesis
    by (intro that [OF f(1-3)]) (simp_all add: rest_def same_batch_def)
qed

interpretation meta_fetch: appending enl True "FetchMoreBcpData enl False" for enl
proof unfold_locales
  fix ps tail b n
  assume at: "bulk_at enl ps tail b" and n: "n \<le> length (unread ps b)"
  show "bcpOffset b' = bcpOffset b \<and> (\<exists>more. message b' = message b @ more)"
    if "FetchMoreBcpData enl False n b = Some (Ok () b')" for b'
    using that fetch_packets_rest [OF at n, of True] int_length_param [of n] n bulk_at_rest(4) [OF at]
    by (fastforce simp: FetchMoreBcpData_def violation_def split: if_splits)
  assume "length (rest b) < n"
  from fetch_rest [OF at n this]
  have "FetchMoreBcpData enl False n b = fetch_packets enl True n b"
    by (simp add: FetchMoreBcpData_def)
  then show "\<exists>qs ps' b'. ps = qs @ ps' \<and> FetchMoreBcpData enl False n b = Some (Ok () b') \<and>
      bulk_at enl ps' tail b' \<and> rest b' = rest b @ concat qs \<and> n \<le> length (rest b') \<and> same_batch b b'"
    using fetch_packets_rest [OF at n, of True] by metis
qed

interpretation plp_fetch: appending enl True "FetchMoreBcpPlpData enl" for enl
proof unfold_locales
  fix ps tail b n
  assume at: "bulk_at enl ps tail b" and n: "n \<le> length (unread ps b)"
  show "bcpOffset b' = bcpOffset b \<and> (\<exists>more. message b' = message b @ more)"
    if "FetchMoreBcpPlpData enl n b = Some (Ok () b')" for b'
    using that fetch_packets_rest [OF at n, of False] int_length_param [of n] n bulk_at_rest(4) [OF at]
    by (fastforce simp: FetchMoreBcpPlpData_def violation_def split: if_splits)
  assume "length (rest b) < n"
  from fetch_rest [OF at n this]
  have "FetchMoreBcpPlpData enl n b = fetch_packets enl False n b"
    by (simp add: FetchMoreBcpPlpData_def)
  then show "\<exists>qs ps' b'. ps = qs @ ps' \<and> FetchMoreBcpPlpData enl n b = Some (Ok () b') \<and>
      bulk_at enl ps' tail b' \<and> rest b' = rest b @ concat qs \<and> n \<le> length (rest b') \<and> same_batch b b'"
    using fetch_packets_rest [OF at n, of False] by metis
qed

interpretation row_fetch: fetching enl False "FetchMoreBcpData enl True" for enl
proof unfold_locales
  fix ps tail b n
  assume at: "bulk_at enl ps tail b" and "on_stack b \<longrightarrow> False"
    and n: "n \<le> length (unread ps b)" "length (rest b) < n"
  then have free: "\<not> on_stack b" by simp
  let ?b = "b\<lparr>message := rest b, bcpOffset := 0\<rparr>"
  have "FetchMoreBcpData enl True n b = fetch_packets enl True n ?b"
    using fetch_rest [OF at n] drop_parsed_ok(1) [OF at free] by (simp add: FetchMoreBcpData_def)
  moreover have "rest ?b = rest b" "same_batch b ?b" "unread ps ?b = unread ps b"
    by (simp_all add: rest_def same_batch_def unread_def)
  ultimately show "\<exists>qs ps' b'. ps = qs @ ps' \<and> FetchMoreBcpData enl True n b = Some (Ok () b') \<and>
      bulk_at enl ps' tail b' \<and> rest b' = rest b @ concat qs \<and> n \<le> length (rest b') \<and> same_batch b b'"
    using fetch_packets_rest [OF drop_parsed_ok(2) [OF at free], of n True] n(1)
      same_batch_trans [of b ?b] by metis
qed

section \<open>The format of a bulk load\<close>

text \<open>
  The same format as a parser of byte lists, which knows nothing of packets: it returns a
  value and the bytes after it, an error, or that the bytes end too early.
\<close>

datatype 'a parsed = Parsed 'a "byte list" | Bad pg_error | Short

primrec parsed_then :: "'a parsed \<Rightarrow> ('a \<Rightarrow> byte list \<Rightarrow> 'b parsed) \<Rightarrow> 'b parsed" where
  "parsed_then (Parsed x bs) k = k x bs"
| "parsed_then (Bad e) k = Bad e"
| "parsed_then Short k = Short"

lemma parsed_then_cong [fundef_cong]:
  "p = p' \<Longrightarrow> (\<And>x bs. p' = Parsed x bs \<Longrightarrow> k x bs = k' x bs) \<Longrightarrow> parsed_then p k = parsed_then p' k'"
  by (cases p') simp_all

definition bytes_of :: "nat \<Rightarrow> byte list \<Rightarrow> byte list parsed" where
  "bytes_of n bs = (if length bs < n then Short else Parsed (take n bs) (drop n bs))"

definition checked :: "'a result \<Rightarrow> byte list \<Rightarrow> 'a parsed" where
  "checked r bs = (case r of Inl e \<Rightarrow> Bad e | Inr x \<Rightarrow> Parsed x bs)"

definition incorrect :: "string \<Rightarrow> 'a parsed" where
  "incorrect msg = Bad (Report ERROR ERRCODE_PROTOCOL_VIOLATION (''The incoming tabular data stream (TDS) Bulk Load Request (BulkLoadBCP) protocol stream is incorrect. '' @ msg))"

definition sized_spec ::
  "('d, 't) bulk_env \<Rightarrow> BulkLoadColMetaData \<Rightarrow> nat \<Rightarrow> byte list \<Rightarrow> 'd option parsed" where
  "sized_spec env col len bs =
     (if maxLen col < len
      then incorrect ''Row %d, column %d: Data type 0x%02X has an invalid data length or metadata length.''
      else parsed_then (bytes_of len bs) (\<lambda>v bs.
           parsed_then (checked (column_datum env col v) bs) (\<lambda>d bs. Parsed (Some d) bs)))"

text \<open>The length of a value and the value, with a length that stands for NULL.\<close>

definition prefixed_spec ::
  "nat \<Rightarrow> (byte list \<Rightarrow> nat) \<Rightarrow> nat \<Rightarrow> ('d, 't) bulk_env \<Rightarrow> BulkLoadColMetaData \<Rightarrow> byte list \<Rightarrow> 'd option parsed" where
  "prefixed_spec n number null env col bs =
     parsed_then (bytes_of n bs) (\<lambda>v bs.
     if number v = null then Parsed None bs else sized_spec env col (number v) bs)"

text \<open>Chunks up to the empty one, joined.\<close>

function chunks_spec :: "byte list \<Rightarrow> byte list \<Rightarrow> byte list parsed" where
  "chunks_spec acc bs =
     parsed_then (bytes_of 4 bs) (\<lambda>v bs.
     if le_value v = 0 then Parsed acc bs
     else parsed_then (bytes_of (le_value v) bs) (\<lambda>d bs. chunks_spec (acc @ d) bs))"
  by pat_completeness auto

termination
  by (relation "measure (length \<circ> snd)") (auto simp: bytes_of_def split: if_splits)

declare chunks_spec.simps [simp del]

definition plp_spec ::
  "('d, 't) bulk_env \<Rightarrow> BulkLoadColMetaData \<Rightarrow> byte list \<Rightarrow> 'd option parsed" where
  "plp_spec env col bs =
     parsed_then (bytes_of 8 bs) (\<lambda>v bs.
     if le_value v = PLP_NULL then Parsed None bs
     else parsed_then (chunks_spec [] bs) (\<lambda>d bs.
          if le_value v = PLP_UNKNOWN_LEN \<or> length d = le_value v
          then parsed_then (checked (column_datum env col d) bs) (\<lambda>d bs. Parsed (Some d) bs)
          else incorrect ''Row %d, column %d: The chunking format is incorrect for a large object parameter of data type 0x%02X.''))"

definition column_spec ::
  "('d, 't) bulk_env \<Rightarrow> BulkLoadColMetaData \<Rightarrow> byte list \<Rightarrow> 'd option parsed" where
  "column_spec env col bs =
     (let t = columnTdsType col; byte_number = (\<lambda>v. char_value (char_signed env) (hd v))
      in if t \<in> {TDS_TYPE_INTEGER, TDS_TYPE_BIT, TDS_TYPE_FLOAT, TDS_TYPE_TIME, TDS_TYPE_DATE,
                TDS_TYPE_DATETIME2, TDS_TYPE_DATETIMEN, TDS_TYPE_MONEYN, TDS_TYPE_UNIQUEIDENTIFIER,
                TDS_TYPE_DATETIMEOFFSET}
         then if variantType col then sized_spec env col (maxLen col) bs
              else prefixed_spec 1 byte_number 0 env col bs
         else if t \<in> {TDS_TYPE_NUMERICN, TDS_TYPE_DECIMALN}
         then if precision col < scale col
              then incorrect ''Row %d, column %d: The supplied value is not a valid instance of data type Numeric/Decimal. Check the source data for invalid values. An example of an invalid value is data of numeric type with scale greater than precision.''
              else prefixed_spec 1 byte_number 0 env col bs
         else if t \<in> {TDS_TYPE_CHAR, TDS_TYPE_VARCHAR, TDS_TYPE_NCHAR, TDS_TYPE_NVARCHAR,
                     TDS_TYPE_BINARY, TDS_TYPE_VARBINARY}
         then if maxLen col = 65535 then plp_spec env col bs
              else prefixed_spec 2 le_value 65535 env col bs
         else if t \<in> {TDS_TYPE_TEXT, TDS_TYPE_NTEXT, TDS_TYPE_IMAGE}
         then parsed_then (bytes_of 1 bs) (\<lambda>v bs.
              if unat (hd v) = 0 then Parsed None bs
              else parsed_then (bytes_of (unat (hd v) + 8) bs) (\<lambda>_ bs. prefixed_spec 4 le_value 0 env col bs))
         else if t = TDS_TYPE_XML then plp_spec env col bs
         else if t = TDS_TYPE_SQLVARIANT then prefixed_spec 4 le_value 0 env col bs
         else Parsed (Some (Datum_zero env)) bs)"

primrec row_spec ::
  "('d, 't) bulk_env \<Rightarrow> BulkLoadColMetaData list \<Rightarrow> byte list \<Rightarrow> 'd option list parsed" where
  "row_spec env [] bs = Parsed [] bs"
| "row_spec env (col # cols) bs =
     parsed_then (column_spec env col bs) (\<lambda>v bs.
     parsed_then (row_spec env cols bs) (\<lambda>vs bs. Parsed (v # vs) bs))"

subsection \<open>Refinement\<close>

definition refines :: "enlarge \<Rightarrow> byte list \<Rightarrow> bulk \<Rightarrow> 'a parsed \<Rightarrow> 'a outcome option \<Rightarrow> bool" where
  "refines enl tail b p m \<longleftrightarrow>
     (case p of
        Parsed x bs \<Rightarrow> \<exists>b'. m = Some (Ok x b') \<and> holds enl tail bs b' \<and>
                         on_stack b' = on_stack b \<and> rowCount b' = rowCount b
      | Bad e \<Rightarrow> \<exists>b' bs. m = Some (Raised e b') \<and> holds enl tail bs b'
      | Short \<Rightarrow> True)"

lemma refines_simps [simp]:
  "refines enl tail b Short m"
  "refines enl tail b (Parsed x bs) (Some (Ok x' b')) \<longleftrightarrow>
     x' = x \<and> holds enl tail bs b' \<and> on_stack b' = on_stack b \<and> rowCount b' = rowCount b"
  by (auto simp: refines_def)

lemma refines_then:
  assumes "refines enl tail b p m"
    and "\<And>x bs b'. p = Parsed x bs \<Longrightarrow> holds enl tail bs b' \<Longrightarrow> on_stack b' = on_stack b \<Longrightarrow>
      rowCount b' = rowCount b \<Longrightarrow> refines enl tail b' (q x bs) (k x b')"
  shows "refines enl tail b (parsed_then p q) (bulk_then m k)"
proof (cases p)
  case (Parsed x bs)
  with assms(1) obtain b' where b': "m = Some (Ok x b')" "holds enl tail bs b'"
    "on_stack b' = on_stack b" "rowCount b' = rowCount b"
    by (auto simp: refines_def)
  from assms(2) [OF Parsed b'(2-4)] b' Parsed show ?thesis
    by (simp add: refines_def split: parsed.splits)
qed (use assms(1) in \<open>auto simp: refines_def\<close>)

lemma refines_base:
  "refines enl tail b' p m \<Longrightarrow> on_stack b' = on_stack b \<Longrightarrow> rowCount b' = rowCount b \<Longrightarrow> refines enl tail b p m"
  by (simp add: refines_def split: parsed.splits)

lemma refines_report:
  assumes "holds enl tail bs b'"
  shows "refines enl tail b (incorrect msg) (stream_incorrect msg b')"
  using assms by (auto simp: refines_def incorrect_def stream_incorrect_def violation_def)

lemma refines_checked:
  assumes "holds enl tail bs b"
  shows "refines enl tail b (checked r bs) (attempt r b)"
  using assms by (cases r) (auto simp: refines_def checked_def attempt_def)

context fetching
begin

text \<open>The next \<open>n\<close> bytes: making sure of them, reading them, and going on after them.\<close>

lemma refines_bytes:
  assumes "holds enl tail bs b" and "on_stack b \<longrightarrow> stack_allowed"
    and "\<And>b'. n \<le> length bs \<Longrightarrow> holds enl tail bs b' \<Longrightarrow> n \<le> length (rest b') \<Longrightarrow>
      on_stack b' = on_stack b \<Longrightarrow> rowCount b' = rowCount b \<Longrightarrow>
      refines enl tail b' (q (take n bs) (drop n bs)) (k b')"
  shows "refines enl tail b (parsed_then (bytes_of n bs) q) (bulk_then (has_enough fetch n b) (\<lambda>_ b. k b))"
proof (cases "n \<le> length bs")
  case True
  then obtain b' where b': "has_enough fetch n b = Some (Ok () b')" "holds enl tail bs b'"
    "n \<le> length (rest b')" "same_batch b b'"
    using enough [OF assms(1,2)] by blast
  with assms(3) [OF True b'(2,3)] True show ?thesis
    by (auto simp: bytes_of_def same_batch_def intro: refines_base)
qed (simp add: bytes_of_def)

end

text \<open>The values, one lemma for each way they are encoded.\<close>

lemmas check_defs = CheckMessageHasEnoughBytesToReadRows_def CheckPlpMessageHasEnoughBytesToRead_def
  CheckMessageHasEnoughBytesToReadColMetadata_def

lemma sized_refines:
  assumes "holds (enlargeStringInfo env) tail bs b" and "\<not> on_stack b"
  shows "refines (enlargeStringInfo env) tail b (sized_spec env col len bs) (sized_value env col len b)"
proof (cases "maxLen col < len")
  case True
  with assms(1) show ?thesis by (simp add: sized_spec_def sized_value_def refines_report)
next
  case False
  have "refines (enlargeStringInfo env) tail b'
      (parsed_then (checked (column_datum env col (take len bs)) (drop len bs)) (\<lambda>d bs. Parsed (Some d) bs))
      (bulk_then (peek len b') (\<lambda>v b. bulk_then (attempt (column_datum env col v) b) (\<lambda>d b.
         Some (Ok (Some d) (count len b)))))"
    if "holds (enlargeStringInfo env) tail bs b'" "len \<le> length (rest b')" for b'
    using that peek_holds [OF that] holds_advance(1) [OF that]
    by (cases "column_datum env col (take len bs)") (auto simp: checked_def attempt_def refines_def)
  with False assms show ?thesis
    unfolding sized_spec_def sized_value_def check_defs
    by (simp add: row_fetch.refines_bytes)
qed

lemma prefixed_refines:
  assumes "holds (enlargeStringInfo env) tail bs b" and "\<not> on_stack b" and "n \<le> length (rest b)"
    and "\<And>b'. holds (enlargeStringInfo env) tail (drop n bs) b' \<Longrightarrow> \<not> on_stack b' \<Longrightarrow>
      refines (enlargeStringInfo env) tail b'
        (sized_spec env col (number (take n bs)) (drop n bs)) (k (number (take n bs)) b')"
  shows "refines (enlargeStringInfo env) tail b
    (if number (take n bs) = null then Parsed None (drop n bs)
     else sized_spec env col (number (take n bs)) (drop n bs))
    (bulk_then (peek n b) (\<lambda>v b. let len = number v; b = count n b
       in if len = null then Some (Ok None b) else k len b))"
  using peek_holds [OF assms(1,3)] holds_advance(1) [OF assms(1,3)] assms(2)
    assms(4) [of "count n b", THEN refines_base, of b]
  by simp

lemma byte_sized_refines:
  assumes "holds (enlargeStringInfo env) tail bs b" and "\<not> on_stack b"
  shows "refines (enlargeStringInfo env) tail b
    (prefixed_spec 1 (\<lambda>v. char_value (char_signed env) (hd v)) 0 env col bs) (byte_sized_value env col b)"
  unfolding prefixed_spec_def byte_sized_value_def check_defs
proof (rule row_fetch.refines_bytes, goal_cases)
  case (3 b')
  with assms(2) show ?case
    by (intro prefixed_refines [where null = 0 and number = "\<lambda>v. char_value (char_signed env) (hd v)"]
        sized_refines) simp_all
qed (use assms in simp_all)

lemma long_sized_refines:
  assumes "holds (enlargeStringInfo env) tail bs b" and "\<not> on_stack b" and "4 \<le> length (rest b)"
  shows "refines (enlargeStringInfo env) tail b (prefixed_spec 4 le_value 0 env col bs) (long_sized_value env col b)"
proof -
  have "4 \<le> length bs" using assms(1,3) by (auto simp: holds_def unread_def)
  then have "prefixed_spec 4 le_value 0 env col bs =
      (if le_value (take 4 bs) = 0 then Parsed None (drop 4 bs)
       else sized_spec env col (le_value (take 4 bs)) (drop 4 bs))"
    by (simp add: prefixed_spec_def bytes_of_def)
  then show ?thesis
    unfolding long_sized_value_def
    by (simp only:) (intro prefixed_refines [where null = 0] sized_refines assms)
qed

lemma string_sized_refines:
  assumes "holds (enlargeStringInfo env) tail bs b" and "\<not> on_stack b" and "maxLen col \<noteq> 65535"
  shows "refines (enlargeStringInfo env) tail b (prefixed_spec 2 le_value 65535 env col bs) (string_value env col b)"
proof -
  have tail_part: "refines (enlargeStringInfo env) tail b' (sized_spec env col len bs')
    (if maxLen col < len
     then stream_incorrect ''Row %d, column %d: Data type 0x%02X has an invalid data length or metadata length.'' b'
     else bulk_then (has_enough (FetchMoreBcpData (enlargeStringInfo env) True) len b') (\<lambda>_ b.
          bulk_then (peek len b) (\<lambda>v b.
          bulk_then (attempt (column_datum env col v) (count len b)) (\<lambda>d b. Some (Ok (Some d) b)))))"
    if b': "holds (enlargeStringInfo env) tail bs' b'" "\<not> on_stack b'" for bs' b' len
  proof (cases "maxLen col < len")
    case True
    with b' show ?thesis by (simp add: sized_spec_def refines_report)
  next
    case False
    have "refines (enlargeStringInfo env) tail b1
        (parsed_then (checked (column_datum env col (take len bs')) (drop len bs')) (\<lambda>d bs. Parsed (Some d) bs))
        (bulk_then (peek len b1) (\<lambda>v b. bulk_then (attempt (column_datum env col v) (count len b)) (\<lambda>d b.
           Some (Ok (Some d) b))))"
      if "holds (enlargeStringInfo env) tail bs' b1" "len \<le> length (rest b1)" for b1
      using that peek_holds [OF that] holds_advance(1) [OF that]
      by (cases "column_datum env col (take len bs')") (auto simp: checked_def attempt_def refines_def)
    with False b' show ?thesis
      unfolding sized_spec_def by (simp add: row_fetch.refines_bytes)
  qed
  have flip: "(if len \<noteq> 65535 then x else y) = (if len = 65535 then y else x)" for len :: nat and x y :: 'x
    by simp
  have "string_value env col b = bulk_then (has_enough (FetchMoreBcpData (enlargeStringInfo env) True) 2 b) (\<lambda>_ b.
      bulk_then (peek 2 b) (\<lambda>v b. let len = le_value v; b = count 2 b
      in if len = 65535 then Some (Ok None b)
         else if maxLen col < len
         then stream_incorrect ''Row %d, column %d: Data type 0x%02X has an invalid data length or metadata length.'' b
         else bulk_then (has_enough (FetchMoreBcpData (enlargeStringInfo env) True) len b) (\<lambda>_ b.
              bulk_then (peek len b) (\<lambda>v b.
              bulk_then (attempt (column_datum env col v) (count len b)) (\<lambda>d b. Some (Ok (Some d) b))))))"
    unfolding string_value_def check_defs flip using assms(3) by simp
  moreover have "refines (enlargeStringInfo env) tail b (prefixed_spec 2 le_value 65535 env col bs) \<dots>"
    unfolding prefixed_spec_def
  proof (rule row_fetch.refines_bytes, goal_cases)
    case (3 b')
    with assms(2) show ?case
      by (intro prefixed_refines [where null = 65535] tail_part) simp_all
  qed (use assms in simp_all)
  ultimately show ?thesis by simp
qed

text \<open>
  Chunks. The offsets recorded for them are those of the data in the message, and stay so
  while further packets are appended to it.
\<close>

definition chunk_data :: "byte list \<Rightarrow> (nat \<times> nat) list \<Rightarrow> byte list" where
  "chunk_data msg plp = concat (map (\<lambda>(off, n). take n (drop off msg)) plp)"

definition chunks_in :: "nat \<Rightarrow> (nat \<times> nat) list \<Rightarrow> bool" where
  "chunks_in n plp \<longleftrightarrow> (\<forall>(off, k) \<in> set plp. off + k \<le> n)"

lemma chunks_in_simps [simp]:
  "chunks_in n []"
  "chunks_in n (plp @ [(off, k)]) \<longleftrightarrow> chunks_in n plp \<and> off + k \<le> n"
  by (auto simp: chunks_in_def)

lemma chunks_in_mono: "chunks_in n plp \<Longrightarrow> n \<le> n' \<Longrightarrow> chunks_in n' plp"
  by (fastforce simp: chunks_in_def)

lemma chunk_data_append:
  "chunks_in (length msg) plp \<Longrightarrow> chunk_data (msg @ xs) plp = chunk_data msg plp"
  by (induction plp) (auto simp: chunk_data_def chunks_in_def)

lemma chunk_data_snoc: "chunk_data msg (plp @ [(off, n)]) = chunk_data msg plp @ take n (drop off msg)"
  by (simp add: chunk_data_def)

text \<open>Making sure of bytes in the middle of a value: the message only grows.\<close>

lemma plp_enough:
  assumes "holds enl tail bs b" and "n \<le> length bs"
  obtains b' more where "has_enough (FetchMoreBcpPlpData enl) n b = Some (Ok () b')" "holds enl tail bs b'"
    "n \<le> length (rest b')" "same_batch b b'" "bcpOffset b' = bcpOffset b" "message b' = message b @ more"
  using plp_fetch.enough [OF assms(1) _ assms(2)] plp_fetch.enough_appends [OF assms]
  by (metis (full_types))

text \<open>The length of a chunk, and the chunk.\<close>

lemma plp_length:
  assumes "holds enl tail bs b" and "4 \<le> length bs"
  obtains b1 more where "holds enl tail (drop 4 bs) b1" "bcpOffset b1 = bcpOffset b + 4"
    "message b1 = message b @ more" "on_stack b1 = on_stack b" "rowCount b1 = rowCount b"
    "\<forall>plp lenCheck. plp_loop enl plp lenCheck b =
      (let n = le_value (take 4 bs); plp' = plp @ [(bcpOffset b1, n)]
       in if n = 0 then Some (Ok (True, plp, lenCheck) b1)
          else bulk_then (has_enough (FetchMoreBcpPlpData enl) n b1) (\<lambda>_ b.
               if length (message b) < bcpOffset b + n then Some (Ok (False, plp', lenCheck) b)
               else plp_loop enl plp' (size_t_add lenCheck n) (count n b)))"
proof -
  obtain b1 more where b1: "has_enough (FetchMoreBcpPlpData enl) 4 b = Some (Ok () b1)"
    "holds enl tail bs b1" "4 \<le> length (rest b1)" "same_batch b b1" "bcpOffset b1 = bcpOffset b"
    "message b1 = message b @ more"
    using plp_enough [OF assms] by blast
  have "\<not> length (message b1) < bcpOffset b1 + 4" using holds_rest(2) [OF b1(2)] b1(3) by simp
  with b1(1) peek_holds [OF b1(2,3)]
  have "plp_loop enl plp lenCheck b =
      (let n = le_value (take 4 bs); plp' = plp @ [(bcpOffset (count 4 b1), n)]
       in if n = 0 then Some (Ok (True, plp, lenCheck) (count 4 b1))
          else bulk_then (has_enough (FetchMoreBcpPlpData enl) n (count 4 b1)) (\<lambda>_ b.
               if length (message b) < bcpOffset b + n then Some (Ok (False, plp', lenCheck) b)
               else plp_loop enl plp' (size_t_add lenCheck n) (count n b)))" for plp lenCheck
    by (subst plp_loop.simps) (simp add: CheckPlpMessageHasEnoughBytesToRead_def PLP_TERMINATOR_def Let_def)
  with b1 holds_advance(1) [OF b1(2,3)] show ?thesis
    by (intro that [of "count 4 b1" more]) (simp_all add: count_def same_batch_def)
qed

lemma plp_chunk:
  assumes "holds enl tail bs b" and "n \<le> length bs"
  obtains b2 more where "has_enough (FetchMoreBcpPlpData enl) n b = Some (Ok () b2)"
    "bcpOffset b2 + n \<le> length (message b2)" "length (message b2) \<le> MaxAllocSize"
    "holds enl tail (drop n bs) (count n b2)" "bcpOffset b2 = bcpOffset b"
    "message b2 = message b @ more" "on_stack b2 = on_stack b" "rowCount b2 = rowCount b"
    "take n (drop (bcpOffset b) (message b2)) = take n bs"
proof -
  obtain b2 more where b2: "has_enough (FetchMoreBcpPlpData enl) n b = Some (Ok () b2)"
    "holds enl tail bs b2" "n \<le> length (rest b2)" "same_batch b b2" "bcpOffset b2 = bcpOffset b"
    "message b2 = message b @ more"
    using plp_enough [OF assms] by blast
  have len: "bcpOffset b2 + n \<le> length (message b2)" using holds_rest(2) [OF b2(2)] b2(3) by simp
  then have "take n (drop (bcpOffset b) (message b2)) = take n bs"
    using peek_holds [OF b2(2,3)] b2(5) by (simp add: peek_def attempt_def read_at_def)
  with b2 len holds_rest(3) [OF b2(2)] holds_advance(1) [OF b2(2,3)] show ?thesis
    by (intro that [of b2 more]) (simp_all add: same_batch_def)
qed

lemma plp_loop_ok:
  assumes "holds enl tail bs b" and "chunks_spec (chunk_data (message b) plp) bs = Parsed d bs'"
    and "chunks_in (bcpOffset b) plp" and "lenCheck = length (chunk_data (message b) plp)"
    and "sum_list (map snd plp) = lenCheck" and "lenCheck \<le> bcpOffset b"
  shows "\<exists>plp' b'. plp_loop enl plp lenCheck b = Some (Ok (True, plp', length d) b') \<and> holds enl tail bs' b' \<and>
    on_stack b' = on_stack b \<and> rowCount b' = rowCount b \<and> chunks_in (length (message b')) plp' \<and>
    chunk_data (message b') plp' = d \<and> sum_list (map snd plp') = length d \<and> length d \<le> length (message b')"
  using assms
proof (induction "length bs" arbitrary: bs b plp lenCheck rule: less_induct)
  case less
  let ?n = "le_value (take 4 bs)" and ?bs = "drop 4 bs"
  have spec: "parsed_then (bytes_of 4 bs) (\<lambda>v bs. if le_value v = 0 then Parsed (chunk_data (message b) plp) bs
      else parsed_then (bytes_of (le_value v) bs) (\<lambda>d bs. chunks_spec (chunk_data (message b) plp @ d) bs)) = Parsed d bs'"
    using less.prems(2) by (subst (asm) chunks_spec.simps)
  have four: "4 \<le> length bs" using spec by (auto simp: bytes_of_def split: if_splits)
  obtain b1 more where b1: "holds enl tail ?bs b1" "bcpOffset b1 = bcpOffset b + 4"
    "message b1 = message b @ more" "on_stack b1 = on_stack b" "rowCount b1 = rowCount b"
    and loop: "\<forall>plp lenCheck. plp_loop enl plp lenCheck b =
      (let n = ?n; plp' = plp @ [(bcpOffset b1, n)]
       in if n = 0 then Some (Ok (True, plp, lenCheck) b1)
          else bulk_then (has_enough (FetchMoreBcpPlpData enl) n b1) (\<lambda>_ b.
               if length (message b) < bcpOffset b + n then Some (Ok (False, plp', lenCheck) b)
               else plp_loop enl plp' (size_t_add lenCheck n) (count n b)))"
    by (rule plp_length [OF less.prems(1) four]) (rule that)
  have off: "bcpOffset b \<le> length (message b)" using holds_rest(2) [OF less.prems(1)] by simp
  note here = chunks_in_mono [OF less.prems(3) off]
  show ?case
  proof (cases "?n = 0")
    case True
    then have "d = chunk_data (message b) plp" "bs' = ?bs" "chunks_in (length (message b1)) plp"
      using spec four chunks_in_mono [OF here] b1(3) by (simp_all add: bytes_of_def)
    with loop True b1 here less.prems(4-6) off show ?thesis
      by (intro exI [of _ plp] exI [of _ b1]) (simp add: chunk_data_append)
  next
    case False
    have rest: "chunks_spec (chunk_data (message b) plp @ take ?n ?bs) (drop ?n ?bs) = Parsed d bs'"
      and n: "?n \<le> length ?bs"
      using spec four False by (auto simp: bytes_of_def split: if_splits)
    obtain b2 more' where b2: "has_enough (FetchMoreBcpPlpData enl) ?n b1 = Some (Ok () b2)"
      "bcpOffset b2 + ?n \<le> length (message b2)" "length (message b2) \<le> MaxAllocSize"
      "holds enl tail (drop ?n ?bs) (count ?n b2)" "bcpOffset b2 = bcpOffset b1"
      "message b2 = message b1 @ more'" "on_stack b2 = on_stack b1" "rowCount b2 = rowCount b1"
      "take ?n (drop (bcpOffset b1) (message b2)) = take ?n ?bs"
      using plp_chunk [OF b1(1) n] by blast
    let ?plp = "plp @ [(bcpOffset b1, ?n)]" and ?b2 = "count ?n b2"
    have msg: "message ?b2 = message b2" "bcpOffset ?b2 = bcpOffset b1 + ?n"
      using b2(5) by (simp_all add: count_def)
    have data: "chunk_data (message ?b2) ?plp = chunk_data (message b) plp @ take ?n ?bs"
      unfolding msg chunk_data_snoc b2(9) using b2(6) b1(3) here by (simp add: chunk_data_append)
    have "size_t_add lenCheck ?n = lenCheck + ?n"
      using less.prems(6) b2(2,3,5) b1(2) by (intro size_t_small) simp
    then have step: "plp_loop enl plp lenCheck b = plp_loop enl ?plp (lenCheck + ?n) ?b2"
      using loop False b2(1,2) by (simp add: Let_def)
    have "chunks_in (bcpOffset ?b2) ?plp" "lenCheck + ?n \<le> bcpOffset ?b2"
      "lenCheck + ?n = length (chunk_data (message ?b2) ?plp)" "sum_list (map snd ?plp) = lenCheck + ?n"
      using chunks_in_mono [OF less.prems(3)] msg(2) b1(2) less.prems(4-6) n unfolding data by simp_all
    with less.hyps [of "drop ?n ?bs" ?b2 ?plp "lenCheck + ?n"] four b2(4,7,8) b1(4,5) rest data
    show ?thesis unfolding step by simp
  qed
qed

lemma holds_grants: "holds enl tail bs b \<Longrightarrow> k \<le> length (message b) \<Longrightarrow> grants enl k"
  by (auto simp: holds_def bulk_at_def room_def intro: grants_mono)

lemma append_chunks_ok:
  assumes "grants enl (length pbuf + sum_list (map snd plp))" and "chunks_in (length msg) plp"
  shows "append_chunks enl msg pbuf plp = Inr (pbuf @ chunk_data msg plp)"
  using assms
proof (induction plp arbitrary: pbuf)
  case (Cons t plp)
  obtain off n where t: "t = (off, n)" by (cases t)
  have "enl (length pbuf) n = Inr ()" "read_at msg off n = Inr (take n (drop off msg))"
    using Cons.prems t by (auto simp: chunks_in_def read_at_def intro: grantsD)
  moreover have "length (take n (drop off msg)) = n" "chunks_in (length msg) plp"
    using Cons.prems(2) t by (auto simp: chunks_in_def)
  ultimately show ?case
    using Cons.IH [of "pbuf @ take n (drop off msg)"] Cons.prems(1) t
    by (simp add: chunk_data_def add.assoc)
qed (simp add: chunk_data_def)

lemma TdsGetPlpStringInfoBufferFromToken_ok:
  assumes "holds enl tail bs b" and "chunks_in (length (message b)) plp"
    and "chunk_data (message b) plp = d" and "sum_list (map snd plp) = length d" and "length d \<le> length (message b)"
  shows "TdsGetPlpStringInfoBufferFromToken enl (message b) plp = Inr d"
proof -
  have g: "grants enl (length d)" by (rule holds_grants [OF assms(1,5)])
  then have "enl 0 (length d) = Inr ()" by (rule grantsD) simp
  with g append_chunks_ok [of enl "[]" plp "message b"] assms(2-4) show ?thesis
    by (auto simp: TdsGetPlpStringInfoBufferFromToken_def chunk_data_def)
qed

lemma chunks_spec_not_Bad: "chunks_spec acc bs \<noteq> Bad e"
proof (induction acc bs rule: chunks_spec.induct)
  case (1 acc bs)
  show ?case
    by (subst chunks_spec.simps) (use 1 in \<open>auto simp: bytes_of_def\<close>)
qed

lemma ReadBcpPlp_chunks:
  assumes "holds enl tail bs b" and "chunks_spec [] bs = Parsed d bs'"
  obtains plp b' where "plp_loop enl [] 0 b = Some (Ok (True, plp, length d) b')" "holds enl tail bs' b'"
    "on_stack b' = on_stack b" "rowCount b' = rowCount b"
    "TdsGetPlpStringInfoBufferFromToken enl (message b') plp = Inr d"
  using plp_loop_ok [OF assms(1), of "[]" d bs' 0] assms(2)
    TdsGetPlpStringInfoBufferFromToken_ok [of enl tail bs' _ _ d]
  by (auto simp: chunk_data_def)

lemma plp_refines:
  assumes "holds (enlargeStringInfo env) tail bs b"
  shows "refines (enlargeStringInfo env) tail b (plp_spec env col bs) (plp_value env col b)"
proof (cases "8 \<le> length bs")
  case True
  let ?enl = "enlargeStringInfo env" and ?tok = "le_value (take 8 bs)"
  obtain b1 where b1: "has_enough (FetchMoreBcpPlpData ?enl) 8 b = Some (Ok () b1)" "holds ?enl tail bs b1"
    "8 \<le> length (rest b1)" "same_batch b b1"
    using plp_fetch.enough [OF assms _ True] by auto
  have b2: "holds ?enl tail (drop 8 bs) (count 8 b1)" "peek 8 b1 = Some (Ok (take 8 bs) b1)"
    using holds_advance(1) [OF b1(2,3)] peek_holds [OF b1(2,3)] by auto
  have read: "ReadBcpPlp ?enl b =
      (if ?tok = PLP_NULL then Some (Ok (True, None) (count 8 b1))
       else bulk_then (plp_loop ?enl [] 0 (count 8 b1)) (\<lambda>(ok, plp, lenCheck) b.
            Some (Ok (ok \<and> (?tok = PLP_UNKNOWN_LEN \<or> lenCheck = ?tok), Some plp) b)))"
    using b1(1) b2(2) by (simp add: ReadBcpPlp_def CheckPlpMessageHasEnoughBytesToRead_def Let_def)
  show ?thesis
  proof (cases "chunks_spec [] (drop 8 bs)")
    case (Parsed d bs')
    then obtain plp b' where b': "plp_loop ?enl [] 0 (count 8 b1) = Some (Ok (True, plp, length d) b')"
      "holds ?enl tail bs' b'" "on_stack b' = on_stack b" "rowCount b' = rowCount b"
      "TdsGetPlpStringInfoBufferFromToken ?enl (message b') plp = Inr d"
      using ReadBcpPlp_chunks [OF b2(1)] b1(4) by (auto simp: same_batch_def)
    have conv: "refines ?enl tail b
        (parsed_then (checked (column_datum env col d) bs') (\<lambda>d bs. Parsed (Some d) bs))
        (bulk_then (attempt (column_datum env col d) b') (\<lambda>d b. Some (Ok (Some d) b)))"
      using b'(2-4) by (cases "column_datum env col d") (auto simp: refines_def checked_def attempt_def)
    show ?thesis
      using True b' b1(4) b2(1) conv Parsed
      by (simp add: plp_spec_def bytes_of_def plp_value_def read same_batch_def attempt_def refines_report [OF b'(2)])
  qed (use True b1(4) b2(1) chunks_spec_not_Bad in \<open>simp_all add: plp_spec_def bytes_of_def plp_value_def read same_batch_def\<close>)
qed (simp add: plp_spec_def bytes_of_def)

lemma refines_if:
  "(c \<Longrightarrow> refines enl tail b p m) \<Longrightarrow> (\<not> c \<Longrightarrow> refines enl tail b p' m') \<Longrightarrow>
     refines enl tail b (if c then p else p') (if c then m else m')"
  by simp

lemma text_refines:
  assumes "holds (enlargeStringInfo env) tail bs b" and "\<not> on_stack b"
  shows "refines (enlargeStringInfo env) tail b
    (parsed_then (bytes_of 1 bs) (\<lambda>v bs.
       if unat (hd v) = 0 then Parsed None bs
       else parsed_then (bytes_of (unat (hd v) + 8) bs) (\<lambda>_ bs. prefixed_spec 4 le_value 0 env col bs)))
    (text_value env col b)"
  unfolding text_value_def check_defs
proof (rule row_fetch.refines_bytes, goal_cases)
  case (3 b1)
  let ?enl = "enlargeStringInfo env" and ?k = "unat (hd (take 1 bs))" and ?b = "count 1 b1" and ?bs = "drop 1 bs"
  have b: "holds ?enl tail ?bs ?b" "peek 1 b1 = Some (Ok (take 1 bs) b1)" "\<not> on_stack ?b"
    using holds_advance(1) [OF 3(2,3)] peek_holds [OF 3(2,3)] 3(4) assms(2) by simp_all
  have "refines ?enl tail ?b
      (parsed_then (bytes_of (?k + 8 + 4) ?bs) (\<lambda>_ _. prefixed_spec 4 le_value 0 env col (drop (?k + 8) ?bs)))
      (bulk_then (has_enough (FetchMoreBcpData ?enl True) (?k + 8 + 4) ?b) (\<lambda>_ b.
         long_sized_value env col (count 8 (count ?k b))))"
  proof (rule row_fetch.refines_bytes, goal_cases)
    case (3 b2)
    have "holds ?enl tail (drop ?k ?bs) (count ?k b2)" "8 \<le> length (rest (count ?k b2))"
      using holds_advance(1) [OF 3(2), of ?k] 3(3) by simp_all
    from holds_advance(1) [OF this]
    have "refines ?enl tail (count 8 (count ?k b2)) (prefixed_spec 4 le_value 0 env col (drop (?k + 8) ?bs))
        (long_sized_value env col (count 8 (count ?k b2)))"
      using 3(3,4) b(3) by (intro long_sized_refines) (simp_all add: add.commute)
    then show ?case by (rule refines_base) simp_all
  qed (use b in simp_all)
  moreover have "refines ?enl tail ?b (parsed_then (bytes_of (?k + 8) ?bs) (\<lambda>_ bs. prefixed_spec 4 le_value 0 env col bs)) m"
    if "refines ?enl tail ?b
      (parsed_then (bytes_of (?k + 8 + 4) ?bs) (\<lambda>_ _. prefixed_spec 4 le_value 0 env col (drop (?k + 8) ?bs))) m" for m
    using that by (auto simp: bytes_of_def prefixed_spec_def split: if_splits)
  ultimately have "refines ?enl tail ?b
      (if ?k = 0 then Parsed None ?bs
       else parsed_then (bytes_of (?k + 8) ?bs) (\<lambda>_ bs. prefixed_spec 4 le_value 0 env col bs))
      (if ?k = 0 then Some (Ok None ?b)
       else bulk_then (has_enough (FetchMoreBcpData ?enl True) (?k + 8 + 4) ?b) (\<lambda>_ b.
         long_sized_value env col (count 8 (count ?k b))))"
    using b(1) by (intro refines_if) (simp_all only: refines_simps simp_thms)
  from refines_base [OF this, of b1] show ?case
    by (simp only: b(2) bind.bind_lunit outcome.case Let_def same_advance)
qed (use assms in simp_all)

lemma variant_refines:
  assumes "holds (enlargeStringInfo env) tail bs b" and "\<not> on_stack b"
  shows "refines (enlargeStringInfo env) tail b (prefixed_spec 4 le_value 0 env col bs) (variant_value env col b)"
proof -
  have "refines (enlargeStringInfo env) tail b
      (parsed_then (bytes_of 4 bs) (\<lambda>_ _. prefixed_spec 4 le_value 0 env col bs)) (variant_value env col b)"
    unfolding variant_value_def check_defs
    by (rule row_fetch.refines_bytes) (use assms long_sized_refines in auto)
  then show ?thesis by (simp add: bytes_of_def prefixed_spec_def split: if_splits)
qed

lemma string_refines:
  assumes "holds (enlargeStringInfo env) tail bs b" and "\<not> on_stack b"
  shows "refines (enlargeStringInfo env) tail b
    (if maxLen col = 65535 then plp_spec env col bs else prefixed_spec 2 le_value 65535 env col bs)
    (string_value env col b)"
proof (cases "maxLen col = 65535")
  case True
  with plp_refines [OF assms(1)] show ?thesis by (simp add: string_value_def)
next
  case False
  with string_sized_refines [OF assms] show ?thesis by simp
qed

lemma column_refines:
  assumes "holds (enlargeStringInfo env) tail bs b" and "\<not> on_stack b"
  shows "refines (enlargeStringInfo env) tail b (column_spec env col bs) (column_value env col b)"
  unfolding column_spec_def column_value_def fixed_value_def numeric_value_def Let_def
  by (intro refines_if string_refines text_refines variant_refines plp_refines sized_refines
      byte_sized_refines refines_report [OF assms(1)] assms) (simp add: assms)

lemma row_refines:
  assumes "holds (enlargeStringInfo env) tail bs b" and "\<not> on_stack b"
  shows "refines (enlargeStringInfo env) tail b (row_spec env cols bs) (column_values env cols b)"
  using assms
proof (induction cols arbitrary: bs b)
  case (Cons col cols)
  have "refines (enlargeStringInfo env) tail b1
      (parsed_then (row_spec env cols bs1) (\<lambda>vs bs. Parsed (v # vs) bs))
      (bulk_then (column_values env cols b1) (\<lambda>vs b. Some (Ok (v # vs) b)))"
    if "holds (enlargeStringInfo env) tail bs1 b1" "\<not> on_stack b1" for v bs1 b1
    by (rule refines_then [OF Cons.IH [OF that]]) simp
  with Cons.prems show ?case
    by (auto intro!: refines_then [OF column_refines])
qed simp

subsection \<open>Rows and batches\<close>

text \<open>All rows of a bulk load, up to the DONE token.\<close>

definition shrinks :: "'a parsed \<Rightarrow> byte list \<Rightarrow> bool" where
  "shrinks p bs \<longleftrightarrow> (case p of Parsed _ bs' \<Rightarrow> length bs' \<le> length bs | _ \<Rightarrow> True)"

lemma shrinks_simps [simp]:
  "shrinks (Parsed x bs') bs = (length bs' \<le> length bs)" "shrinks (Bad e) bs" "shrinks Short bs"
  "shrinks (incorrect msg) bs" "shrinks (bytes_of n bs) bs" "shrinks (checked r bs) bs"
  by (simp_all add: shrinks_def incorrect_def bytes_of_def checked_def split: sum.splits)

lemma shrinks_then:
  assumes "shrinks p bs" and "\<And>x bs'. p = Parsed x bs' \<Longrightarrow> shrinks (k x bs') bs'"
  shows "shrinks (parsed_then p k) bs"
proof (cases p)
  case (Parsed x bs')
  with assms(1) assms(2) [OF Parsed] show ?thesis
    by (cases "k x bs'") (simp_all add: shrinks_def)
qed (simp_all add: shrinks_def)

lemma sized_shrinks [simp]: "shrinks (sized_spec env col n bs) bs"
  by (auto simp: sized_spec_def intro!: shrinks_then)

lemma prefixed_shrinks [simp]: "shrinks (prefixed_spec n number null env col bs) bs"
  by (auto simp: prefixed_spec_def intro!: shrinks_then)

lemma chunks_shrinks [simp]: "shrinks (chunks_spec acc bs) bs"
proof (induction acc bs rule: chunks_spec.induct)
  case (1 acc bs)
  show ?case
    by (subst chunks_spec.simps) (auto intro!: shrinks_then 1)
qed

lemma shrinks_if: "shrinks p bs \<Longrightarrow> shrinks q bs \<Longrightarrow> shrinks (if c then p else q) bs"
  by simp

lemma plp_shrinks [simp]: "shrinks (plp_spec env col bs) bs"
  unfolding plp_spec_def by (intro shrinks_then shrinks_if) simp_all

lemma column_shrinks [simp]: "shrinks (column_spec env col bs) bs"
  unfolding column_spec_def Let_def by (intro shrinks_if shrinks_then) simp_all

lemma row_shrinks [simp]: "shrinks (row_spec env cols bs) bs"
  by (induction cols arbitrary: bs) (auto intro!: shrinks_then)

lemma row_spec_length: "row_spec env cols bs = Parsed row bs' \<Longrightarrow> length bs' \<le> length bs"
  using row_shrinks [of env cols bs] by simp

function rows_spec ::
  "('d, 't) bulk_env \<Rightarrow> BulkLoadColMetaData list \<Rightarrow> byte list \<Rightarrow> 'd option list list parsed" where
  "rows_spec env cols bs =
     parsed_then (bytes_of 1 bs) (\<lambda>v bs'.
     if hd v = TDS_TOKEN_ROW
     then parsed_then (row_spec env cols bs') (\<lambda>row bs.
          parsed_then (rows_spec env cols bs) (\<lambda>rows bs. Parsed (row # rows) bs))
     else if hd v = TDS_TOKEN_DONE then Parsed [] bs
     else incorrect ''Row %d, unexpected token encountered processing the request. %d'')"
  by pat_completeness auto
termination
  by (relation "measure (\<lambda>(env, cols, bs). length bs)")
    (auto simp: bytes_of_def neq_Nil_conv dest!: row_spec_length split: if_splits)

declare rows_spec.simps [simp del]

definition prepend :: "'a list \<Rightarrow> 'a list parsed \<Rightarrow> 'a list parsed" where
  "prepend xs p = parsed_then p (\<lambda>ys bs. Parsed (xs @ ys) bs)"

lemma prepend_simps [simp]:
  "prepend [] p = p" "prepend xs (prepend ys p) = prepend (xs @ ys) p"
  "prepend xs (Parsed ys bs) = Parsed (xs @ ys) bs" "prepend xs (Bad e) = Bad e" "prepend xs Short = Short"
  by (cases p; simp add: prepend_def)+

lemma rows_spec_Nil: "rows_spec env cols [] = Short"
  by (subst rows_spec.simps) (simp add: bytes_of_def)

lemma rows_spec_Cons:
  "rows_spec env cols (t # bs) =
     (if t = TDS_TOKEN_ROW
      then parsed_then (row_spec env cols bs) (\<lambda>row bs. prepend [row] (rows_spec env cols bs))
      else if t = TDS_TOKEN_DONE then Parsed [] (t # bs)
      else incorrect ''Row %d, unexpected token encountered processing the request. %d'')"
  by (subst rows_spec.simps) (simp add: bytes_of_def prepend_def)

text \<open>What a batch makes of the rows: some of them, an error, or the bytes end too early.\<close>

definition takes_rows ::
  "('d, 't) bulk_env \<Rightarrow> BulkLoadColMetaData list \<Rightarrow> byte list \<Rightarrow> byte list \<Rightarrow>
     'd option list list outcome option \<Rightarrow> ('d option list list \<Rightarrow> byte list \<Rightarrow> bulk \<Rightarrow> bool) \<Rightarrow> bool" where
  "takes_rows env cols tail bs m post \<longleftrightarrow>
     rows_spec env cols bs = Short \<or>
     (\<exists>e bs' b'. m = Some (Raised e b') \<and> rows_spec env cols bs = Bad e \<and> holds (enlargeStringInfo env) tail bs' b') \<or>
     (\<exists>rows bs' b'. m = Some (Ok rows b') \<and> holds (enlargeStringInfo env) tail bs' b' \<and> \<not> on_stack b' \<and>
        1 \<le> length (rest b') \<and> rowCount b' = int (length rows) \<and> (rows \<noteq> [] \<longrightarrow> length bs' < length bs) \<and>
        rows_spec env cols bs = prepend rows (rows_spec env cols bs') \<and> post rows bs' b')"

lemma takes_rows_mono:
  assumes "takes_rows env cols tail bs m post" and "m' = m"
    and "\<And>rows bs' b'. post rows bs' b' \<Longrightarrow> post' rows bs' b'"
  shows "takes_rows env cols tail bs m' post'"
  using assms unfolding takes_rows_def by blast

text \<open>One row, and the byte after it.\<close>

lemma row_round:
  assumes "holds (enlargeStringInfo env) tail (TDS_TOKEN_ROW # bs) b" and "\<not> on_stack b"
    and "1 \<le> length (rest b)" and "batch_open env b"
    and "0 \<le> rowCount b" and "int32 (insert_bulk_rows_per_batch env)"
  shows "case row_spec env cols bs of
      Parsed row bs' \<Rightarrow> bs' = [] \<or> (\<exists>b'. row_loop env cols acc b = row_loop env cols (acc @ [row]) b' \<and>
        holds (enlargeStringInfo env) tail bs' b' \<and> \<not> on_stack b' \<and> 1 \<le> length (rest b') \<and>
        rowCount b' = rowCount b + 1)
    | Bad e \<Rightarrow> \<exists>bs' b'. row_loop env cols acc b = Some (Raised e b') \<and> holds (enlargeStringInfo env) tail bs' b'
    | Short \<Rightarrow> True"
proof -
  let ?enl = "enlargeStringInfo env" and ?start = "b\<lparr>rowCount := to_int32 (rowCount b + 1)\<rparr>"
  let ?b = "count 1 ?start"
  have "in_s 32 (rowCount b + 1)"
    using assms(4-6) by (auto simp: batch_open_def in_s_def)
  then have rc: "rowCount ?b = rowCount b + 1" by simp
  have "holds ?enl tail (TDS_TOKEN_ROW # bs) ?start" "1 \<le> length (rest ?start)"
    using assms(1,3) by (simp_all add: holds_def bulk_at_def unread_def rest_def)
  from holds_advance(1) [OF this] have b: "holds ?enl tail bs ?b" "\<not> on_stack ?b"
    using assms(2) by simp_all
  have loop: "row_loop env cols acc b = bulk_then (column_values env cols ?b) (\<lambda>row b.
      bulk_then (has_enough (FetchMoreBcpData ?enl True) 1 b) (\<lambda>_ b. row_loop env cols (acc @ [row]) b))"
    using peek_holds [OF assms(1,3)] assms(4)
    by (subst row_loop.simps) (simp add: CheckMessageHasEnoughBytesToReadRows_def)
  show ?thesis
  proof (cases "row_spec env cols bs")
    case (Parsed row bs')
    with row_refines [OF b, of cols] rc b(2) obtain b2 where
      b2: "column_values env cols ?b = Some (Ok row b2)" "holds ?enl tail bs' b2" "\<not> on_stack b2"
        "rowCount b2 = rowCount b + 1"
      by (auto simp: refines_def)
    have "\<exists>b'. row_loop env cols acc b = row_loop env cols (acc @ [row]) b' \<and>
        holds ?enl tail bs' b' \<and> \<not> on_stack b' \<and> 1 \<le> length (rest b') \<and> rowCount b' = rowCount b + 1"
      if "bs' \<noteq> []"
    proof -
      have "1 \<le> length bs'" using that by (cases bs') simp_all
      then obtain b3 where b3: "has_enough (FetchMoreBcpData ?enl True) 1 b2 = Some (Ok () b3)"
        "holds ?enl tail bs' b3" "1 \<le> length (rest b3)" "same_batch b2 b3"
        using row_fetch.enough [OF b2(2)] b2(3) by blast
      with loop b2 show ?thesis by (intro exI [of _ b3]) (simp add: same_batch_def)
    qed
    with Parsed show ?thesis by auto
  next
    case (Bad e)
    with row_refines [OF b, of cols] loop show ?thesis by (auto simp: refines_def)
  qed simp
qed

lemma row_loop_ok:
  assumes "holds (enlargeStringInfo env) tail bs b" and "\<not> on_stack b" and "1 \<le> length (rest b)"
    and "rowCount b = int (length acc)" and "int32 (insert_bulk_rows_per_batch env)"
    and "if acc = [] then bs = bs0 else length bs < length bs0"
    and "rows_spec env cols bs0 = prepend acc (rows_spec env cols bs)"
  shows "takes_rows env cols tail bs0 (row_loop env cols acc b) (\<lambda>rows bs' b'.
    (hd bs' = TDS_TOKEN_ROW \<longrightarrow> \<not> batch_open env b') \<and>
    (rows = [] \<longrightarrow> bs' = bs0 \<and> acc = [] \<and> b' = b))"
  using assms
proof (induction "length bs" arbitrary: bs b acc rule: less_induct)
  case less
  obtain t bs1 where bs: "bs = t # bs1"
    using holds_rest(5) [OF less.prems(1)] less.prems(3) by (cases bs) auto
  show ?case
  proof (cases "t = TDS_TOKEN_ROW \<and> batch_open env b")
    case False
    then have "row_loop env cols acc b = Some (Ok acc b)"
      using peek_holds [OF less.prems(1,3)] bs by (subst row_loop.simps) auto
    with False less.prems bs show ?thesis
      unfolding takes_rows_def by (intro disjI2 exI [of _ acc] exI [of _ bs] exI [of _ b]) auto
  next
    case True
    then have spec: "rows_spec env cols bs0 =
        prepend acc (parsed_then (row_spec env cols bs1) (\<lambda>row bs. prepend [row] (rows_spec env cols bs)))"
      using less.prems(7) by (simp add: bs rows_spec_Cons)
    have round: "case row_spec env cols bs1 of
      Parsed row bs' \<Rightarrow> bs' = [] \<or> (\<exists>b'. row_loop env cols acc b = row_loop env cols (acc @ [row]) b' \<and>
        holds (enlargeStringInfo env) tail bs' b' \<and> \<not> on_stack b' \<and> 1 \<le> length (rest b') \<and>
        rowCount b' = rowCount b + 1)
      | Bad e \<Rightarrow> \<exists>bs' b'. row_loop env cols acc b = Some (Raised e b') \<and> holds (enlargeStringInfo env) tail bs' b'
      | Short \<Rightarrow> True"
      using True bs less.prems(1-5) by (intro row_round) simp_all
    show ?thesis
    proof (cases "row_spec env cols bs1")
      case (Parsed row bs2)
      have "takes_rows env cols tail bs0 (row_loop env cols acc b) (\<lambda>rows bs' b'.
          (hd bs' = TDS_TOKEN_ROW \<longrightarrow> \<not> batch_open env b') \<and> (rows = [] \<longrightarrow> bs' = bs0 \<and> acc = [] \<and> b' = b))"
        if "bs2 \<noteq> []"
      proof -
        from that Parsed round obtain b3 where b3: "row_loop env cols acc b = row_loop env cols (acc @ [row]) b3"
          "holds (enlargeStringInfo env) tail bs2 b3" "\<not> on_stack b3" "1 \<le> length (rest b3)"
          "rowCount b3 = rowCount b + 1"
          by auto
        have "length bs2 < length bs" using row_spec_length [OF Parsed] bs by simp
        then have "takes_rows env cols tail bs0 (row_loop env cols (acc @ [row]) b3) (\<lambda>rows bs' b'.
            (hd bs' = TDS_TOKEN_ROW \<longrightarrow> \<not> batch_open env b') \<and>
            (rows = [] \<longrightarrow> bs' = bs0 \<and> acc @ [row] = [] \<and> b' = b3))"
          using less.prems(4-6) b3(2-5) spec Parsed
          by (intro less.hyps [of bs2]) (simp_all split: if_splits)
        from takes_rows_mono [OF this b3(1)] show ?thesis by simp
      qed
      with Parsed spec show ?thesis by (cases "bs2 = []") (simp_all add: takes_rows_def rows_spec_Nil)
    qed (use round spec in \<open>auto simp: takes_rows_def\<close>)
  qed
qed

text \<open>The end of a batch. At the DONE token all packets have been read.\<close>

lemma unread_more:
  assumes "bulk_at enl ps tail b" and "\<not> TdsGetRecvPacketEomStatus (comm b)"
  shows "length (rest b) + 1 \<le> length (unread ps b)"
proof -
  have "ps \<noteq> []" "\<forall>p \<in> set ps. p \<noteq> []"
    using assms by (auto simp: bulk_at_def pending_packets_def)
  then show ?thesis by (cases ps) (auto simp: unread_def Suc_le_eq)
qed

lemma done_fetch:
  assumes "holds enl tail bs b" and "\<not> on_stack b" and "1 \<le> length (rest b)" and "length bs \<le> 13"
    and "\<not> TdsGetRecvPacketEomStatus (comm b)"
  shows "\<exists>b'. has_enough (FetchMoreBcpData enl True) (length (rest b) + 1) b = Some (Ok () b') \<and>
    holds enl tail bs b' \<and> TdsGetRecvPacketEomStatus (comm b') \<and> same_batch b b' \<and>
    length (rest b) < length (rest b')"
proof -
  obtain ps where ps: "bulk_at enl ps tail b" "unread ps b = bs"
    using assms(1) by (auto simp: holds_def)
  have full: "\<forall>p \<in> set (butlast ps). 13 \<le> length p"
    using ps(1) by (simp add: bulk_at_def pending_packets_def)
  obtain qs ps' b' where b': "ps = qs @ ps'" "FetchMoreBcpData enl True (length (rest b) + 1) b = Some (Ok () b')"
    "bulk_at enl ps' tail b'" "rest b' = rest b @ concat qs" "length (rest b) + 1 \<le> length (rest b')" "same_batch b b'"
    using row_fetch.fetch_ok [OF ps(1) _ unread_more [OF ps(1) assms(5)]] assms(2) by auto
  then have "ps' = []"
    using assms(3,4) ps(2) full by (cases qs) (auto simp: unread_def butlast_append split: if_splits)
  with b'(1,3,4) ps(2) have "holds enl tail bs b'" "TdsGetRecvPacketEomStatus (comm b')"
    by (auto simp: holds_def unread_def bulk_at_def pending_packets_def)
  with b'(2,5,6) holds_rest(1) [OF assms(1)] show ?thesis
    by (intro exI [of _ b']) (simp add: has_enough_def)
qed

lemma done_more:
  assumes "holds enl tail bs b" and "\<not> on_stack b" and "\<not> TdsGetRecvPacketEomStatus (comm b)"
  shows "\<exists>b'. has_enough (FetchMoreBcpData enl True) (length (rest b) + 1) b = Some (Ok () b') \<and>
    holds enl tail bs b' \<and> same_batch b b' \<and> 1 \<le> length (rest b')"
proof -
  obtain ps where ps: "bulk_at enl ps tail b" "unread ps b = bs"
    using assms(1) by (auto simp: holds_def)
  then have "length (rest b) + 1 \<le> length bs"
    using unread_more [OF ps(1) assms(3)] by simp
  from row_fetch.enough [OF assms(1) _ this] assms(2) obtain b' where
    "has_enough (FetchMoreBcpData enl True) (length (rest b) + 1) b = Some (Ok () b')"
    "holds enl tail bs b'" "length (rest b) + 1 \<le> length (rest b')" "same_batch b b'"
    by blast
  then show ?thesis by (intro exI [of _ b']) simp
qed

lemma check_done_ok:
  assumes "holds (enlargeStringInfo env) tail bs b" and "\<not> on_stack b" and "1 \<le> length (rest b)"
    and "hd bs = TDS_TOKEN_ROW \<longrightarrow> \<not> batch_open env b"
  shows "(\<exists>e. check_done env b = Some (Raised e b) \<and> rows_spec env cols bs = Bad e) \<or>
    (\<exists>b'. check_done env b = Some (Ok () b') \<and> holds (enlargeStringInfo env) tail bs b' \<and> same_batch b b' \<and>
       1 \<le> length (rest b') \<and>
       (batch_open env b \<longrightarrow> rows_spec env cols bs = Parsed [] bs \<and>
          (length bs \<le> 13 \<longrightarrow> TdsGetRecvPacketEomStatus (comm b'))))"
proof (cases "batch_open env b")
  case False
  with assms show ?thesis by (simp add: check_done_def same_batch_def)
next
  case True
  note b = holds_rest [OF assms(1)]
  obtain t bs1 where bs: "bs = t # bs1"
    using b(5) assms(3) by (cases bs) auto
  have t: "peek 1 b = Some (Ok [t] b)" "t \<noteq> TDS_TOKEN_ROW"
    using peek_holds [OF assms(1,3)] bs assms(4) True by simp_all
  show ?thesis
  proof (cases "t = TDS_TOKEN_DONE")
    case False
    with t True bs have "check_done env b = stream_incorrect ''Row %d, unexpected token encountered processing the request. %d'' b"
      by (simp add: check_done_def)
    with False t(2) bs show ?thesis
      by (simp add: rows_spec_Cons incorrect_def stream_incorrect_def violation_def)
  next
    case done_token: True
    have spec: "rows_spec env cols bs = Parsed [] bs"
      using done_token t(2) by (simp add: bs rows_spec_Cons)
    have "size_t_add (length (rest b)) 1 = length (rest b) + 1"
      using b(2,3) by (intro size_t_small) (simp add: MaxAllocSize_def)
    then have check: "check_done env b =
        (if length (rest b) < 13 \<and> \<not> TdsGetRecvPacketEomStatus (comm b)
         then has_enough (FetchMoreBcpData (enlargeStringInfo env) True) (length (rest b) + 1) b
         else Some (Ok () b))"
      using t(1) True done_token b(1) by (simp add: check_done_def CheckMessageHasEnoughBytesToReadRows_def Let_def)
    have "length (rest b) \<le> length bs" using b(5) by (metis length_take min.cobounded1)
    then have all: "TdsGetRecvPacketEomStatus (comm b)"
      if "\<not> length (rest b) < 13" "length bs \<le> 13"
      using that assms(1) unread_more [of "enlargeStringInfo env" _ tail b] by (fastforce simp: holds_def)
    consider "length (rest b) < 13 \<and> \<not> TdsGetRecvPacketEomStatus (comm b)" "length bs \<le> 13"
      | "length (rest b) < 13 \<and> \<not> TdsGetRecvPacketEomStatus (comm b)" "\<not> length bs \<le> 13"
      | "\<not> (length (rest b) < 13 \<and> \<not> TdsGetRecvPacketEomStatus (comm b))"
      by blast
    then show ?thesis
    proof cases
      case 1
      with done_fetch [OF assms(1-3)] check spec show ?thesis by auto
    next
      case 2
      with done_more [OF assms(1,2)] check spec show ?thesis by auto
    next
      case 3
      with check spec assms(1,3) all show ?thesis by (auto simp: same_batch_def)
    qed
  qed
qed

text \<open>The limits of a batch let at least one row in.\<close>

definition limits_ok :: "('d, 't) bulk_env \<Rightarrow> bool" where
  "limits_ok env \<longleftrightarrow> int32 (insert_bulk_rows_per_batch env) \<and> 0 < insert_bulk_rows_per_batch env \<and>
     0 < to_int32 (insert_bulk_kilobytes_per_batch env * 1024)"

lemma SetBulkLoadRowData_ok:
  assumes "holds (enlargeStringInfo env) tail bs b" and "\<not> on_stack b" and "limits_ok env"
  shows "takes_rows env cols tail bs (SetBulkLoadRowData env cols b) (\<lambda>rows bs' b'.
    rows = [] \<longrightarrow> rows_spec env cols bs' = Parsed [] bs' \<and>
      (length bs' \<le> 13 \<longrightarrow> TdsGetRecvPacketEomStatus (comm b')))"
proof (cases "bs = []")
  case True
  then show ?thesis by (simp add: takes_rows_def rows_spec_Nil)
next
  case False
  let ?enl = "enlargeStringInfo env" and ?start = "b\<lparr>rowCount := 0, currentBatchSize := 0\<rparr>"
  have "holds ?enl tail bs ?start" "1 \<le> length bs"
    using assms(1) False by (simp_all add: holds_def bulk_at_def unread_def rest_def Suc_le_eq)
  then obtain b1 where b1: "has_enough (FetchMoreBcpData ?enl True) 1 ?start = Some (Ok () b1)"
    "holds ?enl tail bs b1" "1 \<le> length (rest b1)" "same_batch ?start b1"
    using row_fetch.enough [of ?enl tail bs ?start 1] assms(2) by auto
  have batch1: "\<not> on_stack b1" "rowCount b1 = 0" "currentBatchSize b1 = 0" "batch_open env b1"
    using b1(4) assms(2,3) by (simp_all add: same_batch_def batch_open_def limits_ok_def)
  have "takes_rows env cols tail bs (row_loop env cols [] b1) (\<lambda>rows bs' b'.
      (hd bs' = TDS_TOKEN_ROW \<longrightarrow> \<not> batch_open env b') \<and> (rows = [] \<longrightarrow> bs' = bs \<and> b' = b1))"
    using row_loop_ok [OF b1(2) batch1(1) b1(3), of "[]" bs cols] batch1(2) assms(3) by (simp add: limits_ok_def)
  then consider "rows_spec env cols bs = Short"
    | e bs' b' where "row_loop env cols [] b1 = Some (Raised e b')" "rows_spec env cols bs = Bad e" "holds ?enl tail bs' b'"
    | rows bs2 b2 where "row_loop env cols [] b1 = Some (Ok rows b2)" "holds ?enl tail bs2 b2" "\<not> on_stack b2"
      "1 \<le> length (rest b2)" "rowCount b2 = int (length rows)" "rows \<noteq> [] \<longrightarrow> length bs2 < length bs"
      "rows_spec env cols bs = prepend rows (rows_spec env cols bs2)"
      "hd bs2 = TDS_TOKEN_ROW \<longrightarrow> \<not> batch_open env b2" "rows = [] \<longrightarrow> b2 = b1"
    unfolding takes_rows_def by blast
  then show ?thesis
  proof cases
    case 1
    then show ?thesis by (simp add: takes_rows_def)
  next
    case (2 e bs' b')
    with b1(1) show ?thesis
      by (auto simp: takes_rows_def SetBulkLoadRowData_def CheckMessageHasEnoughBytesToReadRows_def)
  next
    case (3 rows bs2 b2)
    have "has_enough (FetchMoreBcpData ?enl True) 1 b2 = Some (Ok () b2)"
      using holds_rest(1) [OF 3(2)] 3(4) by (auto simp: has_enough_def)
    then have set: "SetBulkLoadRowData env cols b = bulk_then (check_done env b2) (\<lambda>_ b. Some (Ok rows b))"
      using b1(1) 3(1) by (simp add: SetBulkLoadRowData_def CheckMessageHasEnoughBytesToReadRows_def)
    have "batch_open env b2" if "rows = []" using that 3(9) batch1(4) by simp
    with check_done_ok [OF 3(2,3,4,8), of cols] consider
      e where "check_done env b2 = Some (Raised e b2)" "rows_spec env cols bs2 = Bad e"
      | b' where "check_done env b2 = Some (Ok () b')" "holds ?enl tail bs2 b'" "same_batch b2 b'" "1 \<le> length (rest b')"
        "rows = [] \<longrightarrow> rows_spec env cols bs2 = Parsed [] bs2 \<and>
          (length bs2 \<le> 13 \<longrightarrow> TdsGetRecvPacketEomStatus (comm b'))"
      by blast
    then show ?thesis
    proof cases
      case (1 e)
      with set 3(2,7) show ?thesis unfolding takes_rows_def by auto
    next
      case (2 b')
      with set 3(3,5-7) show ?thesis
        unfolding takes_rows_def
        by (intro disjI2 exI [of _ rows] exI [of _ bs2] exI [of _ b']) (simp add: same_batch_def)
    qed
  qed
qed

subsection \<open>The whole request\<close>

text \<open>The connection is at the next request.\<close>

definition next_request :: "byte list \<Rightarrow> tds_comm \<Rightarrow> bool" where
  "next_request tail c \<longleftrightarrow> at_boundary c \<and> quiet c \<and> stream c = tail"

lemma cleanup_ok:
  assumes "holds enl tail bs b"
  shows "\<exists>b'. CleanupBCPDuringError e b = Some (Raised e b') \<and> next_request tail (comm b')"
proof -
  obtain ps where ps: "pending_packets ps tail (comm b)"
    using assms by (auto simp: holds_def bulk_at_def)
  then have c: "at_boundary (comm b)" "quiet (comm b)" "TdsGetRecvPacketEomStatus (comm b) = (ps = [])"
    by (simp_all add: pending_packets_def)
  show ?thesis
  proof (cases "ps = []")
    case True
    with ps c show ?thesis
      by (intro exI [of _ "TdsResetBcpOffset b"])
        (simp add: CleanupBCPDuringError_def TdsResetBcpOffset_def next_request_def pending_packets_def Let_def)
  next
    case False
    then have "\<forall>p \<in> set (last ps # butlast ps). p \<noteq> [] \<and> length p + 8 \<le> TdsBufferSize (comm b)"
      "stream (comm b) = concat (map (packet TDS_BULK_LOAD 0) (butlast ps)) @
         packet TDS_BULK_LOAD TDS_PACKET_HEADER_STATUS_EOM (last ps) @ tail"
      using ps by (auto simp: pending_packets_def bulk_packets_def dest: in_set_butlastD)
    from discard_ok [OF c(1,2) this(2,1)] obtain c' where
      c': "TdsDiscardAllPendingBcpRequest (comm b) = ret 1 c'" "at_boundary c'" "stream c' = tail" "kept (comm b) c'"
      by blast
    with False c quiet_kept [OF c(2) c'(4)] show ?thesis
      by (intro exI [of _ "(TdsResetBcpOffset b)\<lparr>comm := c'\<rparr>"])
        (simp add: CleanupBCPDuringError_def TdsResetBcpOffset_def next_request_def Let_def)
  qed
qed

text \<open>The batches are handed over one after the other, and an empty one at the end.\<close>

primrec hand_over ::
  "('d, 't) bulk_env \<Rightarrow> nat \<Rightarrow> 'd option list list list \<Rightarrow> nat \<times> 't \<Rightarrow> (nat \<times> 't) result" where
  "hand_over env ncols [] s = Inr s"
| "hand_over env ncols (rows # batches) s =
     and_then (bulk_load_callback env (if rows \<noteq> [] then ncols else 0) (int (length rows)) (concat rows) (snd s))
       (\<lambda>(n, t). hand_over env ncols batches (size_t_add (fst s) n, t))"

lemma batch_step:
  fixes env :: "('d, 't) bulk_env"
  assumes "SetBulkLoadRowData env cols b = Some (Ok rows b1)" and "rowCount b1 = int (length rows)"
    and "holds (enlargeStringInfo env) tail bs b1"
  shows "case bulk_load_callback env (if rows \<noteq> [] then length cols else 0) (int (length rows)) (concat rows) t of
      Inl e \<Rightarrow> \<exists>b'. batch_loop env cols r t b = Some (Raised e b') \<and> next_request tail (comm b')
    | Inr (n, t') \<Rightarrow> batch_loop env cols r t b =
        (if rows \<noteq> [] then batch_loop env cols (size_t_add r n) t' b1
         else Some (Ok (size_t_add r n, t') (TdsResetBcpOffset b1)))"
proof (cases "bulk_load_callback env (if rows \<noteq> [] then length cols else 0) (int (length rows)) (concat rows) t")
  case (Inl e)
  obtain b' where "CleanupBCPDuringError e b1 = (Some (Raised e b') :: (nat \<times> 't) outcome option)"
    "next_request tail (comm b')"
    using cleanup_ok [OF assms(3)] by blast
  with Inl assms(1,2) show ?thesis
    by (subst batch_loop.simps) (simp add: attempt_def)
next
  case (Inr s)
  with assms(1,2) show ?thesis
    by (subst batch_loop.simps) (simp add: attempt_def split: prod.split)
qed

lemma batch_loop_ok:
  assumes "holds (enlargeStringInfo env) tail bs b" and "\<not> on_stack b" and "limits_ok env"
    and "rows_spec env cols bs = Parsed rows done_bytes" and "length done_bytes \<le> 13"
  shows "\<exists>batches b'. concat batches = rows \<and> [] \<notin> set batches \<and> next_request tail (comm b') \<and>
    batch_loop env cols r t b =
      (case hand_over env (length cols) (batches @ [[]]) (r, t) of
         Inl e \<Rightarrow> Some (Raised e b') | Inr s \<Rightarrow> Some (Ok s b'))"
  using assms
proof (induction "length bs" arbitrary: bs b rows r t rule: less_induct)
  case less
  let ?enl = "enlargeStringInfo env"
  from SetBulkLoadRowData_ok [OF less.prems(1-3), of cols] less.prems(4) obtain rows1 bs1 b1 where
    set: "SetBulkLoadRowData env cols b = Some (Ok rows1 b1)" and b1: "holds ?enl tail bs1 b1" "\<not> on_stack b1"
      "rowCount b1 = int (length rows1)" "rows1 \<noteq> [] \<longrightarrow> length bs1 < length bs"
      "Parsed rows done_bytes = prepend rows1 (rows_spec env cols bs1)"
      "rows1 = [] \<longrightarrow> rows_spec env cols bs1 = Parsed [] bs1 \<and>
        (length bs1 \<le> 13 \<longrightarrow> TdsGetRecvPacketEomStatus (comm b1))"
    by (auto simp: takes_rows_def)
  note step = batch_step [OF set b1(3,1), where t = t and r = r]
  show ?case
  proof (cases "bulk_load_callback env (if rows1 \<noteq> [] then length cols else 0) (int (length rows1)) (concat rows1) t")
    case (Inl e)
    with step obtain b' where "batch_loop env cols r t b = Some (Raised e b')" "next_request tail (comm b')"
      by auto
    moreover have "\<exists>batches. concat batches = rows \<and> [] \<notin> set batches \<and>
        hand_over env (length cols) (batches @ [[]]) (r, t) = Inl e"
    proof (cases "rows1 = []")
      case True
      with b1(5,6) Inl show ?thesis by (intro exI [of _ "[]"]) simp
    next
      case False
      obtain ys where "rows_spec env cols bs1 = Parsed ys done_bytes" "rows = rows1 @ ys"
        using b1(5) by (cases "rows_spec env cols bs1") simp_all
      with False Inl show ?thesis
        by (intro exI [of _ "rows1 # (if ys = [] then [] else [ys])"]) simp
    qed
    ultimately show ?thesis by fastforce
  next
    case (Inr s)
    obtain n t' where s: "s = (n, t')" by (cases s)
    show ?thesis
    proof (cases "rows1 = []")
      case True
      then have "rows = []" "done_bytes = bs1" "TdsGetRecvPacketEomStatus (comm b1)"
        using b1(5,6) less.prems(5) by simp_all
      then have "next_request tail (comm (TdsResetBcpOffset b1))"
        using b1(1) by (auto simp: holds_def bulk_at_def pending_packets_def next_request_def TdsResetBcpOffset_def)
      with True step Inr s \<open>rows = []\<close> show ?thesis
        by (intro exI [of _ "[]"] exI [of _ "TdsResetBcpOffset b1"]) simp
    next
      case False
      obtain ys where ys: "rows_spec env cols bs1 = Parsed ys done_bytes" "rows = rows1 @ ys"
        using b1(5) by (cases "rows_spec env cols bs1") simp_all
      from less.hyps [OF _ b1(1,2) less.prems(3) ys(1) less.prems(5), of "size_t_add r n" t'] b1(4) False
      obtain batches b' where IH: "concat batches = ys" "[] \<notin> set batches" "next_request tail (comm b')"
        "batch_loop env cols (size_t_add r n) t' b1 =
          (case hand_over env (length cols) (batches @ [[]]) (size_t_add r n, t') of
             Inl e \<Rightarrow> Some (Raised e b') | Inr s \<Rightarrow> Some (Ok s b'))"
        by blast
      with False step Inr s ys(2) show ?thesis
        by (intro exI [of _ "rows1 # batches"] exI [of _ b']) simp
    qed
  qed
qed

lemma prepend_Bad: "prepend xs p = Bad e \<longleftrightarrow> p = Bad e" "Bad e = prepend xs p \<longleftrightarrow> p = Bad e"
  by (cases p; auto)+

lemma batch_loop_bad:
  assumes "holds (enlargeStringInfo env) tail bs b" and "\<not> on_stack b" and "limits_ok env"
    and "rows_spec env cols bs = Bad e"
  shows "\<exists>batches b'. [] \<notin> set batches \<and> next_request tail (comm b') \<and>
    batch_loop env cols r t b =
      Some (Raised (case hand_over env (length cols) batches (r, t) of Inl e' \<Rightarrow> e' | Inr _ \<Rightarrow> e) b')"
  using assms
proof (induction "length bs" arbitrary: bs b r t rule: less_induct)
  case less
  let ?enl = "enlargeStringInfo env"
  from SetBulkLoadRowData_ok [OF less.prems(1-3), of cols] less.prems(4) consider
    bs' b' where "SetBulkLoadRowData env cols b = Some (Raised e b')" "holds ?enl tail bs' b'"
    | rows bs1 b1 where "SetBulkLoadRowData env cols b = Some (Ok rows b1)" "holds ?enl tail bs1 b1" "\<not> on_stack b1"
      "rowCount b1 = int (length rows)" "rows \<noteq> []" "length bs1 < length bs" "rows_spec env cols bs1 = Bad e"
    by (fastforce simp: takes_rows_def prepend_Bad)
  then show ?case
  proof cases
    case (1 bs' b')
    obtain b2 where "CleanupBCPDuringError e b' = (Some (Raised e b2) :: 'a option list list outcome option)"
      "next_request tail (comm b2)"
      using cleanup_ok [OF 1(2)] by blast
    with 1(1) show ?thesis
      by (intro exI [of _ "[]"] exI [of _ b2]) (subst batch_loop.simps, simp)
  next
    case (2 rows bs1 b1)
    note step = batch_step [OF 2(1,4,2), where t = t and r = r]
    show ?thesis
    proof (cases "bulk_load_callback env (length cols) (int (length rows)) (concat rows) t")
      case (Inl e')
      with step 2(5) show ?thesis by (auto intro!: exI [of _ "[rows]"])
    next
      case (Inr s)
      obtain n t' where s: "s = (n, t')" by (cases s)
      from less.hyps [OF 2(6,2,3) less.prems(3) 2(7), of "size_t_add r n" t'] obtain batches b' where
        IH: "[] \<notin> set batches" "next_request tail (comm b')"
          "batch_loop env cols (size_t_add r n) t' b1 =
            Some (Raised (case hand_over env (length cols) batches (size_t_add r n, t') of Inl e' \<Rightarrow> e' | Inr _ \<Rightarrow> e) b')"
        by blast
      with step Inr s 2(5) show ?thesis
        by (intro exI [of _ "rows # batches"] exI [of _ b']) simp
    qed
  qed
qed

subsection \<open>Metadata\<close>

definition table_name_spec :: "byte list \<Rightarrow> unit parsed" where
  "table_name_spec bs =
     parsed_then (bytes_of 2 bs) (\<lambda>v bs. parsed_then (bytes_of (le_value v * 2) bs) (\<lambda>_ bs. Parsed () bs))"

definition type_info_spec ::
  "('d, 't) bulk_env \<Rightarrow> BulkLoadColMetaData \<Rightarrow> byte list \<Rightarrow> BulkLoadColMetaData parsed" where
  "type_info_spec env col bs =
     (let t = columnTdsType col; sx = char_signed env
      in if t \<in> {TDS_TYPE_INTEGER, TDS_TYPE_BIT, TDS_TYPE_FLOAT, TDS_TYPE_MONEYN, TDS_TYPE_DATETIMEN,
                TDS_TYPE_UNIQUEIDENTIFIER, TDS_TYPE_XML}
         then parsed_then (bytes_of 1 bs) (\<lambda>v bs. Parsed (col\<lparr>maxLen := char_value sx (v ! 0)\<rparr>) bs)
         else if t \<in> {TDS_TYPE_DECIMALN, TDS_TYPE_NUMERICN}
         then parsed_then (bytes_of 3 bs) (\<lambda>v bs.
              Parsed (col\<lparr>maxLen := char_value sx (v ! 0), precision := v ! 1, scale := v ! 2\<rparr>) bs)
         else if t \<in> {TDS_TYPE_CHAR, TDS_TYPE_VARCHAR, TDS_TYPE_NCHAR, TDS_TYPE_NVARCHAR}
         then parsed_then (bytes_of 7 bs) (\<lambda>v bs.
              Parsed (col\<lparr>maxLen := le_value (take 2 v), sortId := v ! 6,
                          encoding := TdsGetEncoding env (le_value (take 4 (drop 2 v)))\<rparr>) bs)
         else if t \<in> {TDS_TYPE_TEXT, TDS_TYPE_NTEXT}
         then parsed_then (bytes_of 4 bs) (\<lambda>m bs.
              parsed_then (bytes_of 5 bs) (\<lambda>v bs.
              parsed_then (table_name_spec bs) (\<lambda>_ bs.
              Parsed (col\<lparr>maxLen := le_value m, sortId := v ! 4,
                          encoding := TdsGetEncoding env (le_value (take 4 v))\<rparr>) bs)))
         else if t = TDS_TYPE_IMAGE
         then parsed_then (bytes_of 4 bs) (\<lambda>m bs.
              parsed_then (table_name_spec bs) (\<lambda>_ bs. Parsed (col\<lparr>maxLen := le_value m\<rparr>) bs))
         else if t = TDS_TYPE_DATETIME2
         then parsed_then (bytes_of 1 bs) (\<lambda>v bs. Parsed (col\<lparr>scale := v ! 0, maxLen := 8\<rparr>) bs)
         else if t = TDS_TYPE_TIME
         then parsed_then (bytes_of 1 bs) (\<lambda>v bs. Parsed (col\<lparr>scale := v ! 0, maxLen := 5\<rparr>) bs)
         else if t = TDS_TYPE_DATETIMEOFFSET
         then parsed_then (bytes_of 1 bs) (\<lambda>v bs. Parsed (col\<lparr>scale := v ! 0, maxLen := 10\<rparr>) bs)
         else if t \<in> {TDS_TYPE_BINARY, TDS_TYPE_VARBINARY}
         then parsed_then (bytes_of 2 bs) (\<lambda>v bs. Parsed (col\<lparr>maxLen := le_value v\<rparr>) bs)
         else if t = TDS_TYPE_DATE then Parsed (col\<lparr>maxLen := 3\<rparr>) bs
         else if t = TDS_TYPE_SQLVARIANT
         then parsed_then (bytes_of 4 bs) (\<lambda>v bs. Parsed (col\<lparr>maxLen := le_value v\<rparr>) bs)
         else case variant_info t of
                Some (t', n) \<Rightarrow> Parsed (col\<lparr>columnTdsType := t', variantType := True, maxLen := n\<rparr>) bs
              | None \<Rightarrow> Bad (Report ERROR ERRCODE_PROTOCOL_VIOLATION
                   ''The incoming tabular data stream (TDS) is incorrect. Data type 0x%02X is unknown.''))"

definition column_metadata_spec ::
  "('d, 't) bulk_env \<Rightarrow> byte list \<Rightarrow> BulkLoadColMetaData parsed" where
  "column_metadata_spec env bs =
     parsed_then (bytes_of 7 bs) (\<lambda>v bs.
     parsed_then (type_info_spec env
       \<lparr>userType = to_int32 (int (le_value (take 4 v))), flags = le_value (take 2 (drop 4 v)),
        columnTdsType = v ! 6, scale = 0, precision = 0, sortId = 0, encoding = 0, maxLen = 0,
        colName = [], variantType = False\<rparr> bs) (\<lambda>col bs.
     parsed_then (bytes_of 1 bs) (\<lambda>v bs.
     parsed_then (bytes_of (unat (v ! 0) * 2) bs) (\<lambda>name bs. Parsed (col\<lparr>colName := name\<rparr>) bs))))"

primrec columns_metadata_spec ::
  "('d, 't) bulk_env \<Rightarrow> nat \<Rightarrow> byte list \<Rightarrow> BulkLoadColMetaData list parsed" where
  "columns_metadata_spec env 0 bs = Parsed [] bs"
| "columns_metadata_spec env (Suc n) bs =
     parsed_then (column_metadata_spec env bs) (\<lambda>col bs.
     parsed_then (columns_metadata_spec env n bs) (\<lambda>cols bs. Parsed (col # cols) bs))"

definition counted_spec ::
  "('d, 't) bulk_env \<Rightarrow> byte list \<Rightarrow> BulkLoadColMetaData list parsed" where
  "counted_spec env bs =
     parsed_then (bytes_of 2 bs) (\<lambda>v bs.
     if le_value v = 0 \<or> MAX_BULK_LOAD_COLUMNS < le_value v then incorrect ''column count %u is invalid.''
     else columns_metadata_spec env (le_value v) bs)"

definition metadata_spec ::
  "('d, 't) bulk_env \<Rightarrow> byte list \<Rightarrow> BulkLoadColMetaData list parsed" where
  "metadata_spec env bs =
     parsed_then (bytes_of 1 bs) (\<lambda>v bs.
     if hd v \<noteq> TDS_TOKEN_COLMETADATA then incorrect ''unexpected token encountered processing the request.''
     else counted_spec env bs)"

lemma meta_refines:
  assumes "holds enl tail bs b"
  shows "refines enl tail b (bytes_of n bs) (meta_bytes enl n b)"
proof -
  have "refines enl tail b (parsed_then (bytes_of n bs) Parsed) (meta_bytes enl n b)"
    unfolding meta_bytes_def check_defs
  proof (rule meta_fetch.refines_bytes, goal_cases)
    case (3 b')
    with peek_holds [OF 3(2,3)] holds_advance(2) [OF 3(2,3)] show ?case by simp
  qed (use assms in simp_all)
  then show ?thesis by (cases "bytes_of n bs") simp_all
qed

lemma table_name_refines:
  assumes "holds enl tail bs b"
  shows "refines enl tail b (table_name_spec bs) (table_name enl b)"
  unfolding table_name_spec_def table_name_def check_defs Let_def
proof (rule refines_then [OF meta_refines [OF assms]], goal_cases)
  case (1 v bs1 b1)
  show ?case
  proof (rule meta_fetch.refines_bytes, goal_cases)
    case (3 b2)
    with holds_advance(2) [OF 3(2,3)] show ?case by simp
  qed (use 1 in simp_all)
qed

lemma type_info_refines:
  assumes "holds (enlargeStringInfo env) tail bs b"
  shows "refines (enlargeStringInfo env) tail b (type_info_spec env col bs) (type_info env col b)"
  unfolding type_info_spec_def type_info_def Let_def
  by (intro refines_if refines_then [OF meta_refines] refines_then [OF table_name_refines] assms)
    (use assms in \<open>auto simp: refines_def violation_def split: option.splits\<close>)

lemma column_metadata_refines:
  assumes "holds (enlargeStringInfo env) tail bs b"
  shows "refines (enlargeStringInfo env) tail b (column_metadata_spec env bs) (column_metadata env b)"
  unfolding column_metadata_spec_def column_metadata_def
  by (intro refines_then [OF meta_refines] refines_then [OF type_info_refines] assms) simp_all

lemma columns_metadata_refines:
  assumes "holds (enlargeStringInfo env) tail bs b"
  shows "refines (enlargeStringInfo env) tail b (columns_metadata_spec env n bs) (columns_metadata env n b)"
  using assms
proof (induction n arbitrary: bs b)
  case (Suc n)
  show ?case
    unfolding columns_metadata_spec.simps columns_metadata.simps
    by (intro refines_then [OF column_metadata_refines] refines_then [OF Suc.IH] Suc.prems) simp_all
qed simp

lemma counted_refines:
  assumes "holds (enlargeStringInfo env) tail bs b"
  shows "refines (enlargeStringInfo env) tail b (counted_spec env bs) (counted_metadata env b)"
  unfolding counted_spec_def counted_metadata_def check_defs
proof (rule meta_fetch.refines_bytes, goal_cases)
  case (3 b1)
  have b1: "holds (enlargeStringInfo env) tail (drop 2 bs) (advance 2 b1)" "peek 2 b1 = Some (Ok (take 2 bs) b1)"
    using holds_advance(2) [OF 3(2,3)] peek_holds [OF 3(2,3)] by simp_all
  note cols = refines_base [OF columns_metadata_refines [OF b1(1)], of b1]
  show ?case
    by (simp only: b1(2) bind.bind_lunit outcome.case Let_def, intro refines_if refines_report [OF 3(2)] cols) simp_all
qed (use assms in simp_all)

lemma request_metadata_refines:
  assumes "holds (enlargeStringInfo env) tail bs b"
  shows "refines (enlargeStringInfo env) tail b (metadata_spec env bs) (request_metadata env b)"
  unfolding metadata_spec_def request_metadata_def check_defs
proof (rule meta_fetch.refines_bytes, goal_cases)
  case (3 b1)
  have b1: "holds (enlargeStringInfo env) tail (drop 1 bs) (advance 1 b1)" "peek 1 b1 = Some (Ok (take 1 bs) b1)"
    using holds_advance(2) [OF 3(2,3)] peek_holds [OF 3(2,3)] by simp_all
  note counted = refines_base [OF counted_refines [OF b1(1)], of b1]
  show ?case
    by (simp only: b1(2) bind.bind_lunit outcome.case, intro refines_if refines_report [OF 3(2)] counted) simp_all
qed (use assms in simp_all)

text \<open>A bulk load before its metadata is read: the data of its first packet, and the packets after it.\<close>

definition bulk_start :: "('d, 't) bulk_env \<Rightarrow> byte list list \<Rightarrow> byte list \<Rightarrow> bulk \<Rightarrow> bool" where
  "bulk_start env ps tail b \<longleftrightarrow> pending_packets ps tail (comm b) \<and>
     room (enlargeStringInfo env) (length (message b) + length (concat ps) + TdsBufferSize (comm b))"

lemma bulk_start_holds:
  "bulk_start env ps tail b \<Longrightarrow> holds (enlargeStringInfo env) tail (message b @ concat ps) (TdsResetBcpOffset b)"
  by (auto simp: bulk_start_def holds_def bulk_at_def unread_def rest_def TdsResetBcpOffset_def)

lemma GetBulkLoadRequest_ok:
  assumes "bulk_start env ps tail b"
  shows "case metadata_spec env (message b @ concat ps) of
      Parsed cols bs \<Rightarrow> \<exists>b1. GetBulkLoadRequest env b = Some (Ok cols b1) \<and>
        holds (enlargeStringInfo env) tail bs b1 \<and> \<not> on_stack b1
    | Bad e \<Rightarrow> \<exists>bs b1. GetBulkLoadRequest env b = Some (Raised e b1) \<and> holds (enlargeStringInfo env) tail bs b1
    | Short \<Rightarrow> True"
proof (cases "metadata_spec env (message b @ concat ps)")
  case (Parsed cols bs)
  with request_metadata_refines [OF bulk_start_holds [OF assms]] obtain b1 where
    b1: "request_metadata env (TdsResetBcpOffset b) = Some (Ok cols b1)" "holds (enlargeStringInfo env) tail bs b1"
    by (auto simp: refines_def)
  have "enlargeStringInfo env 0 (length (message b1)) = Inr ()"
    by (rule grantsD [OF holds_grants [OF b1(2) order_refl]]) simp
  with b1 Parsed show ?thesis
    by (simp add: GetBulkLoadRequest_def attempt_def holds_def bulk_at_def unread_def rest_def)
next
  case (Bad e)
  with request_metadata_refines [OF bulk_start_holds [OF assms]] show ?thesis
    by (auto simp: refines_def GetBulkLoadRequest_def)
qed simp

section \<open>Properties\<close>


text \<open>An environment whose values are their bytes and whose table is a list of values.\<close>

definition plain_env :: "(byte list, byte list option list) bulk_env" where
  "plain_env = \<lparr>char_signed = True, enlargeStringInfo = grant_all, TdsLookupEncodingByLCID = (\<lambda>_. 0),
     TdsDefaultLcid = 1033, insert_bulk_kilobytes_per_batch = 8, insert_bulk_rows_per_batch = 1000,
     TdsTypeIntegerToDatum = (\<lambda>v n. Inr v), TdsTypeFloatToDatum = (\<lambda>v n. Inr v),
     TdsTypeTimeToDatum = (\<lambda>v s n. Inr v), TdsTypeDateToDatum = Inr,
     TdsTypeDatetime2ToDatum = (\<lambda>v s n. Inr v), TdsTypeSmallDatetimeToDatum = Inr,
     TdsTypeDatetimeToDatum = Inr, TdsTypeDatetimeoffsetToDatum = (\<lambda>v s n. Inr v),
     TdsTypeSmallMoneyToDatum = Inr, TdsTypeMoneyToDatum = Inr, TdsTypeUIDToDatum = Inr,
     TdsTypeNumericToDatum = (\<lambda>v s. Inr v), TdsTypeVarcharToDatum = (\<lambda>v enc ty. Inr v),
     TdsTypeNCharToDatum = Inr, TdsTypeVarbinaryToDatum = Inr, TdsTypeXMLToDatum = Inr,
     TdsTypeSqlVariantToDatum = Inr, bulk_load_callback = (\<lambda>cols n vs t. Inr (0, t @ vs)),
     Datum_zero = []\<rparr>"

lemma plain_env_simps [simp]:
  "char_signed plain_env" "enlargeStringInfo plain_env = grant_all" "TdsTypeIntegerToDatum plain_env v n = Inr v"
  "insert_bulk_kilobytes_per_batch plain_env = 8" "insert_bulk_rows_per_batch plain_env = 1000"
  "bulk_load_callback plain_env cols k vs t = Inr (0, t @ vs)" "TdsTypeVarbinaryToDatum plain_env = Inr"
  by (simp_all add: plain_env_def)

lemma plain_limits [simp]: "limits_ok plain_env"
  by (simp add: limits_ok_def in_s_def)

lemma deliver_plain: "hand_over plain_env n batches (0, t) = Inr (0, t @ concat (concat batches))"
  by (induction batches arbitrary: t) (simp_all add: size_t_add_def)

text \<open>
  A table with one integer column that is not NULL and one of binaries without maximal
  length, two rows, the first one cut by the end of the first packet.
\<close>

definition sample_metadata :: "byte list" where
  "sample_metadata = [129, 2, 0] @ [0, 0, 0, 0, 0, 0, 56, 0] @ [0, 0, 0, 0, 0, 0, 165, 255, 255, 1, 98, 0]"

definition sample_rows :: "byte list" where
  "sample_rows = [209, 1, 2, 3, 4] @ [254, 255, 255, 255, 255, 255, 255, 255] @ [2, 0, 0, 0, 7, 8] @ [1, 0, 0, 0, 9] @ [0, 0, 0, 0] @
     [209, 5, 6, 7, 8] @ [255, 255, 255, 255, 255, 255, 255, 255]"

definition sample_done :: "byte list" where
  "sample_done = [253, 0, 0, 0, 0, 0, 0, 0, 0, 0, 0, 0, 0]"

definition sample_columns :: "BulkLoadColMetaData list" where
  "sample_columns =
     [\<lparr>userType = 0, flags = 0, columnTdsType = TDS_TYPE_INTEGER, scale = 0, precision = 0, sortId = 0,
       encoding = 0, maxLen = 4, colName = [], variantType = True\<rparr>,
      \<lparr>userType = 0, flags = 0, columnTdsType = TDS_TYPE_VARBINARY, scale = 0, precision = 0, sortId = 0,
       encoding = 0, maxLen = 65535, colName = [98, 0], variantType = False\<rparr>]"

lemma parsed_then_assoc: "parsed_then (parsed_then p k) h = parsed_then p (\<lambda>x bs. parsed_then (k x bs) h)"
  by (cases p) simp_all

lemma two_columns_spec:
  "columns_metadata_spec env 2 bs =
     parsed_then (column_metadata_spec env bs) (\<lambda>col bs.
     parsed_then (column_metadata_spec env bs) (\<lambda>col' bs. Parsed [col, col'] bs))"
proof -
  have "columns_metadata_spec env 2 bs = columns_metadata_spec env (Suc (Suc 0)) bs"
    by (simp only: numeral_2_eq_2)
  then show ?thesis by (simp add: parsed_then_assoc)
qed

lemma sample_metadata_spec: "metadata_spec plain_env (sample_metadata @ bs) = Parsed sample_columns bs"
  by (simp add: two_columns_spec metadata_spec_def counted_spec_def column_metadata_spec_def type_info_spec_def variant_info_def
      sample_metadata_def sample_columns_def bytes_of_def MAX_BULK_LOAD_COLUMNS_def in_s_def tds_types)

lemma sample_rows_spec:
  "rows_spec plain_env sample_columns (sample_rows @ sample_done) =
     Parsed [[Some [1, 2, 3, 4], Some [7, 8, 9]], [Some [5, 6, 7, 8], None]] sample_done"
  by (simp add: sample_rows_def sample_columns_def sample_done_def rows_spec_Cons column_spec_def sized_spec_def
      plp_spec_def chunks_spec.simps bytes_of_def checked_def column_datum_def PLP_NULL_def PLP_UNKNOWN_LEN_def tds_types)


end
