(* ===== verification/Tds_Bulk_Safety.thy ===== *)
theory Tds_Bulk_Safety
  imports Tds_Bulk_Refine
begin

text \<open>
  Bulk loads that are not well-formed or not complete: what the reader does at the end of
  the packets, with limits that are not positive and with wrong metadata, and that it reads
  no byte outside of the message in any case.
\<close>

section \<open>Errors\<close>

text \<open>
  C15. With a limit on the bytes of a batch that is not positive as a C integer, nothing of
  the bulk load is read: an empty batch is handed over, and the request ends without an
  error while all of its packets are left in the connection. This is the case for
  2097152 kilobytes, which the setting accepts.
\<close>

theorem bulk_load_skipped:
  assumes "to_int32 (insert_bulk_kilobytes_per_batch env * 1024) \<le> 0 \<or> insert_bulk_rows_per_batch env \<le> 0"
    and "bcpOffset b < length (message b)" and "length (message b) \<le> MaxAllocSize"
    and "bulk_load_callback env 0 0 [] t = Inr (n, t')"
  shows "\<exists>b'. ProcessBCPRequest env cols t b = Some (Ok (size_t_add 0 n, t') b') \<and> comm b' = comm b"
proof -
  let ?start = "b\<lparr>rowCount := 0, currentBatchSize := 0\<rparr>"
  have "size_t_sub (length (message b)) (bcpOffset b) = length (message b) - bcpOffset b"
    using assms(2,3) by (intro size_t_small) simp_all
  then have check: "has_enough (FetchMoreBcpData (enlargeStringInfo env) True) 1 ?start = Some (Ok () ?start)"
    using assms(2) by (simp add: has_enough_def)
  have closed: "\<not> batch_open env ?start"
    using assms(1) by (auto simp: batch_open_def)
  have "\<exists>v. peek 1 ?start = Some (Ok v ?start)"
    using assms(2) by (simp add: peek_def attempt_def read_at_def)
  then have "row_loop env cols [] ?start = Some (Ok [] ?start)"
    using closed by (subst row_loop.simps) auto
  with check closed have "SetBulkLoadRowData env cols b = Some (Ok [] ?start)"
    by (simp add: SetBulkLoadRowData_def CheckMessageHasEnoughBytesToReadRows_def check_done_def)
  with assms(4) have "ProcessBCPRequest env cols t b = Some (Ok (size_t_add 0 n, t') (TdsResetBcpOffset ?start))"
    unfolding ProcessBCPRequest_def by (subst batch_loop.simps) (simp add: attempt_def)
  then show ?thesis by (simp add: TdsResetBcpOffset_def)
qed

theorem bulk_load_skipped_witness:
  "\<exists>b'. ProcessBCPRequest (plain_env\<lparr>insert_bulk_kilobytes_per_batch := 2097152\<rparr>) sample_columns []
     \<lparr>comm = new_comm 512 (bulk_packets [sample_done]) [] [], message = sample_rows, on_stack = False,
      bcpOffset = 0, rowCount = 0, currentBatchSize = 0\<rparr> = Some (Ok (0, []) b') \<and>
    stream (comm b') = bulk_packets [sample_done]"
proof -
  let ?env = "plain_env\<lparr>insert_bulk_kilobytes_per_batch := 2097152\<rparr>"
  let ?b = "\<lparr>comm = new_comm 512 (bulk_packets [sample_done]) [] [], message = sample_rows, on_stack = False,
      bcpOffset = 0, rowCount = 0, currentBatchSize = 0\<rparr>"
  have "\<exists>b'. ProcessBCPRequest ?env sample_columns [] ?b = Some (Ok (size_t_add 0 0, []) b') \<and> comm b' = comm ?b"
    by (rule bulk_load_skipped) (simp_all add: wrap_s_def sample_rows_def MaxAllocSize_def plain_env_def)
  then show ?thesis
    by (auto simp: size_t_add_def)
qed

lemma check_rows_all:
  assumes at: "bulk_at enl ps tail b" and free: "\<not> on_stack b" and short: "length (unread ps b) < n"
    and n: "n \<le> MaxAllocSize" and "ps \<noteq> []"
  shows "\<exists>c. CheckMessageHasEnoughBytesToReadRows enl n b =
      fetch_packets enl True n (b\<lparr>bcpOffset := 0, message := unread ps b, comm := c\<rparr>) \<and>
    pending_packets [] tail c \<and> TdsBufferSize c = TdsBufferSize (comm b)"
proof -
  let ?b = "b\<lparr>message := rest b, bcpOffset := 0\<rparr>"
  have "\<not> TdsGetRecvPacketEomStatus (comm b)"
    using \<open>ps \<noteq> []\<close> at by (simp add: bulk_at_def pending_packets_def)
  then have "FetchMoreBcpData enl True n b = fetch_packets enl True n ?b"
    using drop_parsed_ok(1) [OF at free] int_length_param [OF n] by (simp add: FetchMoreBcpData_def)
  moreover have "CheckMessageHasEnoughBytesToReadRows enl n b = FetchMoreBcpData enl True n b"
    using short bulk_at_rest(1) [OF at]
    by (simp add: CheckMessageHasEnoughBytesToReadRows_def has_enough_def unread_def)
  moreover have "length (unread ps ?b) < n" using short by (simp add: unread_def rest_def)
  moreover note fetch_all [OF drop_parsed_ok(2) [OF at free] _ n, of True]
  ultimately show ?thesis by (auto simp: unread_def)
qed

text \<open>
  C13. A length in the data that is larger than what the bulk load has left is reported as an
  error if the last packet has been read already. Otherwise all packets are read and then
  the next request on the connection: if it is a bulk load its data is taken for data of this
  one, and if it is anything else the connection is closed.
\<close>

theorem bulk_load_overrun:
  assumes at: "bulk_at enl ps tail b" and free: "\<not> on_stack b"
    and short: "length (unread ps b) < n" and n: "n \<le> MaxAllocSize"
    and packet: "parse_packet (TdsBufferSize (comm b)) tail = Packet ty st d tail'"
    and room: "room enl (length (unread ps b) + TdsBufferSize (comm b))"
  shows "if ps = []
    then \<exists>msg. CheckMessageHasEnoughBytesToReadRows enl n b = Some (Raised (Report ERROR ERRCODE_PROTOCOL_VIOLATION msg) b)
    else if ty \<noteq> TDS_BULK_LOAD
    then \<exists>msg. CheckMessageHasEnoughBytesToReadRows enl n b = Some (Lost (Report FATAL ERRCODE_PROTOCOL_VIOLATION msg))
    else n \<le> length (unread ps b @ d) \<longrightarrow> (\<exists>b'. CheckMessageHasEnoughBytesToReadRows enl n b = Some (Ok () b') \<and>
           rest b' = unread ps b @ d \<and> stream (comm b') = tail')"
proof (cases "ps = []")
  case True
  then have "TdsGetRecvPacketEomStatus (comm b)"
    using at by (simp add: bulk_at_def pending_packets_def)
  with True short bulk_at_rest(1) [OF at] show ?thesis
    by (simp add: CheckMessageHasEnoughBytesToReadRows_def has_enough_def unread_def FetchMoreBcpData_def violation_def)
next
  case more: False
  from check_rows_all [OF at free short n more] obtain c where
    check: "CheckMessageHasEnoughBytesToReadRows enl n b =
      fetch_packets enl True n (b\<lparr>bcpOffset := 0, message := unread ps b, comm := c\<rparr>)"
    and c: "pending_packets [] tail c" "TdsBufferSize c = TdsBufferSize (comm b)"
    by blast
  let ?b = "b\<lparr>bcpOffset := 0, message := unread ps b, comm := c\<rparr>"
  have add: "size_t_add n 0 = n"
    using n by (simp add: size_t_add_def MaxAllocSize_def)
  have "grants enl (length (unread ps b) + TdsBufferSize c)"
    using room c(2) by (simp add: room_def)
  note read = pending_bcp_ok [OF _ _ this, of ty st d tail']
  show ?thesis
  proof (cases "ty = TDS_BULK_LOAD")
    case True
    with read c packet obtain c' where
      c': "TdsReadNextPendingBcpRequest enl (unread ps b) c = ret (if is_eom st then 1 else 0) (unread ps b @ d, c')"
        "stream c' = tail'"
      by (auto simp: pending_packets_def)
    let ?b2 = "?b\<lparr>message := unread ps b @ d, comm := c'\<rparr>"
    have "fetch_packets enl True n ?b = fetch_packets enl True n ?b2"
      using short add c'(1) by (subst fetch_packets.simps) simp
    moreover have "fetch_packets enl True n ?b2 = Some (Ok () ?b2)" if "n \<le> length (unread ps b @ d)"
      using that add by (subst fetch_packets.simps) simp
    ultimately show ?thesis
      using check True more c'(2) by (simp add: rest_def)
  next
    case False
    with read c packet short add
    have "\<exists>msg. fetch_packets enl True n ?b = Some (Lost (Report FATAL ERRCODE_PROTOCOL_VIOLATION msg))"
      by (subst fetch_packets.simps) (auto simp: pending_packets_def)
    with check False more show ?thesis by simp
  qed
qed

theorem bulk_load_overrun_witness:
  "\<exists>msg. CheckMessageHasEnoughBytesToReadRows grant_all 10
       \<lparr>comm = new_comm 512 (bulk_packets [[9, 9]] @ packet 1 TDS_PACKET_HEADER_STATUS_EOM [5]) [] [],
        message = [8], on_stack = False, bcpOffset = 0, rowCount = 0, currentBatchSize = 0\<rparr> =
     Some (Lost (Report FATAL ERRCODE_PROTOCOL_VIOLATION msg))"
proof -
  let ?tail = "packet 1 TDS_PACKET_HEADER_STATUS_EOM [5]"
  let ?b = "\<lparr>comm = new_comm 512 (bulk_packets [[9, 9]] @ ?tail) [] [], message = [8], on_stack = False,
     bcpOffset = 0, rowCount = 0, currentBatchSize = 0\<rparr>"
  have at: "bulk_at grant_all [[9, 9]] ?tail ?b"
    by (simp add: bulk_at_def room_def MaxAllocSize_def grants_grant_all pending_packets_def quiet_def
        TdsGetRecvPacketEomStatus_def new_comm_def at_boundary_def recv_ok_def stream_def buffered_def)
  have "parse_packet 512 ?tail = Packet 1 TDS_PACKET_HEADER_STATUS_EOM [5] []"
    using parse_packet_packet [of "[5]" 512 1 TDS_PACKET_HEADER_STATUS_EOM "[]"] by simp
  then show ?thesis
    using bulk_load_overrun [OF at, of 10 1 TDS_PACKET_HEADER_STATUS_EOM "[5]" "[]"]
    by (simp add: unread_def rest_def room_def MaxAllocSize_def grants_grant_all TDS_BULK_LOAD_def)
qed

text \<open>
  C14. When the metadata of a bulk load cannot be read, what was not fetched yet is not
  discarded. After a wrong first token the error leaves the remaining packets in the
  connection, so that the next request that is read is a bulk load that consists of the next
  packet of this one. If the connection ends after the first token, the message is released
  although it is a local variable of the caller.
\<close>

theorem metadata_errors:
  fixes env :: "('d, 't) bulk_env"
  assumes "at_boundary (comm b)" and "quiet (comm b)" and "message b \<noteq> []"
    and "room (enlargeStringInfo env) (length (message b) + length (stream (comm b)) + TdsBufferSize (comm b))"
  shows "(pending_packets (p # ps) tail (comm b) \<and> hd (message b) \<noteq> TDS_TOKEN_COLMETADATA \<longrightarrow>
      (\<exists>msg b1 q c'. GetBulkLoadRequest env b = Some (Raised (Report ERROR ERRCODE_PROTOCOL_VIOLATION msg) b1) \<and>
         TdsReadNextRequest (enlargeStringInfo env) \<lparr>req_message = [], req_status = 0, req_type = 0\<rparr> (comm b1) =
           ret 0 (q, c') \<and> req_message q = p \<and> req_type q = TDS_BULK_LOAD)) \<and>
    (message b = [TDS_TOKEN_COLMETADATA] \<and> on_stack b \<and> stream (comm b) = [] \<and>
       \<not> TdsGetRecvPacketEomStatus (comm b) \<longrightarrow>
      GetBulkLoadRequest env b = Some (Lost (Invalid_access ''pfree of a local variable'')))"
    (is "(?packets \<longrightarrow> ?next) \<and> (?ended \<longrightarrow> ?released)")
proof (intro conjI impI)
  assume "?packets"
  then have pend: "pending_packets (p # ps) tail (comm b)" and tok: "hd (message b) \<noteq> TDS_TOKEN_COLMETADATA"
    by simp_all
  have "length (message b) \<le> MaxAllocSize" using assms(4) by (simp add: room_def)
  then have "size_t_sub (length (message b)) 0 = length (message b)"
    by simp
  with assms(3) tok have get: "\<exists>msg. GetBulkLoadRequest env b =
      Some (Raised (Report ERROR ERRCODE_PROTOCOL_VIOLATION msg) (TdsResetBcpOffset b))"
    by (cases "message b") (simp_all add: GetBulkLoadRequest_def request_metadata_def TdsResetBcpOffset_def peek_def read_at_def
        CheckMessageHasEnoughBytesToReadColMetadata_def has_enough_def attempt_def stream_incorrect_def violation_def Suc_le_eq)
  have "grants (enlargeStringInfo env) (length (req_message \<lparr>req_message = [], req_status = 0, req_type = 0\<rparr>) +
      TdsBufferSize (comm b))"
    using assms(4) by (auto simp: room_def intro: grants_mono)
  from request_round [OF assms(1,2) this, of True] first_packet [OF pend]
  have "\<exists>q c'. TdsReadNextRequest (enlargeStringInfo env) \<lparr>req_message = [], req_status = 0, req_type = 0\<rparr> (comm b) =
      ret 0 (q, c') \<and> req_message q = p \<and> req_type q = TDS_BULK_LOAD"
    by (fastforce simp: TdsReadNextRequest_def add_packet_def Let_def)
  with get show ?next by (auto simp: TdsResetBcpOffset_def)
next
  assume ended: "?ended"
  let ?b = "b\<lparr>bcpOffset := 1\<rparr>"
  have "parse_packet (TdsBufferSize (comm b)) (stream (comm b)) = packet_view.Short"
    using ended by (simp add: parse_packet_def)
  with TdsReadNextBuffer_boundary [of "comm b"] assms(1,2) obtain c where "TdsReadNextBuffer (comm b) = ret EOF c"
    by (auto simp: boundary_result_def at_boundary_def header_taken_def ended)
  then have "fetch_packets (enlargeStringInfo env) True 2 ?b = Some (Lost (Invalid_access ''pfree of a local variable''))"
    using ended by (subst fetch_packets.simps) (simp add: size_t_add_def TdsReadNextPendingBcpRequest_def EOF_def)
  then show ?released
    using ended by (simp add: GetBulkLoadRequest_def request_metadata_def counted_metadata_def TdsResetBcpOffset_def peek_def
        read_at_def CheckMessageHasEnoughBytesToReadColMetadata_def has_enough_def attempt_def FetchMoreBcpData_def advance_def
        size_t_sub_def size_t_add_def wrap_s_def size_t_of_int_def)
qed

theorem metadata_errors_witness:
  "(\<exists>msg b1 q c'. GetBulkLoadRequest plain_env
       \<lparr>comm = new_comm 512 (bulk_packets [sample_rows]) [] [], message = [7], on_stack = True,
        bcpOffset = 0, rowCount = 0, currentBatchSize = 0\<rparr> = Some (Raised (Report ERROR ERRCODE_PROTOCOL_VIOLATION msg) b1) \<and>
     TdsReadNextRequest grant_all \<lparr>req_message = [], req_status = 0, req_type = 0\<rparr> (comm b1) =
       ret 0 (q, c') \<and> req_message q = sample_rows \<and> req_type q = TDS_BULK_LOAD) \<and>
   GetBulkLoadRequest plain_env
     \<lparr>comm = new_comm 512 [] [] [], message = [TDS_TOKEN_COLMETADATA], on_stack = True,
      bcpOffset = 0, rowCount = 0, currentBatchSize = 0\<rparr> = Some (Lost (Invalid_access ''pfree of a local variable''))"
proof -
  let ?b1 = "\<lparr>comm = new_comm 512 (bulk_packets [sample_rows]) [] [], message = [7], on_stack = True,
     bcpOffset = 0, rowCount = 0, currentBatchSize = 0\<rparr>"
  let ?b2 = "\<lparr>comm = new_comm 512 [] [] [], message = [TDS_TOKEN_COLMETADATA], on_stack = True,
     bcpOffset = 0, rowCount = 0, currentBatchSize = 0\<rparr>"
  have len: "length sample_rows = 41" "length (bulk_packets [sample_rows]) = 49"
    by (simp_all add: sample_rows_def bulk_packets_def packet_def)
  have rows: "sample_rows \<noteq> []" using len(1) by auto
  have "pending_packets [sample_rows] [] (comm ?b1)" "quiet (comm ?b1)" "quiet (comm ?b2)"
    using len(1) rows by (simp_all add: pending_packets_def quiet_def TdsGetRecvPacketEomStatus_def new_comm_def at_boundary_def
        recv_ok_def stream_def buffered_def)
  then show ?thesis
    using metadata_errors [of ?b1 plain_env sample_rows "[]" "[]"] metadata_errors [of ?b2 plain_env]
    by (simp add: room_def MaxAllocSize_def grants_grant_all len TDS_TOKEN_COLMETADATA_def TdsGetRecvPacketEomStatus_def new_comm_def
        at_boundary_def recv_ok_def stream_def buffered_def)
qed

section \<open>Memory safety\<close>

text \<open>
  Whatever the client sends, the offset stays within the message and the message within the
  server's limit, so that nothing outside of it is read. What is used of \<open>enlargeStringInfo\<close>
  is that it grants no string of \<open>MaxAllocSize\<close> bytes or more, and of the conversions and the callback
  that they end with a value or a report.
\<close>

definition enlarge_spec :: "enlarge \<Rightarrow> bool" where
  "enlarge_spec enl \<longleftrightarrow> reports enl \<and> (\<forall>len n. enl len n = Inr () \<longrightarrow> len + n < MaxAllocSize)"

definition env_spec :: "('d, 't) bulk_env \<Rightarrow> bool" where
  "env_spec env \<longleftrightarrow> enlarge_spec (enlargeStringInfo env) \<and>
     (\<forall>col v. fine (\<lambda>_. True) (column_datum env col v)) \<and>
     (\<forall>n k vs t. fine (\<lambda>_. True) (bulk_load_callback env n k vs t))"

definition sound :: "bulk \<Rightarrow> bool" where
  "sound b \<longleftrightarrow> recv_ok (comm b) \<and> bcpOffset b \<le> length (message b) \<and> length (message b) \<le> MaxAllocSize"

text \<open>
  A step is secure if it ends in a sound state with the \<open>on_stack\<close> it began with, or in a
  report; the release of a local variable is the one exception.
\<close>

definition secure_outcome :: "bool \<Rightarrow> ('a \<Rightarrow> bulk \<Rightarrow> bool) \<Rightarrow> 'a outcome \<Rightarrow> bool" where
  "secure_outcome s P r \<longleftrightarrow> (case r of
     Ok x b \<Rightarrow> sound b \<and> on_stack b = s \<and> P x b
   | Raised e b \<Rightarrow> is_report e \<and> recv_ok (comm b)
   | Lost e \<Rightarrow> is_report e \<or> s \<and> e = Invalid_access ''pfree of a local variable'')"

definition secure :: "bool \<Rightarrow> ('a \<Rightarrow> bulk \<Rightarrow> bool) \<Rightarrow> 'a outcome option \<Rightarrow> bool" where
  "secure s P m \<longleftrightarrow> (\<forall>r. m = Some r \<longrightarrow> secure_outcome s P r)"

lemma secure_outcome_simps [simp]:
  "secure_outcome s P (Ok x b) \<longleftrightarrow> sound b \<and> on_stack b = s \<and> P x b"
  "secure_outcome s P (Raised e b) \<longleftrightarrow> is_report e \<and> recv_ok (comm b)"
  "secure_outcome s P (Lost e) \<longleftrightarrow> is_report e \<or> s \<and> e = Invalid_access ''pfree of a local variable''"
  by (simp_all add: secure_outcome_def)

lemma secure_simps [simp]:
  "secure s P (Some r) = secure_outcome s P r" "secure s P None"
  by (simp_all add: secure_def)

lemma secure_then:
  assumes "secure s P m" and "\<And>x b. sound b \<Longrightarrow> on_stack b = s \<Longrightarrow> P x b \<Longrightarrow> secure s Q (k x b)"
  shows "secure s Q (bulk_then m k)"
  using assms by (cases m) (auto split: outcome.splits)

lemma secure_mono: "secure s P m \<Longrightarrow> (\<And>x b. P x b \<Longrightarrow> Q x b) \<Longrightarrow> secure s Q m"
  by (cases m) (auto simp: secure_outcome_def split: outcome.splits)

lemma secure_violation [simp]: "sound b \<Longrightarrow> secure s P (violation msg b)"
  by (simp add: violation_def sound_def)

lemma secure_incorrect [simp]: "sound b \<Longrightarrow> secure s P (stream_incorrect msg b)"
  by (simp add: stream_incorrect_def)

lemma secure_attempt:
  assumes "sound b" and "on_stack b = s" and "fine P r"
  shows "secure s (\<lambda>x b'. b' = b \<and> P x) (attempt r b)"
  using assms by (cases r) (auto simp: attempt_def sound_def)

lemma secure_peek:
  assumes "sound b" and "on_stack b = s" and "n \<le> length (rest b)"
  shows "secure s (\<lambda>v b'. b' = b \<and> length v = n) (peek n b)"
  unfolding peek_def
  using assms by (intro secure_attempt) (auto simp: read_at_def length_rest sound_def)

lemma sound_rest: "sound b \<Longrightarrow> size_t_sub (length (message b)) (bcpOffset b) = length (rest b)"
  by (simp add: sound_def length_rest)

lemma sound_moved [simp]:
  "n \<le> length (rest b) \<Longrightarrow> sound b \<Longrightarrow> sound (count n b)" "n \<le> length (rest b) \<Longrightarrow> sound b \<Longrightarrow> sound (advance n b)"
  "on_stack (count n b) = on_stack b" "on_stack (advance n b) = on_stack b"
  "rest (count n b) = drop n (rest b)" "rest (advance n b) = drop n (rest b)"
  by (auto simp: sound_def count_def advance_def rest_def add.commute)

lemma secure_if: "(c \<Longrightarrow> secure s P m) \<Longrightarrow> (\<not> c \<Longrightarrow> secure s P m') \<Longrightarrow> secure s P (if c then m else m')"
  by simp

subsection \<open>Fetching\<close>

lemma fetch_packets_secure:
  assumes "enlarge_spec enl" and "sound b"
  shows "secure (on_stack b) (\<lambda>_ b'. size_t_add want (bcpOffset b) \<le> length (message b') \<and> bcpOffset b' = bcpOffset b \<and>
    length (message b) \<le> length (message b')) (fetch_packets enl rel want b)"
    (is "secure _ (?P want b) _")
  unfolding secure_def
proof (intro allI impI)
  fix r assume "fetch_packets enl rel want b = Some r"
  then have "enlarge_spec enl \<longrightarrow> sound b \<longrightarrow> secure_outcome (on_stack b) (?P want b) r"
  proof (rule fetch_packets.raw_induct [where P = "\<lambda>enl rel want b r. enlarge_spec enl \<longrightarrow> sound b \<longrightarrow>
      secure_outcome (on_stack b) (\<lambda>_ b'. size_t_add want (bcpOffset b) \<le> length (message b') \<and> bcpOffset b' = bcpOffset b \<and>
    length (message b) \<le> length (message b')) r", rotated], goal_cases)
    case (1 loop enl rel want b r)
    show ?case
    proof (intro impI)
      assume enl: "enlarge_spec enl" and b: "sound b"
      show "secure_outcome (on_stack b) (?P want b) r"
      proof (cases "length (message b) < size_t_add want (bcpOffset b)")
        case False
        with 1(2) b show ?thesis by auto
      next
        case True
        have read: "safe (\<lambda>(r, m', c'). kept (comm b) c' \<and> grown enl (message b) m')
            (TdsReadNextPendingBcpRequest enl (message b) (comm b))"
          using enl b by (intro TdsReadNextPendingBcpRequest_safe) (auto simp: enlarge_spec_def sound_def)
        have next_sound: "sound (b\<lparr>message := m, comm := c\<rparr>)" "length (message b) \<le> length m"
          if "kept (comm b) c" "grown enl (message b) m" for m c
          using that enl b by (force simp: grown_def sound_def enlarge_spec_def kept_def)+
        have rec: "secure_outcome (on_stack b) (?P want b) r"
          if "loop enl rel want (b\<lparr>message := m, comm := c\<rparr>) = Some r"
            "kept (comm b) c" "grown enl (message b) m" for m c
          using 1(1) [OF that(1)] enl next_sound [OF that(2,3)]
          by (auto simp: secure_outcome_def split: outcome.splits)
        from 1(2) True obtain y where y: "TdsReadNextPendingBcpRequest enl (message b) (comm b) = Some y"
          by (cases "TdsReadNextPendingBcpRequest enl (message b) (comm b)") auto
        show ?thesis
        proof (cases y)
          case (Inl e)
          with y read 1(2) True show ?thesis by auto
        next
          case (Inr z)
          with y read obtain n m c where z: "y = Inr (n, m, c)" "kept (comm b) c" "grown enl (message b) m"
            by (cases z) auto
          with 1(2) True y next_sound(1) [OF z(2,3)] rec [OF _ z(2,3)] show ?thesis
            by (auto simp: Let_def violation_def sound_def split: if_splits)
        qed
      qed
    qed
  qed
  with assms show "secure_outcome (on_stack b) (?P want b) r" by blast
qed

lemma int_param:
  "n < 2 ^ 31 \<Longrightarrow> size_t_of_int (to_int32 (int n)) = n"
  "2 ^ 31 \<le> n \<Longrightarrow> n < 2 ^ 32 \<Longrightarrow> size_t_of_int (to_int32 (int n)) = 2 ^ 64 - (2 ^ 32 - n)"
proof -
  show "size_t_of_int (to_int32 (int n)) = n" if "n < 2 ^ 31"
    using that by (simp add: wrap_s_def size_t_of_int_def)
next
  assume n: "2 ^ 31 \<le> n" "n < 2 ^ 32"
  have "(int n + 2 ^ 31) mod 2 ^ 32 = (int n - 2 ^ 31 + 2 ^ 32) mod 2 ^ 32" by (simp add: add.commute)
  also have "\<dots> = int n - 2 ^ 31" using n by (simp only: mod_add_self2) simp
  finally have "to_int32 (int n) = int n - 2 ^ 32" by (simp add: wrap_s_def)
  moreover have "(int n - 2 ^ 32) mod 2 ^ 64 = (int n - 2 ^ 32 + 2 ^ 64) mod 2 ^ 64" by (simp only: mod_add_self2)
  moreover have "\<dots> = int n - 2 ^ 32 + 2 ^ 64" using n by (intro mod_pos_pos_trivial) simp_all
  ultimately show "size_t_of_int (to_int32 (int n)) = 2 ^ 64 - (2 ^ 32 - n)"
    using n by (simp add: size_t_of_int_def)
qed

lemma meta_check_secure:
  assumes "enlarge_spec enl" and "sound b" and "n < 2 ^ 31" and "on_stack b = s"
  shows "secure s (\<lambda>_ b'. n \<le> length (rest b')) (CheckMessageHasEnoughBytesToReadColMetadata enl n b)"
proof -
  have "n + bcpOffset b < 2 ^ 64"
    using assms(2,3) by (simp add: sound_def MaxAllocSize_def)
  then have "size_t_add n (bcpOffset b) = n + bcpOffset b" by (simp add: size_t_add_def)
  moreover have "secure s (\<lambda>_ b'. size_t_add n (bcpOffset b) \<le> length (message b') \<and> bcpOffset b' = bcpOffset b \<and>
    length (message b) \<le> length (message b')) (fetch_packets enl True n b)"
    using fetch_packets_secure [OF assms(1,2)] assms(4) by auto
  ultimately have "secure s (\<lambda>_ b'. n \<le> length (rest b')) (fetch_packets enl True n b)"
    by (elim secure_mono) (auto simp: length_rest)
  then show ?thesis
    using assms sound_rest [OF assms(2)]
    by (simp add: CheckMessageHasEnoughBytesToReadColMetadata_def has_enough_def FetchMoreBcpData_def int_param)
qed

lemma plp_check_secure:
  assumes "enlarge_spec enl" and "sound b" and "on_stack b = s"
  shows "secure s (\<lambda>_ b'. (n < 2 ^ 31 \<longrightarrow> n \<le> length (rest b')) \<and> bcpOffset b' = bcpOffset b \<and>
    length (message b) \<le> length (message b')) (CheckPlpMessageHasEnoughBytesToRead enl n b)"
proof -
  let ?n = "size_t_of_int (to_int32 (int n))"
  have "size_t_add ?n (bcpOffset b) = n + bcpOffset b" if "n < 2 ^ 31"
    using that assms(2) by (simp add: int_param size_t_add_def sound_def MaxAllocSize_def)
  moreover have "secure s (\<lambda>_ b'. size_t_add ?n (bcpOffset b) \<le> length (message b') \<and> bcpOffset b' = bcpOffset b \<and>
    length (message b) \<le> length (message b')) (fetch_packets enl False ?n b)"
    using fetch_packets_secure [OF assms(1,2)] assms(3) by auto
  ultimately have "secure s (\<lambda>_ b'. (n < 2 ^ 31 \<longrightarrow> n \<le> length (rest b')) \<and> bcpOffset b' = bcpOffset b \<and>
      length (message b) \<le> length (message b')) (fetch_packets enl False ?n b)"
    by (elim secure_mono) (auto simp: length_rest)
  then show ?thesis
    using assms sound_rest [OF assms(2)]
    by (simp add: CheckPlpMessageHasEnoughBytesToRead_def has_enough_def FetchMoreBcpPlpData_def)
qed

lemma drop_parsed_secure:
  assumes "enlarge_spec enl" and "sound b"
  shows "secure (on_stack b) (\<lambda>_ b'. bcpOffset b' = 0) (drop_parsed enl b)"
proof -
  have "fine (\<lambda>_. True) (enl 0 (length (rest b)))"
    using assms(1) by (simp add: enlarge_spec_def reports_def)
  moreover have "fine (\<lambda>v. v = rest b) (read_at (message b) (bcpOffset b) (length (rest b)))"
    using assms(2) by (auto simp: read_at_def length_rest sound_def rest_def)
  ultimately show ?thesis
    using assms(2) sound_rest [OF assms(2)] unfolding drop_parsed_def Let_def
    by (auto intro!: secure_then [OF secure_attempt] simp: sound_def length_rest)
qed

text \<open>A length of $2^{31}$ or more turns into one that no message reaches.\<close>

lemma row_check_secure:
  assumes "enlarge_spec enl" and "sound b" and "\<not> on_stack b" and "n < 2 ^ 32"
  shows "secure False (\<lambda>_ b'. n \<le> length (rest b')) (CheckMessageHasEnoughBytesToReadRows enl n b)"
proof -
  let ?n = "size_t_of_int (to_int32 (int n))"
  have fetch: "secure False (\<lambda>_ b'. n \<le> length (rest b')) (fetch_packets enl True ?n b1)"
    if b1: "sound b1" "\<not> on_stack b1" "bcpOffset b1 = 0" for b1
  proof -
    have "secure False (\<lambda>_ b'. size_t_add ?n 0 \<le> length (message b') \<and> bcpOffset b' = 0 \<and>
      length (message b1) \<le> length (message b')) (fetch_packets enl True ?n b1)"
      using fetch_packets_secure [OF assms(1) b1(1)] b1(2,3) by simp
    moreover have "n \<le> size_t_add ?n 0"
      using assms(4) by (cases "n < 2 ^ 31") (simp_all add: int_param size_t_add_def)
    ultimately show ?thesis by (elim secure_mono) (simp add: length_rest)
  qed
  have "secure False (\<lambda>_ b'. bcpOffset b' = 0) (drop_parsed enl b)"
    using drop_parsed_secure [OF assms(1,2)] assms(3) by simp
  then have "secure False (\<lambda>_ b'. n \<le> length (rest b')) (bulk_then (drop_parsed enl b) (\<lambda>_. fetch_packets enl True ?n))"
    by (rule secure_then) (simp add: fetch)
  then show ?thesis
    using assms sound_rest [OF assms(2)]
    by (simp add: CheckMessageHasEnoughBytesToReadRows_def has_enough_def FetchMoreBcpData_def)
qed

subsection \<open>Values\<close>

lemma unat_byte_less: "unat (x :: byte) < 256"
proof -
  have "unat x < 2 ^ LENGTH(8)" by (rule unsigned_less)
  then show ?thesis by simp
qed

lemma le_value_bound: "le_value v < 256 ^ length v"
proof (induction v)
  case (Cons x v)
  have "unat x < 256" using unat_byte_less [of x] by simp
  with Cons show ?case by simp
qed simp

lemma char_value_bound: "char_value sx x < 2 ^ 32"
  using unat_byte_less [of x] by (simp add: char_value_def)

lemma datum_secure:
  assumes "env_spec env" and "sound b" and "\<not> on_stack b"
  shows "secure False (\<lambda>_ b'. b' = b) (attempt (column_datum env col v) b)"
  using secure_attempt [OF assms(2), of False "\<lambda>_. True" "column_datum env col v"] assms(1,3)
  by (auto simp: env_spec_def)

lemma env_enlarge: "env_spec env \<Longrightarrow> enlarge_spec (enlargeStringInfo env)"
  by (simp add: env_spec_def)

lemmas row_bytes_secure =
  secure_then [OF row_check_secure [OF env_enlarge]] secure_then [OF secure_peek] secure_then [OF datum_secure]

lemma sized_value_secure:
  assumes "env_spec env" and "sound b" and "\<not> on_stack b" and "maxLen col < 2 ^ 32"
  shows "secure False (\<lambda>_ _. True) (sized_value env col len b)"
  unfolding sized_value_def
  using assms by (auto intro!: secure_if row_bytes_secure)

lemma byte_sized_value_secure:
  assumes "env_spec env" and "sound b" and "\<not> on_stack b" and "maxLen col < 2 ^ 32"
  shows "secure False (\<lambda>_ _. True) (byte_sized_value env col b)"
  unfolding byte_sized_value_def Let_def
  using assms by (auto intro!: secure_if row_bytes_secure sized_value_secure)

lemma long_sized_value_secure:
  assumes "env_spec env" and "sound b" and "\<not> on_stack b" and "maxLen col < 2 ^ 32" and "4 \<le> length (rest b)"
  shows "secure False (\<lambda>_ _. True) (long_sized_value env col b)"
  unfolding long_sized_value_def Let_def
  using assms by (auto intro!: secure_if secure_then [OF secure_peek] sized_value_secure)

lemma text_value_secure:
  assumes "env_spec env" and "sound b" and "\<not> on_stack b" and "maxLen col < 2 ^ 32"
  shows "secure False (\<lambda>_ _. True) (text_value env col b)"
proof -
  have "unat (x :: byte) + 8 + 4 < 2 ^ 32" for x using unat_byte_less [of x] by simp
  then show ?thesis
    unfolding text_value_def Let_def
    using assms by (auto intro!: secure_if row_bytes_secure long_sized_value_secure)
qed

lemma variant_value_secure:
  assumes "env_spec env" and "sound b" and "\<not> on_stack b" and "maxLen col < 2 ^ 32"
  shows "secure False (\<lambda>_ _. True) (variant_value env col b)"
  unfolding variant_value_def
  using assms by (auto intro!: row_bytes_secure long_sized_value_secure)

text \<open>The chunks that are kept for later lie within the message, which only grows.\<close>

lemma plp_loop_secure:
  assumes "enlarge_spec enl" and "sound b" and "\<not> on_stack b" and "chunks_in (length (message b)) plp"
  shows "secure False (\<lambda>(ok, plp', _) b'. ok \<longrightarrow> chunks_in (length (message b')) plp') (plp_loop enl plp lenCheck b)"
    (is "secure _ ?P _")
  unfolding secure_def
proof (intro allI impI)
  fix r assume "plp_loop enl plp lenCheck b = Some r"
  then have "enlarge_spec enl \<longrightarrow> sound b \<longrightarrow> \<not> on_stack b \<longrightarrow> chunks_in (length (message b)) plp \<longrightarrow> secure_outcome False ?P r"
  proof (rule plp_loop.raw_induct [where P = "\<lambda>enl plp lenCheck b r. enlarge_spec enl \<longrightarrow> sound b \<longrightarrow> \<not> on_stack b \<longrightarrow>
      chunks_in (length (message b)) plp \<longrightarrow> secure_outcome False (\<lambda>(ok, plp', _) b'. ok \<longrightarrow> chunks_in (length (message b')) plp') r", rotated], goal_cases)
    case (1 loop enl plp lenCheck b r)
    show ?case
    proof (intro impI)
      assume enl: "enlarge_spec enl" and b: "sound b" "\<not> on_stack b" "chunks_in (length (message b)) plp"
      have rec: "secure False ?P (loop enl plp' k b')" if "sound b'" "\<not> on_stack b'" "chunks_in (length (message b')) plp'" for plp' k b'
        using 1(1) [of enl plp' k b'] enl that by (auto simp: secure_def)
      have grow: "chunks_in (length (message b2)) plp" if "chunks_in (length (message b1)) plp" "length (message b1) \<le> length (message b2)" for b1 b2
        using that by (rule chunks_in_mono)
      have chunk: "secure False ?P (bulk_then (CheckPlpMessageHasEnoughBytesToRead enl n b1) (\<lambda>_ b.
          if length (message b) < bcpOffset b + n then Some (Ok (False, plp @ [(bcpOffset b1, n)], lenCheck) b)
          else loop enl (plp @ [(bcpOffset b1, n)]) (size_t_add lenCheck n) (count n b)))"
        if "sound b1" "\<not> on_stack b1" "chunks_in (length (message b1)) plp" for n b1
      proof (rule secure_then [OF plp_check_secure [OF enl that(1)]], goal_cases)
        case (2 x b2)
        then have "chunks_in (length (message (count n b2))) (plp @ [(bcpOffset b1, n)])" if "bcpOffset b2 + n \<le> length (message b2)"
          using grow [OF \<open>chunks_in (length (message b1)) plp\<close>, of b2] that by (simp add: chunks_in_def count_def)
        with 2 show ?case
          by (auto intro!: rec simp: length_rest)
      qed (use that in simp)
      have "secure False ?P (bulk_then (CheckPlpMessageHasEnoughBytesToRead enl 4 b) (\<lambda>_ b.
     if length (message b) < bcpOffset b + 4 then Some (Ok (False, plp, lenCheck) b)
     else bulk_then (peek 4 b) (\<lambda>v b.
          if le_value v = PLP_TERMINATOR then Some (Ok (True, plp, lenCheck) (count 4 b))
          else bulk_then (CheckPlpMessageHasEnoughBytesToRead enl (le_value v) (count 4 b)) (\<lambda>_ b'.
                     if length (message b') < bcpOffset b' + le_value v
                     then Some (Ok (False, plp @ [(bcpOffset (count 4 b), le_value v)], lenCheck) b')
                     else loop enl (plp @ [(bcpOffset (count 4 b), le_value v)]) (size_t_add lenCheck (le_value v)) (count (le_value v) b')))))"
      proof (rule secure_then [OF plp_check_secure [OF enl b(1)]], goal_cases)
        case (2 x b1)
        then have "chunks_in (length (message (count 4 b1))) plp" using grow [OF b(3), of "count 4 b1"] by (simp add: count_def)
        with 2 show ?case
          by (auto intro!: secure_if secure_then [OF secure_peek] chunk simp: length_rest)
      qed (use b in simp)
      with 1(2) show "secure_outcome False ?P r" unfolding Let_def by (simp add: secure_def)
    qed
  qed
  with assms show "secure_outcome False ?P r" by blast
qed

lemma append_chunks_fine:
  assumes "reports enl" and "\<forall>(off, n) \<in> set plp. off + n \<le> length msg"
  shows "fine (\<lambda>_. True) (append_chunks enl msg pbuf plp)"
  using assms(2)
proof (induction plp arbitrary: pbuf)
  case (Cons t plp)
  have "fine (\<lambda>_. True) (enl (length pbuf) (snd t))" using assms(1) by (simp add: reports_def)
  with Cons show ?case
    by (cases "enl (length pbuf) (snd t)") (auto simp: and_then_def read_at_def)
qed simp

lemma plp_value_secure:
  assumes env: "env_spec env" and b: "sound b" "\<not> on_stack b"
  shows "secure False (\<lambda>_ _. True) (plp_value env col b)"
proof -
  let ?enl = "enlargeStringInfo env"
  have enl: "enlarge_spec ?enl" "reports ?enl" using env by (simp_all add: env_spec_def enlarge_spec_def)
  have buffer: "fine (\<lambda>_. True) (TdsGetPlpStringInfoBufferFromToken ?enl (message b1) plp)" if "chunks_in (length (message b1)) plp" for plp b1
    using append_chunks_fine [OF enl(2), of plp "message b1" "[]"] that enl(2)
    by (cases "?enl 0 (sum_list (map snd plp))")
      (force simp: TdsGetPlpStringInfoBufferFromToken_def and_then_def chunks_in_def reports_def fine_def split: sum.splits)+
  have "secure False (\<lambda>(ok, token) b'. ok \<longrightarrow> (\<forall>plp. token = Some plp \<longrightarrow> chunks_in (length (message b')) plp)) (ReadBcpPlp ?enl b)"
    unfolding ReadBcpPlp_def Let_def using b enl(1)
    by (auto intro!: secure_then [OF plp_check_secure [where n = 8]] secure_then [OF secure_peek] secure_if
        secure_then [OF plp_loop_secure])
  then show ?thesis
    unfolding plp_value_def
  proof (rule secure_then, goal_cases)
    case (1 x b1)
    then show ?case
      using env buffer [of b1]
      by (cases x; cases "snd x")
        (auto intro!: secure_then [OF secure_attempt] secure_then [OF datum_secure])
  qed
qed

lemma string_value_secure:
  assumes "env_spec env" and "sound b" and "\<not> on_stack b"
  shows "secure False (\<lambda>_ _. True) (string_value env col b)"
proof -
  have "le_value v < 2 ^ 32" if "length v = 2" for v
    using le_value_bound [of v] that by simp
  then show ?thesis
    unfolding string_value_def Let_def
    using assms by (auto intro!: secure_if row_bytes_secure plp_value_secure)
qed

lemma column_value_secure:
  assumes "env_spec env" and "sound b" and "\<not> on_stack b" and "maxLen col < 2 ^ 32"
  shows "secure False (\<lambda>_ _. True) (column_value env col b)"
  unfolding column_value_def fixed_value_def numeric_value_def Let_def
  using assms by (intro secure_if sized_value_secure byte_sized_value_secure string_value_secure
      text_value_secure plp_value_secure variant_value_secure) simp_all

subsection \<open>Rows and batches\<close>

lemma column_values_secure:
  assumes "env_spec env" and "sound b" and "\<not> on_stack b" and "\<forall>col \<in> set cols. maxLen col < 2 ^ 32"
  shows "secure False (\<lambda>_ _. True) (column_values env cols b)"
  using assms(2-)
proof (induction cols arbitrary: b)
  case (Cons col cols)
  then show ?case
    by (auto intro!: secure_then [OF column_value_secure [OF assms(1)]] secure_then [OF Cons.IH])
qed simp

lemma row_loop_secure:
  assumes "env_spec env" and "\<forall>col \<in> set cols. maxLen col < 2 ^ 32"
    and "sound b" and "\<not> on_stack b" and "1 \<le> length (rest b)"
  shows "secure False (\<lambda>_ _. True) (row_loop env cols rows b)"
  unfolding secure_def
proof (intro allI impI)
  fix r assume "row_loop env cols rows b = Some r"
  then have "env_spec env \<longrightarrow> (\<forall>col \<in> set cols. maxLen col < 2 ^ 32) \<longrightarrow> sound b \<longrightarrow> \<not> on_stack b \<longrightarrow>
      1 \<le> length (rest b) \<longrightarrow> secure_outcome False (\<lambda>_ _. True) r"
  proof (rule row_loop.raw_induct [where P = "\<lambda>env cols rows b r. env_spec env \<longrightarrow> (\<forall>col \<in> set cols. maxLen col < 2 ^ 32) \<longrightarrow>
      sound b \<longrightarrow> \<not> on_stack b \<longrightarrow> 1 \<le> length (rest b) \<longrightarrow> secure_outcome False (\<lambda>_ _. True) r", rotated], goal_cases)
    case (1 loop env cols rows b r)
    show ?case
    proof (intro impI)
      assume env: "env_spec env" and cols: "\<forall>col \<in> set cols. maxLen col < 2 ^ 32"
        and b: "sound b" "\<not> on_stack b" "1 \<le> length (rest b)"
      have rec: "secure False (\<lambda>_ _. True) (loop env cols rows' b')"
        if "sound b'" "on_stack b' = False" "1 \<le> length (rest b')" for rows' b'
        using 1(1) [of env cols rows' b'] env cols that by (auto simp: secure_def)
      let ?b = "count 1 (b\<lparr>rowCount := to_int32 (rowCount b + 1)\<rparr>)"
      have "sound ?b" using b(1,3) by (simp add: sound_def count_def length_rest)
      then have "secure False (\<lambda>_ _. True) (bulk_then (column_values env cols ?b) (\<lambda>row b.
          bulk_then (CheckMessageHasEnoughBytesToReadRows (enlargeStringInfo env) 1 b) (\<lambda>_ b.
          loop env cols (rows @ [row]) b)))"
        using env cols b(2)
        by (intro secure_then [OF column_values_secure] secure_then [OF row_check_secure] rec) (simp_all add: env_spec_def)
      then have "secure False (\<lambda>_ _. True) (bulk_then (peek 1 b) (\<lambda>v b.
          if hd v = TDS_TOKEN_ROW \<and> batch_open env b
          then bulk_then (column_values env cols (count 1 (b\<lparr>rowCount := to_int32 (rowCount b + 1)\<rparr>))) (\<lambda>row b.
               bulk_then (CheckMessageHasEnoughBytesToReadRows (enlargeStringInfo env) 1 b) (\<lambda>_ b.
               loop env cols (rows @ [row]) b))
          else Some (Ok rows b)))"
        using b by (intro secure_then [OF secure_peek] secure_if) auto
      with 1(2) show "secure_outcome False (\<lambda>_ _. True) r" by (simp add: secure_def)
    qed
  qed
  with assms show "secure_outcome False (\<lambda>_ _. True) r" by blast
qed

lemma SetBulkLoadRowData_secure:
  assumes "env_spec env" and "\<forall>col \<in> set cols. maxLen col < 2 ^ 32" and "sound b" and "\<not> on_stack b"
  shows "secure False (\<lambda>_ _. True) (SetBulkLoadRowData env cols b)"
proof -
  have ends: "secure False (\<lambda>_ _. True) (check_done env b1)"
    if "sound b1" "\<not> on_stack b1" "1 \<le> length (rest b1)" for b1
  proof -
    have "size_t_add n 1 < 2 ^ 32" if "n < 13" for n using that by (simp add: size_t_add_def)
    then show ?thesis
      unfolding check_done_def Let_def using that assms(1) sound_rest [OF that(1)]
      by (auto intro!: secure_if secure_then [OF secure_peek] secure_mono [OF row_check_secure [OF env_enlarge]])
  qed
  have "sound (b\<lparr>rowCount := 0, currentBatchSize := 0\<rparr>)" using assms(3) by (simp add: sound_def)
  then show ?thesis
    unfolding SetBulkLoadRowData_def using assms
    by (auto intro!: row_bytes_secure(1) secure_then [OF row_loop_secure] secure_then [OF ends])
qed

lemma cleanup_secure:
  assumes "secure False P m"
  shows "secure False P (cleaning_up m)"
proof -
  have "secure False P (CleanupBCPDuringError e b)" if "is_report e" "recv_ok (comm b)" for e b
    using TdsDiscardAllPendingBcpRequest_safe [OF that(2)] that
    unfolding CleanupBCPDuringError_def Let_def
    by (cases "TdsDiscardAllPendingBcpRequest (comm b)")
      (auto simp: TdsResetBcpOffset_def safe_def fine_def kept_def split: sum.splits)
  with assms show ?thesis by (cases m) (auto split: outcome.splits)
qed

lemma batch_loop_secure:
  assumes "env_spec env" and "\<forall>col \<in> set cols. maxLen col < 2 ^ 32" and "sound b" and "\<not> on_stack b"
  shows "secure False (\<lambda>_ _. True) (batch_loop env cols retValue t b)"
  unfolding secure_def
proof (intro allI impI)
  fix r assume "batch_loop env cols retValue t b = Some r"
  then have "env_spec env \<longrightarrow> (\<forall>col \<in> set cols. maxLen col < 2 ^ 32) \<longrightarrow> sound b \<longrightarrow> \<not> on_stack b \<longrightarrow>
      secure_outcome False (\<lambda>_ _. True) r"
  proof (rule batch_loop.raw_induct [where P = "\<lambda>env cols retValue t b r. env_spec env \<longrightarrow>
      (\<forall>col \<in> set cols. maxLen col < 2 ^ 32) \<longrightarrow> sound b \<longrightarrow> \<not> on_stack b \<longrightarrow>
      secure_outcome False (\<lambda>_ _. True) r", rotated], goal_cases)
    case (1 loop env cols retValue t b r)
    show ?case
    proof (intro impI)
      assume env: "env_spec env" and cols: "\<forall>col \<in> set cols. maxLen col < 2 ^ 32" and b: "sound b" "\<not> on_stack b"
      have rec: "secure False (\<lambda>_ _. True) (loop env cols n t' b')" if "sound b'" "on_stack b' = False" for n t' b'
        using 1(1) [of env cols n t' b'] env cols that by (auto simp: secure_def)
      have call: "secure False (\<lambda>x b''. b'' = b' \<and> True) (attempt (bulk_load_callback env n k vs t) b')"
        if "sound b'" "on_stack b' = False" for n k vs b'
        using env that by (intro secure_attempt) (simp_all add: env_spec_def)
      have end_sound: "sound (TdsResetBcpOffset b')" "on_stack (TdsResetBcpOffset b') = on_stack b'" if "sound b'" for b'
        using that by (simp_all add: sound_def TdsResetBcpOffset_def)
      have "secure False (\<lambda>_ _. True) (bulk_then (cleaning_up (SetBulkLoadRowData env cols b)) (\<lambda>rows b.
          bulk_then (cleaning_up (attempt (bulk_load_callback env
            (if rowCount b \<noteq> 0 then length cols else 0) (rowCount b) (concat rows) t) b)) (\<lambda>(n, t) b.
          if rows \<noteq> [] then loop env cols (size_t_add retValue n) t b
          else Some (Ok (size_t_add retValue n, t) (TdsResetBcpOffset b)))))"
        using env cols b
        by (intro secure_then [OF cleanup_secure [OF SetBulkLoadRowData_secure]] secure_then [OF cleanup_secure [OF call]])
          (auto intro!: rec simp: end_sound)
      with 1(2) show "secure_outcome False (\<lambda>_ _. True) r" by (simp add: secure_def)
    qed
  qed
  with assms show "secure_outcome False (\<lambda>_ _. True) r" by blast
qed

subsection \<open>Metadata\<close>

lemma meta_bytes_secure:
  assumes "enlarge_spec enl" and "sound b" and "on_stack b = s" and "n < 2 ^ 31"
  shows "secure s (\<lambda>v _. length v = n) (meta_bytes enl n b)"
  unfolding meta_bytes_def
  using assms by (auto intro!: secure_then [OF meta_check_secure] secure_then [OF secure_peek])

lemma table_name_secure:
  assumes "enlarge_spec enl" and "sound b" and "on_stack b = s"
  shows "secure s (\<lambda>_ _. True) (table_name enl b)"
proof -
  have "le_value v * 2 < 2 ^ 31" if "length v = 2" for v
    using le_value_bound [of v] that by simp
  then show ?thesis
    unfolding table_name_def Let_def
    using assms by (auto intro!: secure_then [OF meta_bytes_secure] secure_then [OF meta_check_secure])
qed

lemma type_info_secure:
  assumes env: "env_spec env" and b: "sound b" "on_stack b = s" and col: "maxLen col < 2 ^ 32"
  shows "secure s (\<lambda>col' _. maxLen col' < 2 ^ 32) (type_info env col b)"
proof -
  have short: "le_value v < 2 ^ 32" if "length v \<le> 4" for v
    using le_value_bound [of v] power_increasing [OF that, of "256 :: nat"] by simp
  have variant: "n < 2 ^ 32" if "variant_info t = Some (t', n)" for t t' n
    using that by (auto simp: variant_info_def split: if_splits)
  note then_bytes = secure_then [OF meta_bytes_secure [OF env_enlarge [OF env]]]
    and then_name = secure_then [OF table_name_secure [OF env_enlarge [OF env]]]
  show ?thesis
    unfolding type_info_def Let_def
    by (intro secure_if then_bytes then_name)
      (use b variant in \<open>simp_all add: short [simplified] char_value_bound [simplified] split: option.split\<close>)
qed

lemma column_metadata_secure:
  assumes "env_spec env" and "sound b" and "on_stack b = s"
  shows "secure s (\<lambda>col _. maxLen col < 2 ^ 32) (column_metadata env b)"
proof -
  have name: "unat (x :: byte) * 2 < 2 ^ 31" for x using unat_byte_less [of x] by simp
  show ?thesis
    unfolding column_metadata_def
    by (intro secure_then [OF meta_bytes_secure [OF env_enlarge]] secure_then [OF type_info_secure] assms)
      (use assms name in simp_all)
qed

lemma columns_metadata_secure:
  assumes "env_spec env" and "sound b" and "on_stack b = s"
  shows "secure s (\<lambda>cols _. \<forall>col \<in> set cols. maxLen col < 2 ^ 32) (columns_metadata env n b)"
  using assms(2,3)
proof (induction n arbitrary: b)
  case (Suc n)
  show ?case
    unfolding columns_metadata.simps
    by (intro secure_then [OF column_metadata_secure [OF assms(1)]] secure_then [OF Suc.IH]) (use Suc.prems in auto)
qed simp

lemma GetBulkLoadRequest_secure:
  assumes env: "env_spec env" and "recv_ok (comm b)" and "length (message b) \<le> MaxAllocSize"
  shows "case GetBulkLoadRequest env b of
      Some (Ok cols b1) \<Rightarrow> sound b1 \<and> \<not> on_stack b1 \<and> (\<forall>col \<in> set cols. maxLen col < 2 ^ 32)
    | Some r \<Rightarrow> secure_outcome (on_stack b) (\<lambda>_ _. True) r
    | None \<Rightarrow> True"
proof -
  note enl = env_enlarge [OF env]
  let ?b = "TdsResetBcpOffset b" and ?s = "on_stack b"
  have b: "sound ?b" "on_stack ?b = ?s" using assms by (simp_all add: sound_def TdsResetBcpOffset_def)
  have cols: "secure ?s (\<lambda>cols _. \<forall>col \<in> set cols. maxLen col < 2 ^ 32) (request_metadata env ?b)"
    unfolding request_metadata_def counted_metadata_def Let_def
    by (intro secure_then [OF meta_check_secure [OF enl]] secure_then [OF secure_peek] secure_if
        columns_metadata_secure [OF env]) (use b in simp_all)
  have enlarged: "fine (\<lambda>_. True) (enlargeStringInfo env 0 n)" for n
    using enl by (simp add: enlarge_spec_def reports_def)
  show ?thesis
  proof (cases "request_metadata env ?b")
    case None
    then show ?thesis by (simp add: GetBulkLoadRequest_def)
  next
    case (Some r)
    with cols have r: "secure_outcome ?s (\<lambda>cols _. \<forall>col \<in> set cols. maxLen col < 2 ^ 32) r" by simp
    show ?thesis
    proof (cases r)
      case (Ok xs b1)
      with r enlarged [of "length (message b1)"] Some show ?thesis
        by (cases "enlargeStringInfo env 0 (length (message b1))")
          (simp_all add: GetBulkLoadRequest_def attempt_def sound_def)
    qed (use r Some in \<open>simp_all add: GetBulkLoadRequest_def\<close>)
  qed
qed


text \<open>A bulk load whose last row has a chunk of \<open>2^32 - 1\<close> bytes.\<close>

definition hostile_bulk :: bulk where
  "hostile_bulk =
     \<lparr>comm = new_comm 512 (packet TDS_BULK_LOAD TDS_PACKET_HEADER_STATUS_EOM
        (sample_rows @ [209, 1, 2, 3, 4, 3, 0, 0, 0, 0, 0, 0, 0, 255, 255, 255, 255])) [] [],
      message = sample_metadata, on_stack = True, bcpOffset = 0, rowCount = 0, currentBatchSize = 0\<rparr>"

definition limited_enlarge :: enlarge where
  "limited_enlarge len n =
     (if len + n < MaxAllocSize then Inr () else ereport ERRCODE_OUT_OF_MEMORY ''out of memory'')"

lemma fine_if: "fine P x \<Longrightarrow> fine P y \<Longrightarrow> fine P (if c then x else y)"
  by simp

lemma limited_env: "env_spec (plain_env\<lparr>enlargeStringInfo := limited_enlarge\<rparr>)"
proof -
  let ?env = "plain_env\<lparr>enlargeStringInfo := limited_enlarge\<rparr>"
  have "fine (\<lambda>_. True) (column_datum ?env col v)" for col v
    unfolding column_datum_def Let_def by (intro fine_if) (simp_all add: plain_env_def)
  then show ?thesis
    by (simp add: env_spec_def enlarge_spec_def reports_def limited_enlarge_def)
qed


end
