(* ===== verification/Applock.thy ===== *)
theory Applock
  imports Memory "HOL-Library.AList"
begin

text \<open>
  Application locks, \<^verbatim>\<open>babelfishpg_tsql/src/applock.c\<close>: named locks of several sessions on top of
  the lock manager of the server. A name is hashed to a key; a cache shared by all sessions
  keeps names with the same hash apart, and a cache of each session remembers the modes it
  holds.
\<close>

section \<open>Modes\<close>

datatype Applock_All_Lockmode =
    APPLOCKMODE_NOLOCK
  | APPLOCKMODE_INTENTEXCLUSIVE
  | APPLOCKMODE_INTENTSHARED
  | APPLOCKMODE_SHARED
  | APPLOCKMODE_UPDATE
  | APPLOCKMODE_EXCLUSIVE
  | APPLOCKMODE_SHAREDINTENTEXCLUSIVE
  | APPLOCKMODE_UPDATEINTENTEXCLUSIVE

primrec mode_number :: "Applock_All_Lockmode \<Rightarrow> nat" where
  "mode_number APPLOCKMODE_NOLOCK = 0"
| "mode_number APPLOCKMODE_INTENTEXCLUSIVE = 1"
| "mode_number APPLOCKMODE_INTENTSHARED = 2"
| "mode_number APPLOCKMODE_SHARED = 3"
| "mode_number APPLOCKMODE_UPDATE = 4"
| "mode_number APPLOCKMODE_EXCLUSIVE = 5"
| "mode_number APPLOCKMODE_SHAREDINTENTEXCLUSIVE = 6"
| "mode_number APPLOCKMODE_UPDATEINTENTEXCLUSIVE = 7"

lemma mode_number_inject: "mode_number m = mode_number m' \<Longrightarrow> m = m'"
  by (cases m; cases m') simp_all

instantiation Applock_All_Lockmode :: linorder
begin

definition less_eq_Applock_All_Lockmode :: "Applock_All_Lockmode \<Rightarrow> Applock_All_Lockmode \<Rightarrow> bool" where
  "less_eq_Applock_All_Lockmode m m' \<longleftrightarrow> mode_number m \<le> mode_number m'"

definition less_Applock_All_Lockmode :: "Applock_All_Lockmode \<Rightarrow> Applock_All_Lockmode \<Rightarrow> bool" where
  "less_Applock_All_Lockmode m m' \<longleftrightarrow> mode_number m < mode_number m'"

instance
  by intro_classes (auto simp: less_eq_Applock_All_Lockmode_def less_Applock_All_Lockmode_def mode_number_inject)

end

primrec AppLockModeStrings :: "Applock_All_Lockmode \<Rightarrow> string" where
  "AppLockModeStrings APPLOCKMODE_NOLOCK = ''NoLock''"
| "AppLockModeStrings APPLOCKMODE_INTENTEXCLUSIVE = ''IntentExclusive''"
| "AppLockModeStrings APPLOCKMODE_INTENTSHARED = ''IntentShared''"
| "AppLockModeStrings APPLOCKMODE_SHARED = ''Shared''"
| "AppLockModeStrings APPLOCKMODE_UPDATE = ''Update''"
| "AppLockModeStrings APPLOCKMODE_EXCLUSIVE = ''Exclusive''"
| "AppLockModeStrings APPLOCKMODE_SHAREDINTENTEXCLUSIVE = ''SharedIntentExclusive''"
| "AppLockModeStrings APPLOCKMODE_UPDATEINTENTEXCLUSIVE = ''UpdateIntentExclusive''"

text \<open>The modes of the server's locks that are used, and the table of compatible modes.\<close>

datatype pg_lockmode = RowShareLock | RowExclusiveLock | ShareUpdateExclusiveLock | ShareLock | ExclusiveLock

definition getPGLockMode :: "Applock_All_Lockmode \<Rightarrow> pg_lockmode option" where
  "getPGLockMode mode =
     (if mode = APPLOCKMODE_EXCLUSIVE then Some ExclusiveLock
      else if mode = APPLOCKMODE_SHARED then Some ShareLock
      else if mode = APPLOCKMODE_UPDATE then Some ShareUpdateExclusiveLock
      else if mode = APPLOCKMODE_INTENTSHARED then Some RowShareLock
      else if mode = APPLOCKMODE_INTENTEXCLUSIVE then Some RowExclusiveLock
      else None)"

fun compatible :: "Applock_All_Lockmode \<Rightarrow> Applock_All_Lockmode \<Rightarrow> bool" where
  "compatible APPLOCKMODE_INTENTSHARED m = (m \<noteq> APPLOCKMODE_EXCLUSIVE)"
| "compatible APPLOCKMODE_SHARED m =
     (m \<in> {APPLOCKMODE_INTENTSHARED, APPLOCKMODE_SHARED, APPLOCKMODE_UPDATE})"
| "compatible APPLOCKMODE_UPDATE m = (m \<in> {APPLOCKMODE_INTENTSHARED, APPLOCKMODE_SHARED})"
| "compatible APPLOCKMODE_INTENTEXCLUSIVE m =
     (m \<in> {APPLOCKMODE_INTENTSHARED, APPLOCKMODE_INTENTEXCLUSIVE})"
| "compatible _ m = False"

definition acquirable :: "Applock_All_Lockmode \<Rightarrow> bool" where
  "acquirable m \<longleftrightarrow> getPGLockMode m \<noteq> None"

section \<open>Parameters\<close>

text \<open>
  What is used of the machine and of the server: whether \<open>char\<close> is signed, the comparison
  that ignores case, the conversion of a text to a C string of bounded length, and the lock
  manager on a state \<open>'l\<close>, with the number of times a session holds a lock as an observation.
  \<open>LOCKACQUIRE_OK\<close> stands for every result with the lock held, which the source treats alike.
\<close>

record locktag =
  locktag_field1 :: nat
  locktag_field2 :: int
  locktag_field3 :: int
  locktag_field4 :: int

datatype acquire_result = LOCKACQUIRE_OK | LOCKACQUIRE_NOT_AVAIL | Acquire_error errcode

record 'l applock_env =
  char_signed :: bool
  pg_strcasecmp :: "string \<Rightarrow> string \<Rightarrow> int"
  text_to_cstring_buffer :: "string \<Rightarrow> nat \<Rightarrow> string"
  LockAcquire :: "nat \<Rightarrow> locktag \<Rightarrow> pg_lockmode \<Rightarrow> bool \<Rightarrow> bool \<Rightarrow> 'l \<Rightarrow> acquire_result \<times> 'l"
  LockRelease :: "nat \<Rightarrow> locktag \<Rightarrow> pg_lockmode \<Rightarrow> bool \<Rightarrow> 'l \<Rightarrow> bool \<times> 'l"
  LockReleaseAll :: "nat \<Rightarrow> bool \<Rightarrow> 'l \<Rightarrow> 'l"
  held :: "'l \<Rightarrow> nat \<Rightarrow> locktag \<Rightarrow> pg_lockmode \<Rightarrow> bool \<Rightarrow> nat"

text \<open>
  The circumstances of a call: whether the server is in parallel mode or in a transaction,
  and how far the finish time of the lock timer lies after the start of the request, in
  microseconds.
\<close>

record applock_call =
  IsInParallelMode :: bool
  IsTransactionBlockActive :: bool
  elapsed :: int

section \<open>State\<close>

record AppLockCacheEnt =
  resource :: string
  refcount :: nat

record AppLockLocalEnt = AppLockCacheEnt +
  mode_head :: "Applock_All_Lockmode list"
  is_session :: bool

text \<open>A request that has its key and waits for the lock.\<close>

record applock_request =
  req_key :: int
  req_resource :: string
  req_mode :: Applock_All_Lockmode
  req_session :: bool
  req_timeout :: int
  no_wait :: bool
  cur_timeout :: int

record applock_session =
  appLockCacheLocal :: "(int \<times> AppLockLocalEnt) list"
  lock_timeout :: int
  MyDatabaseId :: nat
  waiting :: "applock_request option"

record 'l applocks =
  appLockCacheGlobal :: "(int \<times> AppLockCacheEnt) list"
  sessions :: "applock_session list"
  lock_state :: 'l

abbreviation me :: "nat \<Rightarrow> 'l applocks \<Rightarrow> applock_session" where
  "me s st \<equiv> sessions st ! s"

definition set_me :: "nat \<Rightarrow> applock_session \<Rightarrow> 'l applocks \<Rightarrow> 'l applocks" where
  "set_me s x st = st\<lparr>sessions := (sessions st)[s := x]\<rparr>"

definition uint32_add1 :: "nat \<Rightarrow> nat" where
  "uint32_add1 n = nat ((int n + 1) mod 2 ^ 32)"

section \<open>Keys\<close>

definition APPLOCK_MAX_RESOURCE_LENGTH :: nat where "APPLOCK_MAX_RESOURCE_LENGTH = 256"
definition APPLOCK_MAX_TRY_SEARCH_KEY :: nat where "APPLOCK_MAX_TRY_SEARCH_KEY = 5"

definition c_char :: "bool \<Rightarrow> char \<Rightarrow> int" where
  "c_char sx c = (let n = of_char c in if sx \<and> 128 \<le> n then n - 256 else n)"

primrec hash_loop :: "bool \<Rightarrow> int \<Rightarrow> int \<Rightarrow> string \<Rightarrow> int" where
  "hash_loop sx hash_value p_pow [] = hash_value"
| "hash_loop sx hash_value p_pow (c # str) =
     hash_loop sx ((hash_value + to_int64 ((c_char sx c - 97 + 1) * p_pow)) mod 2 ^ 64 mod INT64_MAX)
       (to_int64 (p_pow * 31) smod INT64_MAX) str"

definition applock_simple_hash :: "bool \<Rightarrow> string \<Rightarrow> int" where
  "applock_simple_hash sx str = hash_loop sx 0 1 str"

definition next_key :: "int \<Rightarrow> int" where
  "next_key key = (key smod INT64_MAX) + 1"

definition ApplockSetLocktag :: "nat \<Rightarrow> int \<Rightarrow> locktag" where
  "ApplockSetLocktag db key =
     \<lparr>locktag_field1 = db, locktag_field2 = key div 2 ^ 32 mod 2 ^ 32,
      locktag_field3 = key mod 2 ^ 32, locktag_field4 = 2\<rparr>"

text \<open>The search in one of the two caches.\<close>

primrec search_key :: "nat \<Rightarrow> (int \<times> 'e AppLockCacheEnt_scheme) list \<Rightarrow> string \<Rightarrow> int \<Rightarrow> int" where
  "search_key 0 cache r key = - 1"
| "search_key (Suc n) cache r key =
     (case map_of cache key of
        Some e \<Rightarrow> if resource e = r then key else search_key n cache r (next_key key)
      | None \<Rightarrow> search_key n cache r (next_key key))"

definition AppLockSearchKeyLocal :: "bool \<Rightarrow> (int \<times> AppLockLocalEnt) list \<Rightarrow> string \<Rightarrow> int" where
  "AppLockSearchKeyLocal sx cache r = search_key APPLOCK_MAX_TRY_SEARCH_KEY cache r (applock_simple_hash sx r)"

definition AppLockSearchKeyGlobal :: "bool \<Rightarrow> (int \<times> AppLockCacheEnt) list \<Rightarrow> string \<Rightarrow> int" where
  "AppLockSearchKeyGlobal sx cache r = search_key APPLOCK_MAX_TRY_SEARCH_KEY cache r (applock_simple_hash sx r)"

definition ApplockUnrefGlobalCache :: "int \<Rightarrow> (int \<times> AppLockCacheEnt) list \<Rightarrow> (int \<times> AppLockCacheEnt) list" where
  "ApplockUnrefGlobalCache key g =
     (case map_of g key of
        None \<Rightarrow> g
      | Some e \<Rightarrow>
          let n = uint32_sub (refcount e) 1
          in if n = 0 then AList.delete key g else AList.update key (e\<lparr>refcount := n\<rparr>) g)"

text \<open>
  Finding a key takes up to three critical sections: the search, the reference to the entry
  that was found, and the search for a free key. If the entry is gone by the second one, an
  entry with unspecified content is entered.
\<close>

definition reference_found ::
  "AppLockCacheEnt \<Rightarrow> int \<Rightarrow> (int \<times> AppLockCacheEnt) list \<Rightarrow> bool \<times> (int \<times> AppLockCacheEnt) list" where
  "reference_found fresh key g =
     (case map_of g key of
        Some e \<Rightarrow> (True, AList.update key (e\<lparr>refcount := uint32_add1 (refcount e)\<rparr>) g)
      | None \<Rightarrow> (False, AList.update key fresh g))"

primrec free_key ::
  "nat \<Rightarrow> (int \<times> AppLockCacheEnt) list \<Rightarrow> string \<Rightarrow> int \<Rightarrow> int \<Rightarrow> int \<times> (int \<times> AppLockCacheEnt) list" where
  "free_key 0 g r key usable_key =
     (usable_key,
      if usable_key \<noteq> - 1
      then AList.update usable_key \<lparr>resource = take APPLOCK_MAX_RESOURCE_LENGTH r, refcount = 1\<rparr> g
      else g)"
| "free_key (Suc n) g r key usable_key =
     (case map_of g key of
        Some e \<Rightarrow>
          if resource e = r
          then (key, AList.update key (e\<lparr>refcount := uint32_add1 (refcount e)\<rparr>) g)
          else free_key n g r (next_key key) usable_key
      | None \<Rightarrow> free_key n g r (next_key key) (if usable_key = - 1 then key else usable_key))"

definition generate_key :: "bool \<Rightarrow> string \<Rightarrow> (int \<times> AppLockCacheEnt) list \<Rightarrow> int \<times> (int \<times> AppLockCacheEnt) list" where
  "generate_key sx r g = free_key APPLOCK_MAX_TRY_SEARCH_KEY g r (applock_simple_hash sx r) (- 1)"

definition ApplockGetUsableKey ::
  "bool \<Rightarrow> AppLockCacheEnt \<Rightarrow> string \<Rightarrow> (int \<times> AppLockCacheEnt) list \<Rightarrow> int \<times> (int \<times> AppLockCacheEnt) list" where
  "ApplockGetUsableKey sx fresh r g =
     (let key = AppLockSearchKeyGlobal sx g r
      in if key \<noteq> - 1
         then let (found, g) = reference_found fresh key g
              in if found then (key, g) else generate_key sx r g
         else generate_key sx r g)"

section \<open>Requests\<close>

definition ApplockCheckLockmode :: "'l applock_env \<Rightarrow> string \<Rightarrow> Applock_All_Lockmode option" where
  "ApplockCheckLockmode env s =
     (if pg_strcasecmp env s ''IntentShared'' = 0 then Some APPLOCKMODE_INTENTSHARED
      else if pg_strcasecmp env s ''Shared'' = 0 then Some APPLOCKMODE_SHARED
      else if pg_strcasecmp env s ''Update'' = 0 then Some APPLOCKMODE_UPDATE
      else if pg_strcasecmp env s ''IntentExclusive'' = 0 then Some APPLOCKMODE_INTENTEXCLUSIVE
      else if pg_strcasecmp env s ''Exclusive'' = 0 then Some APPLOCKMODE_EXCLUSIVE
      else None)"

definition ApplockCheckLockowner :: "'l applock_env \<Rightarrow> string \<Rightarrow> bool option" where
  "ApplockCheckLockowner env s =
     (if pg_strcasecmp env s ''Session'' = 0 then Some True
      else if pg_strcasecmp env s ''Transaction'' = 0 then Some False
      else None)"

definition ApplockSetLockTimeout :: "int \<Rightarrow> int \<Rightarrow> nat \<Rightarrow> 'l applocks \<Rightarrow> 'l applocks" where
  "ApplockSetLockTimeout timeout val s st =
     (if timeout \<noteq> - 99 then set_me s ((me s st)\<lparr>lock_timeout := val\<rparr>) st else st)"

text \<open>
  \<open>_sp_getapplock_internal\<close> up to the attempt to acquire the lock, where the session may have
  to wait, and from there on. A code is returned right away, or a request is left waiting.
\<close>

definition get_begin ::
  "'l applock_env \<Rightarrow> AppLockCacheEnt \<Rightarrow> applock_call \<Rightarrow> nat \<Rightarrow> string \<Rightarrow> string \<Rightarrow> string \<Rightarrow> int \<Rightarrow>
     'l applocks \<Rightarrow> int option \<times> 'l applocks" where
  "get_begin env fresh c s r lockmode lockowner timeout st =
     (if IsInParallelMode c then (Some (- 999), st)
      else case ApplockCheckLockmode env lockmode of
        None \<Rightarrow> (Some (- 999), st)
      | Some mode \<Rightarrow>
      case ApplockCheckLockowner env lockowner of
        None \<Rightarrow> (Some (- 999), st)
      | Some is_ses \<Rightarrow>
      if pg_strcasecmp env lockowner ''Transaction'' = 0 \<and> \<not> IsTransactionBlockActive c
      then (Some (- 999), st)
      else let (key, g) = ApplockGetUsableKey (char_signed env) fresh r (appLockCacheGlobal st);
               st = st\<lparr>appLockCacheGlobal := g\<rparr>
           in if key < 0 then (Some (- 999), st)
              else let nw = (timeout = 0);
                       timeout = (if timeout = - 1 then 0 else timeout);
                       cur = lock_timeout (me s st);
                       st = ApplockSetLockTimeout timeout timeout s st
                   in (None, set_me s ((me s st)\<lparr>waiting := Some
                        \<lparr>req_key = key, req_resource = r, req_mode = mode, req_session = is_ses,
                         req_timeout = timeout, no_wait = nw, cur_timeout = cur\<rparr>\<rparr>) st))"

definition insert_local ::
  "applock_request \<Rightarrow> (int \<times> AppLockLocalEnt) list \<Rightarrow> (int \<times> AppLockLocalEnt) list" where
  "insert_local q cache =
     (let e = (case map_of cache (req_key q) of
                 Some e \<Rightarrow> e
               | None \<Rightarrow> \<lparr>resource = [], refcount = 0, mode_head = [], is_session = False\<rparr>)
      in AList.update (req_key q)
           (e\<lparr>resource := take APPLOCK_MAX_RESOURCE_LENGTH (req_resource q), refcount := uint32_add1 (refcount e),
              mode_head := req_mode q # mode_head e, is_session := req_session q\<rparr>) cache)"

definition error_code :: "int \<Rightarrow> int \<Rightarrow> errcode \<Rightarrow> int" where
  "error_code timeout elapsed_time e =
     (if 0 \<le> timeout \<and> timeout * 1000 < elapsed_time \<and> e = ERRCODE_LOCK_NOT_AVAILABLE then - 1
      else if e = ERRCODE_LOCK_NOT_AVAILABLE then - 999
      else if e = ERRCODE_T_R_DEADLOCK_DETECTED then - 3
      else - 2)"

definition get_end :: "'l applock_env \<Rightarrow> applock_call \<Rightarrow> nat \<Rightarrow> applock_request \<Rightarrow> 'l applocks \<Rightarrow> int \<times> 'l applocks" where
  "get_end env c s q st =
     (let tag = ApplockSetLocktag (MyDatabaseId (me s st)) (req_key q);
          (res, l) = (case getPGLockMode (req_mode q) of
                        Some m \<Rightarrow> LockAcquire env s tag m (req_session q) (no_wait q) (lock_state st)
                      | None \<Rightarrow> (Acquire_error ERRCODE_INTERNAL_ERROR, lock_state st));
          st = st\<lparr>lock_state := l\<rparr>;
          st = set_me s ((me s st)\<lparr>waiting := None\<rparr>) st;
          failed = (\<lambda>e. let st = st\<lparr>appLockCacheGlobal := ApplockUnrefGlobalCache (req_key q) (appLockCacheGlobal st)\<rparr>;
                           st = ApplockSetLockTimeout (req_timeout q) (cur_timeout q) s st
                       in (error_code (req_timeout q) (elapsed c) e, st))
      in case res of
           LOCKACQUIRE_NOT_AVAIL \<Rightarrow> failed ERRCODE_LOCK_NOT_AVAILABLE
         | Acquire_error e \<Rightarrow> failed e
         | LOCKACQUIRE_OK \<Rightarrow>
             let st = ApplockSetLockTimeout (req_timeout q) (cur_timeout q) s st
             in (0, set_me s ((me s st)\<lparr>appLockCacheLocal := insert_local q (appLockCacheLocal (me s st))\<rparr>) st))"

definition sp_getapplock_internal ::
  "'l applock_env \<Rightarrow> AppLockCacheEnt \<Rightarrow> applock_call \<Rightarrow> nat \<Rightarrow> string \<Rightarrow> string \<Rightarrow> string \<Rightarrow> int \<Rightarrow>
     'l applocks \<Rightarrow> int \<times> 'l applocks" where
  "sp_getapplock_internal env fresh c s r lockmode lockowner timeout st =
     (case get_begin env fresh c s r lockmode lockowner timeout st of
        (Some code, st) \<Rightarrow> (code, st)
      | (None, st) \<Rightarrow> (case waiting (me s st) of
            Some q \<Rightarrow> get_end env c s q st
          | None \<Rightarrow> (- 999, st)))"

definition pop_local :: "int \<Rightarrow> AppLockLocalEnt \<Rightarrow> (int \<times> AppLockLocalEnt) list \<Rightarrow> (int \<times> AppLockLocalEnt) list" where
  "pop_local key e cache =
     (let n = uint32_sub (refcount e) 1
      in if n = 0 then AList.delete key cache
         else AList.update key (e\<lparr>mode_head := tl (mode_head e), refcount := n\<rparr>) cache)"

text \<open>
  For a name that no session holds the source releases \<open>TsqlApplockSyncLock\<close> once more than it
  was acquired, which the server reports.
\<close>

definition sp_releaseapplock_internal ::
  "'l applock_env \<Rightarrow> applock_call \<Rightarrow> nat \<Rightarrow> string \<Rightarrow> string \<Rightarrow> 'l applocks \<Rightarrow> int result \<times> 'l applocks" where
  "sp_releaseapplock_internal env c s r lockowner st =
     (if IsInParallelMode c then (Inr (- 999), st)
      else case ApplockCheckLockowner env lockowner of
        None \<Rightarrow> (Inr (- 999), st)
      | Some is_ses \<Rightarrow>
      let key = AppLockSearchKeyGlobal (char_signed env) (appLockCacheGlobal st) r
      in if key = - 1 then (ereport ERRCODE_INTERNAL_ERROR ''lock %s is not held'', st)
         else case map_of (appLockCacheLocal (me s st)) key of
           None \<Rightarrow> (Inr (- 999), st)
         | Some e \<Rightarrow>
         if is_ses \<noteq> is_session e then (Inr (- 999), st)
         else case mode_head e of
           [] \<Rightarrow> (Inl (Invalid_access ''mode_head is empty''), st)
         | mode # _ \<Rightarrow>
         case getPGLockMode mode of
           None \<Rightarrow> (ereport ERRCODE_INTERNAL_ERROR ''unrecognized lock mode: %d'', st)
         | Some m \<Rightarrow>
         let tag = ApplockSetLocktag (MyDatabaseId (me s st)) key;
             (ok, l) = LockRelease env s tag m is_ses (lock_state st);
             st = st\<lparr>lock_state := l\<rparr>
         in if \<not> ok then (Inr (- 999), st)
            else (Inr 0, set_me s ((me s st)\<lparr>appLockCacheLocal := pop_local key e (appLockCacheLocal (me s st))\<rparr>)
                           (st\<lparr>appLockCacheGlobal := ApplockUnrefGlobalCache key (appLockCacheGlobal st)\<rparr>)))"

section \<open>Functions\<close>

definition ApplockGetStringArg :: "'l applock_env \<Rightarrow> nat \<Rightarrow> string option \<Rightarrow> string option" where
  "ApplockGetStringArg env len arg = map_option (\<lambda>t. text_to_cstring_buffer env t len) arg"

definition sp_getapplock_function ::
  "'l applock_env \<Rightarrow> AppLockCacheEnt \<Rightarrow> applock_call \<Rightarrow> nat \<Rightarrow> string option \<Rightarrow> string option \<Rightarrow> string option \<Rightarrow> int \<Rightarrow>
     string option \<Rightarrow> 'l applocks \<Rightarrow> int \<times> 'l applocks" where
  "sp_getapplock_function env fresh c s resource_arg lockmode_arg lockowner_arg timeout dbprincipal_arg st =
     (case (ApplockGetStringArg env 256 resource_arg, ApplockGetStringArg env 33 lockmode_arg,
            ApplockGetStringArg env 33 lockowner_arg, ApplockGetStringArg env 33 dbprincipal_arg) of
        (Some r, Some lockmode, Some lockowner, Some dbprincipal) \<Rightarrow>
          sp_getapplock_internal env fresh c s r lockmode lockowner timeout st
      | _ \<Rightarrow> (- 999, st))"

definition sp_releaseapplock_function ::
  "'l applock_env \<Rightarrow> applock_call \<Rightarrow> nat \<Rightarrow> string option \<Rightarrow> string option \<Rightarrow> string option \<Rightarrow> 'l applocks \<Rightarrow>
     int result \<times> 'l applocks" where
  "sp_releaseapplock_function env c s resource_arg lockowner_arg dbprincipal_arg st =
     (case (ApplockGetStringArg env 256 resource_arg, ApplockGetStringArg env 33 lockowner_arg,
            ApplockGetStringArg env 33 dbprincipal_arg) of
        (Some r, Some lockowner, Some dbprincipal) \<Rightarrow> sp_releaseapplock_internal env c s r lockowner st
      | _ \<Rightarrow> (Inr (- 999), st))"

text \<open>The mode of the lock the session holds, as a string.\<close>

definition highest_mode :: "Applock_All_Lockmode list \<Rightarrow> Applock_All_Lockmode" where
  "highest_mode modes = fold (\<lambda>m high_mode. if high_mode < m then m else high_mode) modes APPLOCKMODE_NOLOCK"

definition returned_mode :: "Applock_All_Lockmode list \<Rightarrow> Applock_All_Lockmode" where
  "returned_mode modes =
     (let high_mode = highest_mode modes; has_intent_exc = (APPLOCKMODE_INTENTEXCLUSIVE \<in> set modes)
      in if has_intent_exc \<and> high_mode = APPLOCKMODE_INTENTSHARED then APPLOCKMODE_SHAREDINTENTEXCLUSIVE
         else if has_intent_exc \<and> high_mode = APPLOCKMODE_UPDATE then APPLOCKMODE_UPDATEINTENTEXCLUSIVE
         else high_mode)"

definition APPLOCK_MODE :: "'l applock_env \<Rightarrow> nat \<Rightarrow> string option \<Rightarrow> 'l applocks \<Rightarrow> string result" where
  "APPLOCK_MODE env s resource_arg st =
     (case ApplockGetStringArg env 256 resource_arg of
        None \<Rightarrow> Inl (Invalid_access ''the code -999 as a pointer to a string'')
      | Some r \<Rightarrow>
          let key = AppLockSearchKeyLocal (char_signed env) (appLockCacheLocal (me s st)) r
          in if key < 0 then Inr (AppLockModeStrings APPLOCKMODE_NOLOCK)
             else case map_of (appLockCacheLocal (me s st)) key of
                    Some e \<Rightarrow> Inr (AppLockModeStrings (returned_mode (mode_head e)))
                  | None \<Rightarrow> Inl (Invalid_access ''entry is NULL''))"

text \<open>Acquiring a lock without waiting and releasing it again.\<close>

definition test_applock ::
  "'l applock_env \<Rightarrow> AppLockCacheEnt \<Rightarrow> applock_call \<Rightarrow> nat \<Rightarrow> string \<Rightarrow> string \<Rightarrow> string \<Rightarrow> 'l applocks \<Rightarrow>
     int result \<times> 'l applocks" where
  "test_applock env fresh c s r lockmode lockowner st =
     (if pg_strcasecmp env lockowner ''Transaction'' = 0 \<and> \<not> IsTransactionBlockActive c
      then (ereport ERRCODE_LOCK_NOT_AVAILABLE
              ''The statement or function must be executed in the context of a user transaction.'', st)
      else case sp_getapplock_internal env fresh c s r lockmode lockowner 0 st of (code, st) \<Rightarrow>
        if code \<noteq> 0 then (Inr 0, st)
        else case sp_releaseapplock_internal env c s r lockowner st of
               (Inl e, st) \<Rightarrow> (Inl e, st)
             | (Inr code, st) \<Rightarrow>
                 if code \<noteq> 0
                 then (Inl (Report PANIC ERRCODE_INTERNAL_ERROR
                        ''Lock acuiqred during APPLOCK_TEST for resource '%s'but couldn't release it.''), st)
                 else (Inr 1, st))"

definition APPLOCK_TEST ::
  "'l applock_env \<Rightarrow> AppLockCacheEnt \<Rightarrow> applock_call \<Rightarrow> nat \<Rightarrow> string option \<Rightarrow> string option \<Rightarrow> string option \<Rightarrow>
     string option \<Rightarrow> 'l applocks \<Rightarrow> int result \<times> 'l applocks" where
  "APPLOCK_TEST env fresh c s dbprincipal_arg resource_arg lockmode_arg lockowner_arg st =
     (case (ApplockGetStringArg env 33 dbprincipal_arg, ApplockGetStringArg env 256 resource_arg,
            ApplockGetStringArg env 33 lockmode_arg, ApplockGetStringArg env 33 lockowner_arg) of
        (Some dbprincipal, Some r, Some lockmode, Some lockowner) \<Rightarrow>
          test_applock env fresh c s r lockmode lockowner st
      | _ \<Rightarrow> (Inr (- 999), st))"

text \<open>The hook at the end of a transaction or session; the first argument says whether the dialect is T-SQL.\<close>

definition ApplockRemoveCache :: "'l applock_env \<Rightarrow> bool \<Rightarrow> bool \<Rightarrow> nat \<Rightarrow> 'l applocks \<Rightarrow> 'l applocks" where
  "ApplockRemoveCache env tsql release_session s st =
     (if \<not> tsql then st
      else let cache = appLockCacheLocal (me s st);
               removed = filter (\<lambda>(k, e). release_session \<or> \<not> is_session e) cache;
               g = fold (\<lambda>(k, e). ApplockUnrefGlobalCache k ^^ refcount e) removed (appLockCacheGlobal st);
               kept = filter (\<lambda>(k, e). \<not> (release_session \<or> \<not> is_session e)) cache
           in set_me s ((me s st)\<lparr>appLockCacheLocal := kept\<rparr>)
                (st\<lparr>appLockCacheGlobal := g, lock_state := LockReleaseAll env s release_session (lock_state st)\<rparr>))"

text \<open>
  Printing a message: the buffer is enlarged until the message fits. \<open>pvsnprintf\<close> of the server
  is a parameter: for a buffer of a given length, the length of the message or an estimate of
  the space it needs.
\<close>

partial_function (option) ApplockPrintMessage :: "(nat \<Rightarrow> nat) \<Rightarrow> nat \<Rightarrow> nat option" where
  "ApplockPrintMessage pvsnprintf len =
     (let newlen = pvsnprintf len
      in if newlen < len then Some len else ApplockPrintMessage pvsnprintf newlen)"

end
