(* ===== verification/Applock_Caches.thy ===== *)
theory Applock_Caches
  imports Applock
begin

text \<open>
  The caches of the application locks: the searches find the key of a name, the operations
  keep the reference counts of the shared cache in agreement with what the sessions hold and
  wait for, and every interleaving of the sessions does.
\<close>

section \<open>Keys of names\<close>

text \<open>The keys that are tried for a name, and what a cache says about a key.\<close>

primrec keys_from :: "nat \<Rightarrow> int \<Rightarrow> int list" where
  "keys_from 0 key = []"
| "keys_from (Suc n) key = key # keys_from n (next_key key)"

definition candidates :: "bool \<Rightarrow> string \<Rightarrow> int list" where
  "candidates sx r = keys_from APPLOCK_MAX_TRY_SEARCH_KEY (applock_simple_hash sx r)"

definition names :: "(int \<times> 'e AppLockCacheEnt_scheme) list \<Rightarrow> int \<Rightarrow> string option" where
  "names cache k = map_option resource (map_of cache k)"

definition gref :: "int \<Rightarrow> (int \<times> AppLockCacheEnt) list \<Rightarrow> nat" where
  "gref k g = (case map_of g k of Some e \<Rightarrow> refcount e | None \<Rightarrow> 0)"

lemma uint32_add1_small: "n < 2 ^ 32 - 1 \<Longrightarrow> uint32_add1 n = n + 1"
  by (simp add: uint32_add1_def nat_add_distrib)

lemma hash_loop_range: "0 \<le> h \<Longrightarrow> h < INT64_MAX \<Longrightarrow> 0 \<le> hash_loop sx h p str \<and> hash_loop sx h p str < INT64_MAX"
  by (induction str arbitrary: h p) (simp_all add: INT64_MAX_def)

lemma hash_range: "0 \<le> applock_simple_hash sx r \<and> applock_simple_hash sx r < INT64_MAX"
  unfolding applock_simple_hash_def by (rule hash_loop_range) (simp_all add: INT64_MAX_def)

lemma next_key_range:
  assumes "0 \<le> k" and "k \<le> INT64_MAX"
  shows "0 \<le> next_key k \<and> next_key k \<le> INT64_MAX"
proof -
  have "k smod INT64_MAX = k mod INT64_MAX"
    using assms(1) by (simp add: smod_nonneg INT64_MAX_def)
  moreover have "0 \<le> k mod INT64_MAX" "k mod INT64_MAX < INT64_MAX"
    by (simp_all add: INT64_MAX_def)
  ultimately show ?thesis by (simp add: next_key_def)
qed

lemma keys_from_range: "0 \<le> k \<Longrightarrow> k \<le> INT64_MAX \<Longrightarrow> k' \<in> set (keys_from n k) \<Longrightarrow> 0 \<le> k' \<and> k' \<le> INT64_MAX"
proof (induction n arbitrary: k)
  case (Suc n)
  then show ?case using next_key_range [of k] by auto
qed simp

lemma candidates_range: "k \<in> set (candidates sx r) \<Longrightarrow> 0 \<le> k \<and> k \<le> INT64_MAX"
  unfolding candidates_def using hash_range [of sx r] by (intro keys_from_range) auto

lemma locktag_inject:
  assumes "ApplockSetLocktag db k = ApplockSetLocktag db' k'" and "0 \<le> k" "k \<le> INT64_MAX" "0 \<le> k'" "k' \<le> INT64_MAX"
  shows "db = db' \<and> k = k'"
proof -
  have high: "x div 2 ^ 32 mod 2 ^ 32 = x div 2 ^ 32" if "0 \<le> x" "x \<le> INT64_MAX" for x
    using that by (intro mod_pos_pos_trivial) (simp_all add: INT64_MAX_def div_less_iff_less_mult pos_imp_zdiv_nonneg_iff)
  have "k div 2 ^ 32 = k' div 2 ^ 32" "k mod 2 ^ 32 = k' mod 2 ^ 32" "db = db'"
    using assms(1) high [OF assms(2,3)] high [OF assms(4,5)] by (simp_all add: ApplockSetLocktag_def)
  then have "k div 2 ^ 32 * 2 ^ 32 + k mod 2 ^ 32 = k' div 2 ^ 32 * 2 ^ 32 + k' mod 2 ^ 32" by simp
  then have "k = k'" by (simp only: div_mult_mod_eq)
  with \<open>db = db'\<close> show ?thesis by simp
qed

text \<open>A search returns the first key with the name, if there is one.\<close>

lemma search_key_cases:
  "(search_key n cache r key = - 1 \<and> (\<forall>k \<in> set (keys_from n key). names cache k \<noteq> Some r)) \<or>
   (search_key n cache r key \<in> set (keys_from n key) \<and> names cache (search_key n cache r key) = Some r)"
proof (induction n arbitrary: key)
  case (Suc n)
  show ?case using Suc.IH [of "next_key key"] by (cases "map_of cache key") (auto simp: names_def)
qed simp

definition unique_names :: "bool \<Rightarrow> (int \<times> 'e AppLockCacheEnt_scheme) list \<Rightarrow> bool" where
  "unique_names sx cache \<longleftrightarrow> (\<forall>k r. names cache k = Some r \<longrightarrow> k \<in> set (candidates sx r)) \<and>
     (\<forall>k k' r. names cache k = Some r \<longrightarrow> names cache k' = Some r \<longrightarrow> k = k')"

text \<open>What the searches in both caches promise.\<close>

locale key_search =
  fixes search :: "bool \<Rightarrow> (int \<times> 'e AppLockCacheEnt_scheme) list \<Rightarrow> string \<Rightarrow> int"
  assumes found: "unique_names sx cache \<Longrightarrow> names cache k = Some r \<Longrightarrow> search sx cache r = k"
    and not_found: "\<forall>k. names cache k \<noteq> Some r \<Longrightarrow> search sx cache r = - 1"
begin

lemma named_key_pos: "unique_names sx cache \<Longrightarrow> names cache k = Some r \<Longrightarrow> 0 \<le> k"
  using candidates_range unfolding unique_names_def by blast

lemma negative_iff:
  assumes "unique_names sx cache"
  shows "search sx cache r < 0 \<longleftrightarrow> (\<forall>k. names cache k \<noteq> Some r)"
proof (cases "\<exists>k. names cache k = Some r")
  case True
  then obtain k where k: "names cache k = Some r" by blast
  with found [OF assms k] named_key_pos [OF assms k] show ?thesis by auto
next
  case False
  with not_found show ?thesis by auto
qed

lemma key_named:
  assumes "unique_names sx cache" and "search sx cache r \<noteq> - 1"
  shows "names cache (search sx cache r) = Some r"
proof -
  obtain k where "names cache k = Some r" using not_found assms(2) by blast
  with found [OF assms(1) this] show ?thesis by simp
qed

end

lemma search_key_laws:
  shows "unique_names sx cache \<Longrightarrow> names cache k = Some r \<Longrightarrow>
      search_key APPLOCK_MAX_TRY_SEARCH_KEY cache r (applock_simple_hash sx r) = k"
    and "\<forall>k. names cache k \<noteq> Some r \<Longrightarrow> search_key APPLOCK_MAX_TRY_SEARCH_KEY cache r (applock_simple_hash sx r) = - 1"
  using search_key_cases [of APPLOCK_MAX_TRY_SEARCH_KEY cache r "applock_simple_hash sx r"]
  unfolding unique_names_def candidates_def by blast+

interpretation local_search: key_search AppLockSearchKeyLocal
  by unfold_locales (unfold AppLockSearchKeyLocal_def, erule (1) search_key_laws(1), erule search_key_laws(2))

interpretation global_search: key_search AppLockSearchKeyGlobal
  by unfold_locales (unfold AppLockSearchKeyGlobal_def, erule (1) search_key_laws(1), erule search_key_laws(2))

section \<open>The shared cache\<close>

definition gwf :: "bool \<Rightarrow> (int \<times> AppLockCacheEnt) list \<Rightarrow> bool" where
  "gwf sx g \<longleftrightarrow> distinct (map fst g) \<and> unique_names sx g \<and> (\<forall>k e. map_of g k = Some e \<longrightarrow> 0 < refcount e)"

lemma names_gref: "gwf sx g \<Longrightarrow> names g k = None \<longleftrightarrow> gref k g = 0"
  by (auto simp: gwf_def names_def gref_def split: option.splits)

lemma map_of_delete: "map_of (AList.delete k g) = (map_of g)(k := None)"
  by (simp add: delete_conv')

lemma map_of_update: "map_of (AList.update k v g) = (map_of g)(k \<mapsto> v)"
  by (simp add: update_conv')

lemmas cache_simps = names_def gref_def map_of_delete map_of_update

lemma unique_names_sub:
  "unique_names sx g \<Longrightarrow> (\<And>k. names g' k = None \<or> names g' k = names g k) \<Longrightarrow> unique_names sx g'"
  unfolding unique_names_def by (metis option.distinct(1))

lemma unref_eq:
  assumes "map_of g k = Some e" and "0 < refcount e" and "refcount e < 2 ^ 32"
  shows "ApplockUnrefGlobalCache k g =
    (if refcount e = 1 then AList.delete k g else AList.update k (e\<lparr>refcount := refcount e - 1\<rparr>) g)"
proof -
  have "uint32_sub (refcount e) 1 = refcount e - 1"
    using assms(2,3) by (intro uint32_sub_small) simp_all
  with assms(1,2) show ?thesis by (auto simp: ApplockUnrefGlobalCache_def Let_def)
qed

lemma unref_names:
  assumes "gwf sx g" and "gref k g < 2 ^ 32"
  shows "names (ApplockUnrefGlobalCache k g) = (if gref k g = 1 then (names g)(k := None) else names g)"
    and "gref k' (ApplockUnrefGlobalCache k g) = (if k' = k then gref k g - 1 else gref k' g)"
    and "gwf sx (ApplockUnrefGlobalCache k g)"
proof -
  let ?g = "ApplockUnrefGlobalCache k g"
  have pos: "0 < refcount e" if "map_of g k' = Some e" for k' e
    using assms(1) that by (simp add: gwf_def)
  have map_of: "map_of ?g = (case map_of g k of
      None \<Rightarrow> map_of g
    | Some e \<Rightarrow> (map_of g)(k := if refcount e = 1 then None else Some (e\<lparr>refcount := refcount e - 1\<rparr>)))"
  proof (cases "map_of g k")
    case None
    then show ?thesis by (simp add: ApplockUnrefGlobalCache_def)
  next
    case (Some e)
    then have "0 < refcount e" "refcount e < 2 ^ 32" using assms(2) pos by (simp_all add: gref_def)
    with Some show ?thesis by (simp add: unref_eq map_of_delete map_of_update)
  qed
  show n: "names ?g = (if gref k g = 1 then (names g)(k := None) else names g)"
    by (cases "map_of g k") (auto simp: names_def gref_def map_of fun_eq_iff)
  show "gref k' ?g = (if k' = k then gref k g - 1 else gref k' g)"
    by (cases "map_of g k") (auto simp: gref_def map_of)
  have "0 < refcount e'" if "map_of ?g k' = Some e'" for k' e'
  proof (cases "map_of g k")
    case None
    with that pos show ?thesis by (simp add: map_of)
  next
    case (Some e)
    with that pos [of k' e'] pos [OF Some] show ?thesis
      by (cases "k' = k"; cases "refcount e = 1") (auto simp: map_of)
  qed
  moreover have "unique_names sx g" using assms(1) by (simp add: gwf_def)
  then have "unique_names sx ?g" by (rule unique_names_sub) (simp add: n)
  moreover have "distinct (map fst ?g)"
    using assms(1) unfolding ApplockUnrefGlobalCache_def Let_def gwf_def
    by (cases "map_of g k") (simp_all add: distinct_delete distinct_update)
  ultimately show "gwf sx ?g" by (simp add: gwf_def)
qed

text \<open>The reference to an entry that exists, and a new entry.\<close>

definition bump :: "int \<Rightarrow> (int \<times> AppLockCacheEnt) list \<Rightarrow> (int \<times> AppLockCacheEnt) list" where
  "bump k g = (case map_of g k of
     Some e \<Rightarrow> AList.update k (e\<lparr>refcount := uint32_add1 (refcount e)\<rparr>) g | None \<Rightarrow> g)"

definition referenced :: "bool \<Rightarrow> string \<Rightarrow> (int \<times> AppLockCacheEnt) list \<Rightarrow> int \<Rightarrow> (int \<times> AppLockCacheEnt) list \<Rightarrow> bool" where
  "referenced sx r g k g' \<longleftrightarrow> k \<in> set (candidates sx r) \<and> gwf sx g' \<and>
     (\<forall>k'. gref k' g' = gref k' g + (if k' = k then 1 else 0)) \<and>
     names g' = (names g)(k \<mapsto> r) \<and> names g k \<in> {None, Some r}"

lemma unique_names_add:
  assumes "unique_names sx g" and "names g' = (names g)(k \<mapsto> r)" and "k \<in> set (candidates sx r)"
    and "names g k = Some r \<or> (\<forall>k'. names g k' \<noteq> Some r)"
  shows "unique_names sx g'"
proof -
  have cand: "k' \<in> set (candidates sx r')" if "names g k' = Some r'" for k' r'
    using assms(1) that by (simp add: unique_names_def)
  have uniq: "k' = k''" if "names g k' = Some r'" "names g k'' = Some r'" for k' k'' r'
    using assms(1) that unfolding unique_names_def by blast
  have new: "k' = k" if "names g k' = Some r" for k'
    using assms(4) that uniq by blast
  show ?thesis
    unfolding unique_names_def assms(2) fun_upd_apply
  proof (intro conjI allI impI)
    show "k' \<in> set (candidates sx r')" if "(if k' = k then Some r else names g k') = Some r'" for k' r'
      using that cand assms(3) by (cases "k' = k") simp_all
    show "k' = k''" if "(if k' = k then Some r else names g k') = Some r'" "(if k'' = k then Some r else names g k'') = Some r'" for k' k'' r'
      using that new uniq by (metis option.inject)
  qed
qed

lemma bump_referenced:
  assumes "gwf sx g" and "names g k = Some r" and "gref k g < 2 ^ 32 - 1"
  shows "referenced sx r g k (bump k g)"
proof -
  obtain e where e: "map_of g k = Some e" "resource e = r"
    using assms(2) by (auto simp: names_def)
  have n: "uint32_add1 (refcount e) = refcount e + 1"
    using assms(3) e(1) by (simp add: uint32_add1_small gref_def)
  have names: "names (bump k g) = (names g)(k \<mapsto> r)"
    using e by (auto simp: bump_def cache_simps fun_eq_iff)
  have cand: "k \<in> set (candidates sx r)" and uniq: "unique_names sx g"
    using assms(1,2) by (auto simp: gwf_def unique_names_def)
  have "unique_names sx (bump k g)"
    by (rule unique_names_add [OF uniq names cand]) (simp add: assms(2))
  moreover have "distinct (map fst (bump k g))"
    using assms(1) e(1) by (simp add: bump_def gwf_def distinct_update)
  moreover have "0 < refcount e'" if "map_of (bump k g) k' = Some e'" for k' e'
    using assms(1) that e(1) n by (auto simp: bump_def gwf_def map_of_update simp del: map_of_eq_Some_iff split: if_splits)
  ultimately have "gwf sx (bump k g)" by (simp add: gwf_def)
  then show ?thesis
    using cand names assms(2) e(1) n by (auto simp: referenced_def bump_def cache_simps)
qed

lemma new_referenced:
  assumes "gwf sx g" and "names g k = None" and "k \<in> set (candidates sx r)" and "\<forall>k'. names g k' \<noteq> Some r"
  shows "referenced sx r g k (AList.update k \<lparr>resource = r, refcount = 1\<rparr> g)"
proof -
  let ?g = "AList.update k \<lparr>resource = r, refcount = 1\<rparr> g"
  have names: "names ?g = (names g)(k \<mapsto> r)" by (auto simp: cache_simps fun_eq_iff)
  have "unique_names sx ?g"
    using assms by (intro unique_names_add [OF _ names]) (simp_all add: gwf_def)
  then have "gwf sx ?g"
    using assms(1) by (auto simp: gwf_def distinct_update map_of_update simp del: map_of_eq_Some_iff split: if_splits)
  then show ?thesis
    using assms(2,3) names by (auto simp: referenced_def cache_simps split: option.splits)
qed

lemma free_key_eq:
  assumes "- 1 \<notin> set (keys_from n key)"
  shows "free_key n g r key u =
    (case find (\<lambda>k. names g k = Some r) (keys_from n key) of
       Some k \<Rightarrow> (k, bump k g)
     | None \<Rightarrow>
         let k = (if u \<noteq> - 1 then u
                  else case find (\<lambda>k. names g k = None) (keys_from n key) of Some k \<Rightarrow> k | None \<Rightarrow> - 1)
         in (k, if k \<noteq> - 1 then AList.update k \<lparr>resource = take APPLOCK_MAX_RESOURCE_LENGTH r, refcount = 1\<rparr> g else g))"
  using assms
proof (induction n arbitrary: key u)
  case (Suc n)
  show ?case
  proof (cases "map_of g key")
    case None
    then have "names g key = None" by (simp add: names_def)
    with Suc.IH [of "next_key key" "if u = - 1 then key else u"] Suc.prems None show ?thesis
      by (cases "u = - 1") (simp_all cong: option.case_cong)
  next
    case (Some e)
    then have "names g key = Some (resource e)" by (simp add: names_def)
    with Suc.IH [of "next_key key" u] Suc.prems Some show ?thesis
      by (cases "resource e = r") (simp_all add: bump_def cong: option.case_cong)
  qed
qed simp

lemma usable_key_cases:
  assumes "ApplockGetUsableKey sx fresh r g = (k, g')" and "gwf sx g" and "\<forall>k. gref k g < 2 ^ 32 - 1"
    and "length r \<le> APPLOCK_MAX_RESOURCE_LENGTH"
  shows "k = - 1 \<and> g' = g \<or> referenced sx r g k g'"
proof -
  have uniq: "unique_names sx g" using assms(2) by (simp add: gwf_def)
  let ?key = "AppLockSearchKeyGlobal sx g r"
  show ?thesis
  proof (cases "\<exists>k0. names g k0 = Some r")
    case True
    then obtain k0 where k0: "names g k0 = Some r" by blast
    then have key: "?key = k0" by (rule global_search.found [OF uniq])
    have "k0 \<noteq> - 1" using uniq k0 candidates_range unfolding unique_names_def by fastforce
    moreover have "reference_found fresh k0 g = (True, bump k0 g)"
      using k0 by (auto simp: reference_found_def bump_def names_def)
    ultimately have "ApplockGetUsableKey sx fresh r g = (k0, bump k0 g)"
      using key by (simp add: ApplockGetUsableKey_def)
    with bump_referenced [OF assms(2) k0] assms(1,3) show ?thesis by auto
  next
    case False
    then have none: "\<forall>k. names g k \<noteq> Some r" by blast
    then have "?key = - 1" by (rule global_search.not_found)
    with assms(1) have "free_key APPLOCK_MAX_TRY_SEARCH_KEY g r (applock_simple_hash sx r) (- 1) = (k, g')"
      by (simp add: ApplockGetUsableKey_def generate_key_def)
    moreover have "- 1 \<notin> set (candidates sx r)" using candidates_range by fastforce
    moreover have "find (\<lambda>k. names g k = Some r) (candidates sx r) = None"
      using none by (simp add: find_None_iff)
    ultimately have get: "(k, g') = (let k = (case find (\<lambda>k. names g k = None) (candidates sx r) of Some k \<Rightarrow> k | None \<Rightarrow> - 1)
        in (k, if k \<noteq> - 1 then AList.update k \<lparr>resource = take APPLOCK_MAX_RESOURCE_LENGTH r, refcount = 1\<rparr> g else g))"
      by (simp add: free_key_eq candidates_def)
    show ?thesis
    proof (cases "find (\<lambda>k. names g k = None) (candidates sx r)")
      case None
      with get show ?thesis by simp
    next
      case (Some k1)
      then have k1: "names g k1 = None" "k1 \<in> set (candidates sx r)" by (auto simp: find_Some_iff)
      then have "k1 \<noteq> - 1" using candidates_range by fastforce
      with Some get assms(4) have "k = k1" "g' = AList.update k1 \<lparr>resource = r, refcount = 1\<rparr> g" by simp_all
      with new_referenced [OF assms(2) k1 none] show ?thesis by simp
    qed
  qed
qed

section \<open>Sessions and the shared cache\<close>

text \<open>
  How often a session refers to a key: once for each mode in its cache, and once while it
  waits. The reference counts of the shared cache are the sums over the sessions.
\<close>

definition refs :: "int \<Rightarrow> applock_session \<Rightarrow> nat" where
  "refs k x = (case map_of (appLockCacheLocal x) k of Some e \<Rightarrow> refcount e | None \<Rightarrow> 0) +
     (case waiting x of Some q \<Rightarrow> if req_key q = k then 1 else 0 | None \<Rightarrow> 0)"

definition local_ok :: "(int \<Rightarrow> string option) \<Rightarrow> int \<Rightarrow> AppLockLocalEnt \<Rightarrow> bool" where
  "local_ok nm k e \<longleftrightarrow> nm k = Some (resource e) \<and> refcount e = length (mode_head e) \<and> mode_head e \<noteq> [] \<and>
     (\<forall>m \<in> set (mode_head e). acquirable m)"

definition request_ok :: "(int \<Rightarrow> string option) \<Rightarrow> applock_request \<Rightarrow> bool" where
  "request_ok nm q \<longleftrightarrow> nm (req_key q) = Some (req_resource q) \<and> acquirable (req_mode q) \<and>
     length (req_resource q) \<le> APPLOCK_MAX_RESOURCE_LENGTH"

definition session_ok :: "(int \<Rightarrow> string option) \<Rightarrow> applock_session \<Rightarrow> bool" where
  "session_ok nm x \<longleftrightarrow> distinct (map fst (appLockCacheLocal x)) \<and>
     (\<forall>k e. map_of (appLockCacheLocal x) k = Some e \<longrightarrow> local_ok nm k e) \<and>
     (\<forall>q. waiting x = Some q \<longrightarrow> request_ok nm q)"

definition caches_agree :: "bool \<Rightarrow> nat \<Rightarrow> 'l applocks \<Rightarrow> bool" where
  "caches_agree sx n st \<longleftrightarrow> gwf sx (appLockCacheGlobal st) \<and>
     (\<forall>k. gref k (appLockCacheGlobal st) = sum_list (map (refs k) (sessions st))) \<and>
     (\<forall>x \<in> set (sessions st). session_ok (names (appLockCacheGlobal st)) x) \<and>
     (\<forall>k. gref k (appLockCacheGlobal st) \<le> n)"

lemma session_local: "session_ok nm x \<Longrightarrow> map_of (appLockCacheLocal x) k = Some e \<Longrightarrow> local_ok nm k e"
  by (simp add: session_ok_def del: map_of_eq_Some_iff)

lemma session_request: "session_ok nm x \<Longrightarrow> waiting x = Some q \<Longrightarrow> request_ok nm q"
  by (simp add: session_ok_def)

lemma session_ok_frame:
  assumes "session_ok nm x" and "\<And>k. 0 < refs k x \<Longrightarrow> nm' k = nm k"
  shows "session_ok nm' x"
proof -
  have "local_ok nm' k e" if "map_of (appLockCacheLocal x) k = Some e" for k e
  proof -
    have ok: "local_ok nm k e" by (rule session_local [OF assms(1) that])
    then have "0 < refs k x" using that by (simp add: local_ok_def refs_def)
    from assms(2) [OF this] ok show ?thesis by (simp add: local_ok_def)
  qed
  moreover have "request_ok nm' q" if "waiting x = Some q" for q
    using session_request [OF assms(1) that] assms(2) [of "req_key q"] that by (simp add: request_ok_def refs_def)
  ultimately show ?thesis using assms(1) by (simp add: session_ok_def del: map_of_eq_Some_iff)
qed

lemma sum_refs_update:
  assumes "s < length xs"
  shows "sum_list (map (refs k) (xs[s := x])) + refs k (xs ! s) = sum_list (map (refs k) xs) + refs k x"
proof -
  have "refs k (xs ! s) \<le> sum_list (map (refs k) xs)"
    using assms by (intro member_le_sum_list) simp_all
  with assms show ?thesis by (simp add: map_update sum_list_update)
qed

lemma sum_refs_other:
  assumes "s < length xs" and "j < length xs" and "j \<noteq> s"
  shows "refs k (xs ! s) + refs k (xs ! j) \<le> sum_list (map (refs k) xs)"
proof -
  let ?x = "(xs ! s)\<lparr>appLockCacheLocal := [], waiting := None\<rparr>"
  have "(xs[s := ?x]) ! j \<in> set (xs[s := ?x])" using assms by (intro nth_mem) simp
  then have "refs k ((xs[s := ?x]) ! j) \<le> sum_list (map (refs k) (xs[s := ?x]))"
    by (intro member_le_sum_list) (simp_all only: set_map imageI zero_le)
  with sum_refs_update [OF assms(1), of k ?x] assms(2,3) show ?thesis by (simp add: refs_def)
qed

text \<open>A change of one session together with the shared cache.\<close>

lemma agree_update:
  assumes ag: "caches_agree sx n st" and s: "s < length (sessions st)"
    and "gwf sx g'" and "session_ok (names g') x"
    and refs: "\<And>k. gref k g' + refs k (me s st) = gref k (appLockCacheGlobal st) + refs k x"
    and keep: "\<And>k. refs k (me s st) < gref k (appLockCacheGlobal st) \<Longrightarrow> names g' k = names (appLockCacheGlobal st) k"
    and "\<And>k. gref k g' \<le> n'"
    and st': "appLockCacheGlobal st' = g'" "sessions st' = (sessions st)[s := x]"
  shows "caches_agree sx n' st'"
proof -
  have sum: "gref k (appLockCacheGlobal st) = sum_list (map (refs k) (sessions st))" for k
    using ag by (simp add: caches_agree_def)
  have "gref k g' = sum_list (map (refs k) ((sessions st)[s := x]))" for k
    using refs [of k] sum [of k] sum_refs_update [OF s, of k x] by simp
  moreover have "session_ok (names g') y" if y: "y \<in> set ((sessions st)[s := x])" for y
  proof -
    from y obtain j where j: "j < length (sessions st)" "y = (sessions st)[s := x] ! j"
      by (auto simp: in_set_conv_nth)
    show ?thesis
    proof (cases "j = s")
      case True
      with j s assms(4) show ?thesis by simp
    next
      case False
      then have yj: "y = sessions st ! j" using j by simp
      then have "session_ok (names (appLockCacheGlobal st)) y" using ag j(1) by (simp add: caches_agree_def)
      then show ?thesis
      proof (rule session_ok_frame)
        fix k assume "0 < refs k y"
        with sum_refs_other [OF s j(1) False, of k] sum [of k] yj
        have "refs k (me s st) < gref k (appLockCacheGlobal st)" by simp
        then show "names g' k = names (appLockCacheGlobal st) k" by (rule keep)
      qed
    qed
  qed
  ultimately show ?thesis using assms(3,7) st' by (simp add: caches_agree_def)
qed

section \<open>What the operations do\<close>

lemma set_me_sel [simp]:
  "sessions (set_me s x st) = (sessions st)[s := x]"
  "appLockCacheGlobal (set_me s x st) = appLockCacheGlobal st"
  "lock_state (set_me s x st) = lock_state st"
  by (simp_all add: set_me_def)

lemma ApplockSetLockTimeout_eq:
  assumes "s < length (sessions st)"
  shows "\<exists>lt. sessions (ApplockSetLockTimeout timeout val s st) = (sessions st)[s := (me s st)\<lparr>lock_timeout := lt\<rparr>]"
    and "appLockCacheGlobal (ApplockSetLockTimeout timeout val s st) = appLockCacheGlobal st"
    and "lock_state (ApplockSetLockTimeout timeout val s st) = lock_state st"
proof -
  have "(me s st)\<lparr>lock_timeout := lock_timeout (me s st)\<rparr> = me s st" by simp
  then have "(sessions st)[s := (me s st)\<lparr>lock_timeout := lock_timeout (me s st)\<rparr>] = sessions st"
    by (simp only: list_update_id)
  then show "\<exists>lt. sessions (ApplockSetLockTimeout timeout val s st) = (sessions st)[s := (me s st)\<lparr>lock_timeout := lt\<rparr>]"
    unfolding ApplockSetLockTimeout_def by (cases "timeout \<noteq> - 99") (auto intro: exI [of _ "lock_timeout (me s st)"])
qed (simp_all add: ApplockSetLockTimeout_def)

lemma checked_mode_acquirable: "ApplockCheckLockmode env lm = Some m \<Longrightarrow> acquirable m"
  by (auto simp: ApplockCheckLockmode_def acquirable_def getPGLockMode_def split: if_splits)

lemma get_begin_cases:
  assumes get: "get_begin env fresh c s r lm lo t st = (code, st')" and s: "s < length (sessions st)"
    and "gwf (char_signed env) (appLockCacheGlobal st)" and "\<forall>k. gref k (appLockCacheGlobal st) < 2 ^ 32 - 1"
    and "length r \<le> APPLOCK_MAX_RESOURCE_LENGTH"
  shows "(code = Some (- 999) \<and> st' = st) \<or>
    (\<exists>q lt. code = None \<and> req_resource q = r \<and> acquirable (req_mode q) \<and> lock_state st' = lock_state st \<and>
       ApplockCheckLockmode env lm = Some (req_mode q) \<and> ApplockCheckLockowner env lo = Some (req_session q) \<and>
       referenced (char_signed env) r (appLockCacheGlobal st) (req_key q) (appLockCacheGlobal st') \<and>
       sessions st' = (sessions st)[s := (me s st)\<lparr>lock_timeout := lt, waiting := Some q\<rparr>])"
proof (cases "IsInParallelMode c \<or> ApplockCheckLockmode env lm = None \<or> ApplockCheckLockowner env lo = None \<or>
    (pg_strcasecmp env lo ''Transaction'' = 0 \<and> \<not> IsTransactionBlockActive c)")
  case True
  then have "(code, st') = (Some (- 999), st)"
    using get unfolding get_begin_def by (cases "IsInParallelMode c") (auto split: option.splits)
  then show ?thesis by simp
next
  case False
  then obtain mode is_ses where ok: "ApplockCheckLockmode env lm = Some mode" "ApplockCheckLockowner env lo = Some is_ses"
    "\<not> IsInParallelMode c" "\<not> (pg_strcasecmp env lo ''Transaction'' = 0 \<and> \<not> IsTransactionBlockActive c)" by auto
  obtain k g where use: "ApplockGetUsableKey (char_signed env) fresh r (appLockCacheGlobal st) = (k, g)"
    by fastforce
  let ?st = "st\<lparr>appLockCacheGlobal := g\<rparr>"
  let ?t = "if t = - 1 then 0 else t"
  let ?q = "\<lparr>req_key = k, req_resource = r, req_mode = mode, req_session = is_ses, req_timeout = ?t,
    no_wait = (t = 0), cur_timeout = lock_timeout (me s st)\<rparr>"
  let ?st1 = "ApplockSetLockTimeout ?t ?t s ?st"
  have start: "(code, st') = (if k < 0 then (Some (- 999), ?st)
      else (None, set_me s ((me s ?st1)\<lparr>waiting := Some ?q\<rparr>) ?st1))"
    using get ok use by (cases "k < 0"; cases "t = - 1") (auto simp: get_begin_def Let_def)
  from usable_key_cases [OF use assms(3-5)] show ?thesis
  proof
    assume "k = - 1 \<and> g = appLockCacheGlobal st"
    with start show ?thesis by simp
  next
    assume ref: "referenced (char_signed env) r (appLockCacheGlobal st) k g"
    then have "\<not> k < 0" using candidates_range [of k "char_signed env" r] by (simp add: referenced_def)
    with start have st': "code = None" "st' = set_me s ((me s ?st1)\<lparr>waiting := Some ?q\<rparr>) ?st1" by simp_all
    obtain lt where "sessions ?st1 = (sessions ?st)[s := (me s ?st)\<lparr>lock_timeout := lt\<rparr>]"
      using ApplockSetLockTimeout_eq(1) [of s ?st ?t ?t] s by auto
    with s have "sessions st' = (sessions st)[s := (me s st)\<lparr>lock_timeout := lt, waiting := Some ?q\<rparr>]"
      using st'(2) by simp
    moreover have "appLockCacheGlobal st' = g" "lock_state st' = lock_state st"
      using st'(2) s by (simp_all add: ApplockSetLockTimeout_eq(2,3))
    ultimately show ?thesis
      using st'(1) ref ok(1,2) checked_mode_acquirable [OF ok(1)] by (intro disjI2 exI [of _ ?q] exI [of _ lt]) simp
  qed
qed

definition acquire :: "'l applock_env \<Rightarrow> nat \<Rightarrow> applock_request \<Rightarrow> 'l applocks \<Rightarrow> acquire_result \<times> 'l" where
  "acquire env s q st =
     (case getPGLockMode (req_mode q) of
        Some m \<Rightarrow> LockAcquire env s (ApplockSetLocktag (MyDatabaseId (me s st)) (req_key q)) m (req_session q) (no_wait q)
                    (lock_state st)
      | None \<Rightarrow> (Acquire_error ERRCODE_INTERNAL_ERROR, lock_state st))"

lemma error_code_neg: "error_code t el e < 0"
  by (simp add: error_code_def)

lemma get_end_cases:
  assumes get: "get_end env c s q st = (code, st')" and s: "s < length (sessions st)"
    and acq: "acquire env s q st = (res, l)"
  shows "lock_state st' = l"
    and "\<exists>lt. if res = LOCKACQUIRE_OK
       then code = 0 \<and> appLockCacheGlobal st' = appLockCacheGlobal st \<and>
         sessions st' = (sessions st)[s := (me s st)\<lparr>waiting := None, lock_timeout := lt,
            appLockCacheLocal := insert_local q (appLockCacheLocal (me s st))\<rparr>]
       else code < 0 \<and> appLockCacheGlobal st' = ApplockUnrefGlobalCache (req_key q) (appLockCacheGlobal st) \<and>
         sessions st' = (sessions st)[s := (me s st)\<lparr>waiting := None, lock_timeout := lt\<rparr>]"
proof -
  let ?st = "set_me s ((me s st)\<lparr>waiting := None\<rparr>) (st\<lparr>lock_state := l\<rparr>)"
  have me: "me s ?st = (me s st)\<lparr>waiting := None\<rparr>" using s by simp
  let ?f = "ApplockSetLockTimeout (req_timeout q) (cur_timeout q) s (?st\<lparr>appLockCacheGlobal :=
     ApplockUnrefGlobalCache (req_key q) (appLockCacheGlobal ?st)\<rparr>)"
  let ?o = "ApplockSetLockTimeout (req_timeout q) (cur_timeout q) s ?st"
  have end_eq: "(code, st') = (case res of
       LOCKACQUIRE_NOT_AVAIL \<Rightarrow> (error_code (req_timeout q) (elapsed c) ERRCODE_LOCK_NOT_AVAILABLE, ?f)
     | Acquire_error e \<Rightarrow> (error_code (req_timeout q) (elapsed c) e, ?f)
     | LOCKACQUIRE_OK \<Rightarrow> (0, set_me s ((me s ?o)\<lparr>appLockCacheLocal := insert_local q (appLockCacheLocal (me s ?o))\<rparr>) ?o))"
    using get acq unfolding get_end_def acquire_def [symmetric] Let_def by (cases res) simp_all
  have len: "s < length (sessions ?st)" "s < length (sessions (?st\<lparr>appLockCacheGlobal := g\<rparr>))" for g
    using s by simp_all
  show "lock_state st' = l"
    using end_eq by (cases res) (simp_all add: ApplockSetLockTimeout_eq(3) len del: set_me_sel(1))
  obtain lt where o: "sessions ?o = (sessions ?st)[s := (me s ?st)\<lparr>lock_timeout := lt\<rparr>]"
    using ApplockSetLockTimeout_eq(1) [OF len(1)] by blast
  obtain lf where f: "sessions ?f = (sessions ?st)[s := (me s ?st)\<lparr>lock_timeout := lf\<rparr>]"
    using ApplockSetLockTimeout_eq(1) [OF len(2)] by fastforce
  show "\<exists>lt. if res = LOCKACQUIRE_OK
       then code = 0 \<and> appLockCacheGlobal st' = appLockCacheGlobal st \<and>
         sessions st' = (sessions st)[s := (me s st)\<lparr>waiting := None, lock_timeout := lt,
            appLockCacheLocal := insert_local q (appLockCacheLocal (me s st))\<rparr>]
       else code < 0 \<and> appLockCacheGlobal st' = ApplockUnrefGlobalCache (req_key q) (appLockCacheGlobal st) \<and>
         sessions st' = (sessions st)[s := (me s st)\<lparr>waiting := None, lock_timeout := lt\<rparr>]"
  proof (cases "res = LOCKACQUIRE_OK")
    case True
    with end_eq o s show ?thesis
      by (intro exI [of _ lt]) (simp add: ApplockSetLockTimeout_eq(2))
  next
    case False
    with end_eq have "code < 0" "st' = ?f" by (auto simp: error_code_neg split: acquire_result.splits)
    with False f s show ?thesis
      by (intro exI [of _ lf]) (simp add: ApplockSetLockTimeout_eq(2))
  qed
qed

text \<open>The two ways in which the caches change: a new reference, and references given up.\<close>

definition dropped :: "(int \<Rightarrow> nat) \<Rightarrow> (int \<times> AppLockCacheEnt) list \<Rightarrow> (int \<times> AppLockCacheEnt) list \<Rightarrow> bool" where
  "dropped d g g' \<longleftrightarrow> (\<forall>k. gref k g' = gref k g - d k) \<and>
     (\<forall>k. names g' k = (if gref k g' = 0 then None else names g k))"

lemma dropped_refl: "gwf sx g \<Longrightarrow> dropped (\<lambda>_. 0) g g"
  by (simp add: dropped_def names_gref)

lemma dropped_trans:
  "dropped d g g' \<Longrightarrow> dropped d' g' g'' \<Longrightarrow> (\<And>k. d'' k = d k + d' k) \<Longrightarrow> dropped d'' g g''"
  by (auto simp: dropped_def)

lemma unref_dropped:
  assumes "gwf sx g" and "gref k g < 2 ^ 32"
  shows "dropped (\<lambda>k'. if k' = k then 1 else 0) g (ApplockUnrefGlobalCache k g)"
proof -
  have "names g k' = None" if "gref k' g = 0" for k'
    using that names_gref [OF assms(1)] by simp
  then show ?thesis by (auto simp: dropped_def unref_names(1,2) [OF assms])
qed

lemma unrefs_dropped:
  assumes "gwf sx g" and "gref k g < 2 ^ 32"
  shows "gwf sx ((ApplockUnrefGlobalCache k ^^ n) g) \<and>
    dropped (\<lambda>k'. if k' = k then n else 0) g ((ApplockUnrefGlobalCache k ^^ n) g)"
proof (induction n)
  case 0
  show ?case using assms(1) dropped_refl [OF assms(1)] by simp
next
  case (Suc n)
  let ?g = "(ApplockUnrefGlobalCache k ^^ n) g"
  from Suc have wf: "gwf sx ?g" and d: "dropped (\<lambda>k'. if k' = k then n else 0) g ?g" by simp_all
  from d have "gref k ?g = gref k g - n" by (simp add: dropped_def)
  with assms(2) have small: "gref k ?g < 2 ^ 32" by simp
  have "dropped (\<lambda>k'. if k' = k then Suc n else 0) g (ApplockUnrefGlobalCache k ?g)"
    by (rule dropped_trans [OF d unref_dropped [OF wf small]]) simp
  with unref_names(3) [OF wf small] show ?case by simp
qed

lemma fold_unrefs_dropped:
  assumes "gwf sx g" and "\<forall>k. gref k g < 2 ^ 32" and "distinct (map fst L)"
  shows "gwf sx (fold (\<lambda>(k, e). ApplockUnrefGlobalCache k ^^ refcount e) L g) \<and>
    dropped (\<lambda>k. case map_of L k of Some e \<Rightarrow> refcount e | None \<Rightarrow> 0) g
      (fold (\<lambda>(k, e). ApplockUnrefGlobalCache k ^^ refcount e) L g)"
  using assms
proof (induction L arbitrary: g)
  case Nil
  then show ?case using dropped_refl [OF Nil.prems(1)] by simp
next
  case (Cons a L)
  obtain k e where a: "a = (k, e :: 'a AppLockCacheEnt_scheme)" by fastforce
  let ?g = "(ApplockUnrefGlobalCache k ^^ refcount e) g"
  have 1: "gwf sx ?g" "dropped (\<lambda>k'. if k' = k then refcount e else 0) g ?g"
    using unrefs_dropped [OF Cons.prems(1)] Cons.prems(2) by simp_all
  have "gref k' ?g \<le> gref k' g" for k' using 1(2) by (simp add: dropped_def)
  then have small: "\<forall>k'. gref k' ?g < 2 ^ 32" using Cons.prems(2) le_less_trans by blast
  have "map_of L k = None" using Cons.prems(3) a by (simp add: map_of_eq_None_iff)
  then have split: "(case map_of (a # L) k' of Some e \<Rightarrow> refcount e | None \<Rightarrow> 0) =
      (if k' = k then refcount e else 0) + (case map_of L k' of Some e \<Rightarrow> refcount e | None \<Rightarrow> 0)" for k'
    using a by simp
  from Cons.IH [OF 1(1) small] Cons.prems(3)
  have IH: "gwf sx (fold (\<lambda>(k, e). ApplockUnrefGlobalCache k ^^ refcount e) L ?g)"
    "dropped (\<lambda>k. case map_of L k of Some e \<Rightarrow> refcount e | None \<Rightarrow> 0) ?g
      (fold (\<lambda>(k, e). ApplockUnrefGlobalCache k ^^ refcount e) L ?g)" by simp_all
  from dropped_trans [OF 1(2) IH(2) split] IH(1) a show ?case by simp
qed

lemma agree_bound: "caches_agree sx n st \<Longrightarrow> gref k (appLockCacheGlobal st) \<le> n"
  unfolding caches_agree_def by blast

lemma agree_cong:
  assumes "appLockCacheGlobal st' = appLockCacheGlobal st" and "sessions st' = sessions st"
  shows "caches_agree sx n st' = caches_agree sx n st"
  unfolding caches_agree_def assms by (rule refl)

lemma agree_mono: "caches_agree sx n st \<Longrightarrow> n \<le> n' \<Longrightarrow> caches_agree sx n' st"
  unfolding caches_agree_def by (meson order_trans)

lemma agree_small: "caches_agree sx n st \<Longrightarrow> n < b \<Longrightarrow> \<forall>k. gref k (appLockCacheGlobal st) < b"
  using agree_bound le_less_trans by blast

lemma agree_session: "caches_agree sx n st \<Longrightarrow> s < length (sessions st) \<Longrightarrow> session_ok (names (appLockCacheGlobal st)) (me s st)"
  by (simp add: caches_agree_def)

lemma agree_refs:
  assumes "caches_agree sx n st" and "s < length (sessions st)"
  shows "refs k (me s st) \<le> gref k (appLockCacheGlobal st)"
proof -
  have "refs k (me s st) \<le> sum_list (map (refs k) (sessions st))"
    using assms(2) by (intro member_le_sum_list) simp_all
  with assms(1) show ?thesis by (simp add: caches_agree_def)
qed

lemma agree_drop:
  assumes ag: "caches_agree sx n st" and s: "s < length (sessions st)"
    and "gwf sx g'" and ok: "session_ok (names (appLockCacheGlobal st)) x"
    and less: "\<And>k. refs k x \<le> refs k (me s st)"
    and drop: "dropped (\<lambda>k. refs k (me s st) - refs k x) (appLockCacheGlobal st) g'"
    and st': "appLockCacheGlobal st' = g'" "sessions st' = (sessions st)[s := x]"
  shows "caches_agree sx n st'"
proof (rule agree_update [OF ag s assms(3) _ _ _ _ st'])
  have g': "gref k g' = gref k (appLockCacheGlobal st) - (refs k (me s st) - refs k x)" for k
    using drop by (simp add: dropped_def)
  have nm: "names g' k = (if gref k g' = 0 then None else names (appLockCacheGlobal st) k)" for k
    using drop by (simp add: dropped_def)
  note le = agree_refs [OF ag s]
  show "gref k g' + refs k (me s st) = gref k (appLockCacheGlobal st) + refs k x" for k
    using g' [of k] le [of k] less [of k] by simp
  show "session_ok (names g') x"
  proof (rule session_ok_frame [OF ok])
    fix k assume "0 < refs k x"
    with g' [of k] le [of k] less [of k] have "gref k g' \<noteq> 0" by simp
    then show "names g' k = names (appLockCacheGlobal st) k" using nm by simp
  qed
  show "names g' k = names (appLockCacheGlobal st) k" if "refs k (me s st) < gref k (appLockCacheGlobal st)" for k
  proof -
    have "gref k g' \<noteq> 0" using that g' [of k] by linarith
    then show ?thesis using nm by simp
  qed
  show "gref k g' \<le> n" for k
    using g' [of k] agree_bound [OF ag, of k] by linarith
qed

lemma session_ok_add: "session_ok nm x \<Longrightarrow> nm k \<in> {None, Some r} \<Longrightarrow> session_ok (nm(k \<mapsto> r)) x"
  unfolding session_ok_def local_ok_def request_ok_def by (auto simp del: map_of_eq_Some_iff)

lemma agree_reference:
  assumes ag: "caches_agree sx n st" and s: "s < length (sessions st)"
    and ref: "referenced sx r (appLockCacheGlobal st) k g'" and ok: "session_ok (names g') x"
    and refs: "\<And>k'. refs k' x = refs k' (me s st) + (if k' = k then 1 else 0)"
    and st': "appLockCacheGlobal st' = g'" "sessions st' = (sessions st)[s := x]"
  shows "caches_agree sx (Suc n) st'"
proof (rule agree_update [OF ag s _ ok _ _ _ st'])
  have wf: "gwf sx (appLockCacheGlobal st)" using ag by (simp add: caches_agree_def)
  show "gwf sx g'" using ref by (simp add: referenced_def)
  show "gref k' g' + refs k' (me s st) = gref k' (appLockCacheGlobal st) + refs k' x" for k'
    using ref refs [of k'] by (simp add: referenced_def)
  show "names g' k' = names (appLockCacheGlobal st) k'" if "refs k' (me s st) < gref k' (appLockCacheGlobal st)" for k'
    using that ref names_gref [OF wf, of k'] by (auto simp: referenced_def)
  show "gref k' g' \<le> Suc n" for k'
    using ref agree_bound [OF ag, of k'] by (auto simp: referenced_def)
qed

section \<open>The operations keep the caches in agreement\<close>

lemma get_begin_agree:
  assumes "get_begin env fresh c s r lm lo t st = (code, st')" and s: "s < length (sessions st)"
    and ag: "caches_agree (char_signed env) n st" and "n < 2 ^ 32 - 1"
    and r: "length r \<le> APPLOCK_MAX_RESOURCE_LENGTH" and w: "waiting (me s st) = None"
  shows "caches_agree (char_signed env) (Suc n) st'"
proof -
  have wf: "gwf (char_signed env) (appLockCacheGlobal st)" using ag by (simp add: caches_agree_def)
  from get_begin_cases [OF assms(1) s wf agree_small [OF ag assms(4)] r] show ?thesis
  proof (elim disjE exE conjE)
    assume "st' = st"
    with ag show ?thesis by (auto intro: agree_mono)
  next
    fix q lt
    assume q: "req_resource q = r" "acquirable (req_mode q)"
      and ref: "referenced (char_signed env) r (appLockCacheGlobal st) (req_key q) (appLockCacheGlobal st')"
      and ses: "sessions st' = (sessions st)[s := (me s st)\<lparr>lock_timeout := lt, waiting := Some q\<rparr>]"
    let ?x = "(me s st)\<lparr>lock_timeout := lt, waiting := Some q\<rparr>"
    have nm: "names (appLockCacheGlobal st') = (names (appLockCacheGlobal st))(req_key q \<mapsto> r)"
      "names (appLockCacheGlobal st) (req_key q) \<in> {None, Some r}"
      using ref by (simp_all add: referenced_def)
    have "session_ok (names (appLockCacheGlobal st')) (me s st)"
      unfolding nm(1) by (rule session_ok_add [OF agree_session [OF ag s] nm(2)])
    moreover have "request_ok (names (appLockCacheGlobal st')) q"
      using q r nm(1) by (simp add: request_ok_def)
    ultimately have "session_ok (names (appLockCacheGlobal st')) ?x" by (simp add: session_ok_def)
    moreover have "refs k ?x = refs k (me s st) + (if k = req_key q then 1 else 0)" for k
      using w by (simp add: refs_def)
    ultimately show ?thesis by (rule agree_reference [OF ag s ref _ _ refl ses])
  qed
qed

lemma insert_local_lookup:
  assumes "length (req_resource q) \<le> APPLOCK_MAX_RESOURCE_LENGTH"
  shows "map_of (insert_local q cache) = (map_of cache)(req_key q \<mapsto>
    (case map_of cache (req_key q) of
       Some e \<Rightarrow> e\<lparr>resource := req_resource q, refcount := uint32_add1 (refcount e), mode_head := req_mode q # mode_head e,
                   is_session := req_session q\<rparr>
     | None \<Rightarrow> \<lparr>resource = req_resource q, refcount = 1, mode_head = [req_mode q], is_session = req_session q\<rparr>))"
proof -
  have "uint32_add1 0 = 1" by (simp add: uint32_add1_def)
  with assms show ?thesis
    by (cases "map_of cache (req_key q)") (simp_all add: insert_local_def map_of_update del: map_of_eq_Some_iff)
qed

lemma get_end_agree:
  assumes get: "get_end env c s q st = (code, st')" and s: "s < length (sessions st)"
    and ag: "caches_agree (char_signed env) n st" and n: "n < 2 ^ 32 - 1" and w: "waiting (me s st) = Some q"
  shows "caches_agree (char_signed env) n st'"
proof -
  let ?sx = "char_signed env" let ?g = "appLockCacheGlobal st"
  have wf: "gwf ?sx ?g" using ag by (simp add: caches_agree_def)
  note ok = agree_session [OF ag s]
  note req = session_request [OF ok w]
  obtain res l where acq: "acquire env s q st = (res, l)" by fastforce
  obtain lt where res: "if res = LOCKACQUIRE_OK
       then code = 0 \<and> appLockCacheGlobal st' = appLockCacheGlobal st \<and>
         sessions st' = (sessions st)[s := (me s st)\<lparr>waiting := None, lock_timeout := lt,
            appLockCacheLocal := insert_local q (appLockCacheLocal (me s st))\<rparr>]
       else code < 0 \<and> appLockCacheGlobal st' = ApplockUnrefGlobalCache (req_key q) (appLockCacheGlobal st) \<and>
         sessions st' = (sessions st)[s := (me s st)\<lparr>waiting := None, lock_timeout := lt\<rparr>]"
    using get_end_cases(2) [OF get s acq] by blast
  show ?thesis
  proof (cases "res = LOCKACQUIRE_OK")
    case False
    let ?x = "(me s st)\<lparr>waiting := None, lock_timeout := lt\<rparr>"
    have small: "gref (req_key q) ?g < 2 ^ 32" using agree_bound [OF ag, of "req_key q"] n by simp
    have drop: "(\<lambda>k. refs k (me s st) - refs k ?x) = (\<lambda>k. if k = req_key q then 1 else 0)"
      using w by (simp add: refs_def fun_eq_iff)
    show ?thesis
    proof (rule agree_drop [OF ag s unref_names(3) [OF wf small], of ?x])
      show "session_ok (names ?g) ?x" using ok by (simp add: session_ok_def)
      show "refs k ?x \<le> refs k (me s st)" for k by (simp add: refs_def)
      show "dropped (\<lambda>k. refs k (me s st) - refs k ?x) ?g (ApplockUnrefGlobalCache (req_key q) ?g)"
        unfolding drop by (rule unref_dropped [OF wf small])
    qed (use res False in simp_all)
  next
    case True
    let ?c = "appLockCacheLocal (me s st)"
    let ?x = "(me s st)\<lparr>waiting := None, lock_timeout := lt, appLockCacheLocal := insert_local q ?c\<rparr>"
    have look: "map_of (insert_local q ?c) = (map_of ?c)(req_key q \<mapsto>
        (case map_of ?c (req_key q) of
           Some e \<Rightarrow> e\<lparr>resource := req_resource q, refcount := uint32_add1 (refcount e), mode_head := req_mode q # mode_head e,
                       is_session := req_session q\<rparr>
         | None \<Rightarrow> \<lparr>resource = req_resource q, refcount = 1, mode_head = [req_mode q], is_session = req_session q\<rparr>))"
      using req by (intro insert_local_lookup) (simp add: request_ok_def)
    have add1: "uint32_add1 (refcount e) = refcount e + 1" if "map_of ?c (req_key q) = Some e" for e
    proof -
      have "refcount e \<le> refs (req_key q) (me s st)" using that by (simp add: refs_def)
      also have "\<dots> \<le> n" using agree_refs [OF ag s] agree_bound [OF ag] order_trans by blast
      finally show ?thesis using n by (simp add: uint32_add1_small)
    qed
    have refs: "refs k ?x = refs k (me s st)" for k
      using w add1 by (auto simp: refs_def look split: option.split)
    have "local_ok (names ?g) k e" if "map_of (insert_local q ?c) k = Some e" for k e
      using that add1 req session_local [OF ok, of k]
      by (auto simp: look local_ok_def request_ok_def simp del: map_of_eq_Some_iff split: if_splits option.splits)
    moreover have "distinct (map fst (insert_local q ?c))"
      using ok by (simp add: insert_local_def session_ok_def distinct_update Let_def)
    ultimately have "session_ok (names ?g) ?x" by (simp add: session_ok_def del: map_of_eq_Some_iff)
    then show ?thesis
    proof (rule agree_drop [OF ag s wf])
      show "dropped (\<lambda>k. refs k (me s st) - refs k ?x) ?g ?g" using dropped_refl [OF wf] by (simp add: refs)
    qed (use res True refs in simp_all)
  qed
qed

lemma release_cases:
  assumes "sp_releaseapplock_internal env c s r lo st = (res, st')"
  shows "(res \<noteq> Inr 0 \<and> st' = st) \<or>
    (\<exists>key e mode ms m ok l. key = AppLockSearchKeyGlobal (char_signed env) (appLockCacheGlobal st) r \<and> key \<noteq> - 1 \<and>
       map_of (appLockCacheLocal (me s st)) key = Some e \<and> ApplockCheckLockowner env lo = Some (is_session e) \<and>
       mode_head e = mode # ms \<and> getPGLockMode mode = Some m \<and>
       LockRelease env s (ApplockSetLocktag (MyDatabaseId (me s st)) key) m (is_session e) (lock_state st) = (ok, l) \<and>
       (if ok then res = Inr 0 \<and> appLockCacheGlobal st' = ApplockUnrefGlobalCache key (appLockCacheGlobal st) \<and>
          sessions st' = (sessions st)[s := (me s st)\<lparr>appLockCacheLocal := pop_local key e (appLockCacheLocal (me s st))\<rparr>] \<and>
          lock_state st' = l
        else res = Inr (- 999) \<and> st' = st\<lparr>lock_state := l\<rparr>))"
proof (cases "IsInParallelMode c \<or> ApplockCheckLockowner env lo = None \<or>
    AppLockSearchKeyGlobal (char_signed env) (appLockCacheGlobal st) r = - 1")
  case True
  then show ?thesis using assms
    by (cases "IsInParallelMode c") (auto simp: sp_releaseapplock_internal_def split: option.splits)
next
  case False
  let ?key = "AppLockSearchKeyGlobal (char_signed env) (appLockCacheGlobal st) r"
  from False obtain is_ses where ok: "\<not> IsInParallelMode c" "ApplockCheckLockowner env lo = Some is_ses" "?key \<noteq> - 1"
    by auto
  note release = assms [unfolded sp_releaseapplock_internal_def, simplified ok if_False option.case Let_def if_not_P]
  show ?thesis
  proof (cases "\<exists>e mode ms m. map_of (appLockCacheLocal (me s st)) ?key = Some e \<and> is_session e = is_ses \<and>
      mode_head e = mode # ms \<and> getPGLockMode mode = Some m")
    case False
    with release ok(3) have "res \<noteq> Inr 0 \<and> st' = st"
      by (auto split: option.split_asm list.split_asm if_split_asm)
    then show ?thesis ..
  next
    case True
    then obtain e mode ms m where e: "map_of (appLockCacheLocal (me s st)) ?key = Some e" "is_session e = is_ses"
      "mode_head e = mode # ms" "getPGLockMode mode = Some m" by blast
    obtain rel l where rel: "LockRelease env s (ApplockSetLocktag (MyDatabaseId (me s st)) ?key) m (is_session e) (lock_state st) = (rel, l)"
      by fastforce
    with release e ok have "if rel then res = Inr 0 \<and> appLockCacheGlobal st' = ApplockUnrefGlobalCache ?key (appLockCacheGlobal st) \<and>
          sessions st' = (sessions st)[s := (me s st)\<lparr>appLockCacheLocal := pop_local ?key e (appLockCacheLocal (me s st))\<rparr>] \<and>
          lock_state st' = l
        else res = Inr (- 999) \<and> st' = st\<lparr>lock_state := l\<rparr>"
      by (cases rel) auto
    with e rel ok show ?thesis by blast
  qed
qed

lemma pop_local_lookup:
  assumes "0 < refcount e" and "refcount e < 2 ^ 32"
  shows "map_of (pop_local key e cache) = (map_of cache)(key := if refcount e = 1 then None
    else Some (e\<lparr>mode_head := tl (mode_head e), refcount := refcount e - 1\<rparr>))"
proof -
  have "uint32_sub (refcount e) 1 = refcount e - 1"
    using assms by (intro uint32_sub_small) simp_all
  with assms(1) show ?thesis by (simp add: pop_local_def Let_def map_of_delete map_of_update)
qed

lemma local_refcount:
  assumes "caches_agree sx n st" and "s < length (sessions st)" and "map_of (appLockCacheLocal (me s st)) k = Some e"
  shows "0 < refcount e" and "refcount e \<le> n" and "refcount e = length (mode_head e)"
proof -
  show "refcount e = length (mode_head e)" "0 < refcount e"
    using session_local [OF agree_session [OF assms(1,2)] assms(3)] by (simp_all add: local_ok_def)
  have "refcount e \<le> refs k (me s st)" using assms(3) by (simp add: refs_def)
  also have "\<dots> \<le> n" using agree_refs [OF assms(1,2)] agree_bound [OF assms(1)] order_trans by blast
  finally show "refcount e \<le> n" .
qed

lemma release_agree:
  assumes rel: "sp_releaseapplock_internal env c s r lo st = (res, st')" and s: "s < length (sessions st)"
    and ag: "caches_agree (char_signed env) n st" and n: "n < 2 ^ 32 - 1"
  shows "caches_agree (char_signed env) n st'"
  using release_cases [OF rel]
proof (elim disjE exE conjE)
  assume "st' = st"
  with ag show ?thesis by simp
next
  fix key e mode ms m ok l
  assume look: "map_of (appLockCacheLocal (me s st)) key = Some e" and head: "mode_head e = mode # ms"
    and res: "if ok then res = Inr 0 \<and> appLockCacheGlobal st' = ApplockUnrefGlobalCache key (appLockCacheGlobal st) \<and>
          sessions st' = (sessions st)[s := (me s st)\<lparr>appLockCacheLocal := pop_local key e (appLockCacheLocal (me s st))\<rparr>] \<and>
          lock_state st' = l
        else res = Inr (- 999) \<and> st' = st\<lparr>lock_state := l\<rparr>"
  show ?thesis
  proof (cases ok)
    case False
    with res have "appLockCacheGlobal st' = appLockCacheGlobal st" "sessions st' = sessions st" by simp_all
    from agree_cong [OF this] ag show ?thesis by simp
  next
    case True
    let ?g = "appLockCacheGlobal st" let ?c = "appLockCacheLocal (me s st)"
    let ?x = "(me s st)\<lparr>appLockCacheLocal := pop_local key e ?c\<rparr>"
    have wf: "gwf (char_signed env) ?g" using ag by (simp add: caches_agree_def)
    have small: "gref key ?g < 2 ^ 32" using agree_bound [OF ag, of key] n by simp
    note e = local_refcount [OF ag s look]
    have pop: "map_of (pop_local key e ?c) = (map_of ?c)(key := if refcount e = 1 then None
        else Some (e\<lparr>mode_head := tl (mode_head e), refcount := refcount e - 1\<rparr>))"
      using e n by (intro pop_local_lookup) simp_all
    note loc = session_local [OF agree_session [OF ag s]]
    have "local_ok (names ?g) k e'" if "map_of (pop_local key e ?c) k = Some e'" for k e'
      using that loc [of k] loc [OF look] head
      by (auto simp: pop local_ok_def simp del: map_of_eq_Some_iff split: if_splits)
    moreover have "distinct (map fst (pop_local key e ?c))"
      using agree_session [OF ag s] by (simp add: pop_local_def session_ok_def distinct_update distinct_delete Let_def)
    ultimately have ok_x: "session_ok (names ?g) ?x"
      using agree_session [OF ag s] by (simp add: session_ok_def del: map_of_eq_Some_iff)
    have drop: "(\<lambda>k. refs k (me s st) - refs k ?x) = (\<lambda>k. if k = key then 1 else 0)"
      using look e(1) by (auto simp: refs_def pop fun_eq_iff)
    have "dropped (\<lambda>k. refs k (me s st) - refs k ?x) ?g (ApplockUnrefGlobalCache key ?g)"
      unfolding drop by (rule unref_dropped [OF wf small])
    moreover have "refs k ?x \<le> refs k (me s st)" for k
      using look e(1) by (auto simp: refs_def pop)
    ultimately show ?thesis
      using True res by (intro agree_drop [OF ag s unref_names(3) [OF wf small] ok_x]) simp_all
  qed
qed

lemma map_of_filter_distinct:
  "distinct (map fst L) \<Longrightarrow> map_of (filter (\<lambda>(k, e). P e) L) k =
    (case map_of L k of Some e \<Rightarrow> if P e then Some e else None | None \<Rightarrow> None)"
proof (induction L)
  case (Cons a L)
  obtain k' e where a: "a = (k', e)" by fastforce
  have "map_of L k' = None" using Cons.prems a by (simp add: map_of_eq_None_iff)
  with Cons a show ?case by auto
qed simp

lemma distinct_filter_keys: "distinct (map fst L) \<Longrightarrow> distinct (map fst (filter P L))"
  by (induction L) auto

lemma remove_agree:
  assumes s: "s < length (sessions st)" and ag: "caches_agree (char_signed env) n st" and n: "n < 2 ^ 32 - 1"
    and st': "st' = ApplockRemoveCache env tsql release_session s st"
  shows "caches_agree (char_signed env) n st'"
proof (cases tsql)
  case False
  with ag st' show ?thesis by (simp add: ApplockRemoveCache_def)
next
  case True
  let ?g = "appLockCacheGlobal st" let ?c = "appLockCacheLocal (me s st)"
  let ?P = "\<lambda>e. release_session \<or> \<not> is_session e"
  define removed where "removed = filter (\<lambda>(k, e). ?P e) ?c"
  define kept where "kept = filter (\<lambda>(k, e). \<not> ?P e) ?c"
  let ?x = "(me s st)\<lparr>appLockCacheLocal := kept\<rparr>"
  note ok = agree_session [OF ag s]
  have dist: "distinct (map fst ?c)" using ok by (simp add: session_ok_def)
  have wf: "gwf (char_signed env) ?g" using ag by (simp add: caches_agree_def)
  have small: "\<forall>k. gref k ?g < 2 ^ 32" using n by (intro agree_small [OF ag]) simp
  have look: "map_of removed k = (case map_of ?c k of Some e \<Rightarrow> if ?P e then Some e else None | None \<Rightarrow> None)"
    "map_of kept k = (case map_of ?c k of Some e \<Rightarrow> if \<not> ?P e then Some e else None | None \<Rightarrow> None)" for k
    unfolding removed_def kept_def by (rule map_of_filter_distinct [OF dist])+
  have keys: "distinct (map fst removed)" "distinct (map fst kept)"
    unfolding removed_def kept_def by (rule distinct_filter_keys [OF dist])+
  have "local_ok (names ?g) k e" if "map_of kept k = Some e" for k e
    using that session_local [OF ok, of k] unfolding look by (auto split: option.splits if_splits)
  then have ok_x: "session_ok (names ?g) ?x"
    using ok keys by (simp add: session_ok_def del: map_of_eq_Some_iff)
  have drop: "(\<lambda>k. refs k (me s st) - refs k ?x) = (\<lambda>k. case map_of removed k of Some e \<Rightarrow> refcount e | None \<Rightarrow> 0)"
    by (auto simp: refs_def look fun_eq_iff split: option.splits)
  have le: "refs k ?x \<le> refs k (me s st)" for k
    by (auto simp: refs_def look split: option.splits)
  have "dropped (\<lambda>k. refs k (me s st) - refs k ?x) ?g
      (fold (\<lambda>(k, e). ApplockUnrefGlobalCache k ^^ refcount e) removed ?g)"
    unfolding drop using fold_unrefs_dropped [OF wf small keys(1)] by blast
  then show ?thesis
    by (rule agree_drop [OF ag s conjunct1 [OF fold_unrefs_dropped [OF wf small keys(1)]] ok_x le])
      (use True st' in \<open>simp_all add: ApplockRemoveCache_def Let_def removed_def kept_def\<close>)
qed

section \<open>Steps of the sessions\<close>

text \<open>
  A session begins a request, ends the request it waits with, releases a lock, or ends its
  transaction or itself. The steps of different sessions interleave; the critical sections of
  one search for a key are one step. The label says what a caller sees.
\<close>

datatype applock_event =
    Granted nat string Applock_All_Lockmode bool
  | Released nat string bool
  | Not_released nat string bool
  | Ended nat bool
  | Idle

inductive applock_step :: "'l applock_env \<Rightarrow> 'l applocks \<Rightarrow> applock_event \<Rightarrow> 'l applocks \<Rightarrow> bool"
  for env :: "'l applock_env" where
  get_begins: "s < length (sessions st) \<Longrightarrow> waiting (me s st) = None \<Longrightarrow> length r < APPLOCK_MAX_RESOURCE_LENGTH \<Longrightarrow>
    get_begin env fresh c s r lockmode lockowner timeout st = (code, st') \<Longrightarrow> applock_step env st Idle st'"
| get_ends: "s < length (sessions st) \<Longrightarrow> waiting (me s st) = Some q \<Longrightarrow> get_end env c s q st = (code, st') \<Longrightarrow>
    applock_step env st (if code = 0 then Granted s (req_resource q) (req_mode q) (req_session q) else Idle) st'"
| releases: "s < length (sessions st) \<Longrightarrow> waiting (me s st) = None \<Longrightarrow>
    sp_releaseapplock_internal env c s r lockowner st = (res, st') \<Longrightarrow>
    applock_step env st (case ApplockCheckLockowner env lockowner of
        Some b \<Rightarrow> if IsInParallelMode c then Idle else if res = Inr 0 then Released s r b else Not_released s r b
      | None \<Rightarrow> Idle) st'"
| ends: "s < length (sessions st) \<Longrightarrow> waiting (me s st) = None \<Longrightarrow>
    applock_step env st (if tsql then Ended s release_session else Idle) (ApplockRemoveCache env tsql release_session s st)"

inductive applock_reaches ::
  "'l applock_env \<Rightarrow> ('l applocks \<Rightarrow> bool) \<Rightarrow> 'l applocks \<Rightarrow> nat \<Rightarrow> 'l applocks \<Rightarrow> bool"
  for env :: "'l applock_env" and ok :: "'l applocks \<Rightarrow> bool" and st0 :: "'l applocks" where
  start: "applock_reaches env ok st0 0 st0"
| more_steps: "applock_reaches env ok st0 n st \<Longrightarrow> ok st \<Longrightarrow> applock_step env st ev st' \<Longrightarrow> applock_reaches env ok st0 (Suc n) st'"

definition initial :: "'l applocks \<Rightarrow> bool" where
  "initial st \<longleftrightarrow> appLockCacheGlobal st = [] \<and> (\<forall>x \<in> set (sessions st). appLockCacheLocal x = [] \<and> waiting x = None)"

lemma initial_agree: "initial st \<Longrightarrow> caches_agree sx n st"
  by (auto simp: initial_def caches_agree_def gwf_def unique_names_def names_def gref_def refs_def session_ok_def
      sum_list_eq_0_iff)

lemma step_agree:
  assumes "applock_step env st ev st'" and "caches_agree (char_signed env) n st" and "n < 2 ^ 32 - 1"
  shows "caches_agree (char_signed env) (Suc n) st'"
  using assms(1)
proof cases
  case get_begins
  with assms(2,3) show ?thesis by (auto intro: get_begin_agree)
next
  case get_ends
  with get_end_agree [OF _ _ assms(2,3)] have "caches_agree (char_signed env) n st'" by blast
  then show ?thesis by (rule agree_mono) simp
next
  case releases
  with release_agree [OF _ _ assms(2,3)] have "caches_agree (char_signed env) n st'" by blast
  then show ?thesis by (rule agree_mono) simp
next
  case ends
  with remove_agree [OF _ assms(2,3)] have "caches_agree (char_signed env) n st'" by blast
  then show ?thesis by (rule agree_mono) simp
qed

lemma reaches_agree:
  assumes "applock_reaches env ok st0 n st" and "initial st0" and "n < 2 ^ 32"
  shows "caches_agree (char_signed env) n st"
  using assms(1,3)
proof induction
  case start
  show ?case using assms(2) by (rule initial_agree)
next
  case (more_steps n st ev st')
  then show ?case by (intro step_agree) simp_all
qed

text \<open>The functions are sequences of such steps.\<close>

lemma reaches_trans:
  "applock_reaches env ok st1 n st2 \<Longrightarrow> applock_reaches env ok st0 n0 st1 \<Longrightarrow> applock_reaches env ok st0 (n0 + n) st2"
  by (induction rule: applock_reaches.induct) (auto intro: applock_reaches.intros)

lemma one_step: "applock_step env st ev st' \<Longrightarrow> ok st \<Longrightarrow> applock_reaches env ok st 1 st'"
  using applock_reaches.more_steps [OF applock_reaches.start] by fastforce

lemma waiting_after_begin:
  assumes "get_begin env fresh c s r lockmode lockowner timeout st = (None, st')" and "s < length (sessions st)"
  shows "s < length (sessions st')" and "\<exists>q. waiting (me s st') = Some q"
proof -
  have len: "length (sessions (ApplockSetLockTimeout t v s st)) = length (sessions st)" for t v and st :: "'a applocks"
    by (simp add: ApplockSetLockTimeout_def)
  show "s < length (sessions st')" "\<exists>q. waiting (me s st') = Some q"
    using assms by (auto simp: get_begin_def Let_def len split: option.splits if_splits prod.splits)
qed

lemma getapplock_steps:
  assumes "s < length (sessions st)" and "waiting (me s st) = None" and "length r < APPLOCK_MAX_RESOURCE_LENGTH"
    and get: "sp_getapplock_internal env fresh c s r lockmode lockowner timeout st = (code, st')"
  shows "\<exists>n \<le> 2. applock_reaches env (\<lambda>_. True) st n st'"
proof -
  obtain code1 st1 where b: "get_begin env fresh c s r lockmode lockowner timeout st = (code1, st1)" by fastforce
  have 1: "applock_reaches env (\<lambda>_. True) st 1 st1"
    by (rule one_step [OF applock_step.get_begins [OF assms(1-3) b]]) simp
  show ?thesis
  proof (cases code1)
    case None
    with waiting_after_begin b assms(1) obtain q where q: "waiting (me s st1) = Some q" "s < length (sessions st1)" by metis
    with get b None have "get_end env c s q st1 = (code, st')" by (simp add: sp_getapplock_internal_def)
    then have "applock_reaches env (\<lambda>_. True) st1 1 st'"
      by (intro one_step [OF applock_step.get_ends [OF q(2,1)]]) simp_all
    from reaches_trans [OF this 1] show ?thesis by (intro exI [of _ 2]) (simp add: numeral_2_eq_2)
  next
    case (Some k)
    with get b have "st' = st1" by (simp add: sp_getapplock_internal_def)
    with 1 show ?thesis by (intro exI [of _ 1]) simp
  qed
qed

end
