(* ===== verification/Applock_Locks.thy ===== *)
theory Applock_Locks
  imports Applock_Caches
begin

text \<open>
  The application locks of all sessions as a table of names: under the contract of the lock
  manager the caches implement it, and locks that exclude each other are never held at once.
  The cases in which the code does not keep to this are proved as well.
\<close>

section \<open>Locks\<close>

text \<open>
  What is relied on of the lock manager: a lock that is granted conflicts with no lock another
  session holds on the tag and is held once more, and nothing is held or given up otherwise;
  a release succeeds if the lock is held and gives it up once; at the end of a transaction the
  locks of the transaction are given up, at the end of the session all of them.
\<close>

primrec app_mode :: "pg_lockmode \<Rightarrow> Applock_All_Lockmode" where
  "app_mode RowShareLock = APPLOCKMODE_INTENTSHARED"
| "app_mode RowExclusiveLock = APPLOCKMODE_INTENTEXCLUSIVE"
| "app_mode ShareUpdateExclusiveLock = APPLOCKMODE_UPDATE"
| "app_mode ShareLock = APPLOCKMODE_SHARED"
| "app_mode ExclusiveLock = APPLOCKMODE_EXCLUSIVE"

definition acquire_spec :: "'l applock_env \<Rightarrow> bool" where
  "acquire_spec env \<longleftrightarrow> (\<forall>s t m b nw l res l'. LockAcquire env s t m b nw l = (res, l') \<longrightarrow>
     (if res = LOCKACQUIRE_OK
      then (\<forall>s' m' b'. s' \<noteq> s \<longrightarrow> 0 < held env l s' t m' b' \<longrightarrow> compatible (app_mode m) (app_mode m')) \<and>
        (\<forall>s' t' m' b'. held env l' s' t' m' b' = held env l s' t' m' b' + (if (s', t', m', b') = (s, t, m, b) then 1 else 0))
      else held env l' = held env l))"

definition release_spec :: "'l applock_env \<Rightarrow> bool" where
  "release_spec env \<longleftrightarrow>
     (\<forall>s t m b l ok l'. LockRelease env s t m b l = (ok, l') \<longrightarrow> ok = (0 < held env l s t m b) \<and>
       (\<forall>s' t' m' b'. held env l' s' t' m' b' = held env l s' t' m' b' - (if (s', t', m', b') = (s, t, m, b) then 1 else 0))) \<and>
     (\<forall>s all l s' t' m' b'. held env (LockReleaseAll env s all l) s' t' m' b' =
       (if s' = s \<and> (all \<or> \<not> b') then 0 else held env l s' t' m' b'))"

definition conflict_free :: "'l applock_env \<Rightarrow> 'l \<Rightarrow> bool" where
  "conflict_free env l \<longleftrightarrow> (\<forall>s s' t m m' b b'. s \<noteq> s' \<longrightarrow> 0 < held env l s t m b \<longrightarrow> 0 < held env l s' t m' b' \<longrightarrow>
     compatible (app_mode m) (app_mode m'))"

text \<open>The locks held of the lock manager are those in the cache of the session.\<close>

definition lock_count :: "AppLockLocalEnt option \<Rightarrow> pg_lockmode \<Rightarrow> bool \<Rightarrow> nat" where
  "lock_count oe m b = (case oe of
     Some e \<Rightarrow> if is_session e = b then count_list (mode_head e) (app_mode m) else 0 | None \<Rightarrow> 0)"

definition locks_agree :: "'l applock_env \<Rightarrow> 'l applocks \<Rightarrow> bool" where
  "locks_agree env st \<longleftrightarrow> (\<forall>s k m b. s < length (sessions st) \<longrightarrow> 0 \<le> k \<longrightarrow> k \<le> INT64_MAX \<longrightarrow>
     held env (lock_state st) s (ApplockSetLocktag (MyDatabaseId (me s st)) k) m b =
       lock_count (map_of (appLockCacheLocal (me s st)) k) m b)"

text \<open>No session requests a name that it holds with the other owner.\<close>

definition one_owner :: "'l applocks \<Rightarrow> bool" where
  "one_owner st \<longleftrightarrow> (\<forall>x \<in> set (sessions st). case waiting x of None \<Rightarrow> True
     | Some q \<Rightarrow> (case map_of (appLockCacheLocal x) (req_key q) of None \<Rightarrow> True
         | Some e \<Rightarrow> is_session e = req_session q))"

lemma app_mode_pg: "getPGLockMode mode = Some m \<longleftrightarrow> mode = app_mode m"
  by (cases mode; cases m) (simp_all add: getPGLockMode_def)

lemma compatible_sym: "acquirable m \<Longrightarrow> acquirable m' \<Longrightarrow> compatible m m' = compatible m' m"
  by (cases m; cases m') (simp_all add: acquirable_def getPGLockMode_def)

lemma app_mode_acquirable: "acquirable (app_mode m)"
  by (cases m) (simp_all add: acquirable_def getPGLockMode_def)

lemma acquirable_app_mode: "acquirable mode \<Longrightarrow> \<exists>m. mode = app_mode m"
  by (auto simp: acquirable_def app_mode_pg)

lemma app_mode_inject: "app_mode m = app_mode m' \<longleftrightarrow> m = m'"
  by (cases m; cases m') simp_all

lemma key_range: "caches_agree sx n st \<Longrightarrow> names (appLockCacheGlobal st) k = Some r \<Longrightarrow> 0 \<le> k \<and> k \<le> INT64_MAX"
  unfolding caches_agree_def gwf_def unique_names_def using candidates_range by blast

lemma tag_neq:
  "0 \<le> k \<Longrightarrow> k \<le> INT64_MAX \<Longrightarrow> 0 \<le> k' \<Longrightarrow> k' \<le> INT64_MAX \<Longrightarrow> ApplockSetLocktag db k = ApplockSetLocktag db k' \<longleftrightarrow> k = k'"
  using locktag_inject by blast

text \<open>A change of one session and of the locks it holds.\<close>

lemma locks_agree_update:
  assumes "locks_agree env st" and s: "s < length (sessions st)" and st': "sessions st' = (sessions st)[s := x]"
    and db: "MyDatabaseId x = MyDatabaseId (me s st)"
    and other: "\<And>s' t m b. s' \<noteq> s \<Longrightarrow> held env (lock_state st') s' t m b = held env (lock_state st) s' t m b"
    and mine: "\<And>k m b. 0 \<le> k \<Longrightarrow> k \<le> INT64_MAX \<Longrightarrow>
      held env (lock_state st') s (ApplockSetLocktag (MyDatabaseId x) k) m b = lock_count (map_of (appLockCacheLocal x) k) m b"
  shows "locks_agree env st'"
proof -
  have "held env (lock_state st') s' (ApplockSetLocktag (MyDatabaseId (me s' st')) k) m b =
       lock_count (map_of (appLockCacheLocal (me s' st')) k) m b"
    if "s' < length (sessions st')" "0 \<le> k" "k \<le> INT64_MAX" for s' k m b
  proof (cases "s' = s")
    case True
    with mine [OF that(2,3)] s st' show ?thesis by simp
  next
    case False
    with assms(1) that st' show ?thesis by (simp add: locks_agree_def other)
  qed
  then show ?thesis by (simp add: locks_agree_def)
qed

lemma conflict_freeD:
  "conflict_free env l \<Longrightarrow> s \<noteq> s' \<Longrightarrow> 0 < held env l s t m b \<Longrightarrow> 0 < held env l s' t m' b' \<Longrightarrow>
     compatible (app_mode m) (app_mode m')"
  unfolding conflict_free_def by blast

lemma conflict_free_mono:
  assumes "conflict_free env l" and "\<And>s t m b. held env l' s t m b \<le> held env l s t m b"
  shows "conflict_free env l'"
proof -
  have "0 < held env l s t m b" if "0 < held env l' s t m b" for s t m b
    using that assms(2) [of s t m b] by linarith
  then show ?thesis unfolding conflict_free_def by (intro allI impI conflict_freeD [OF assms(1)])
qed

lemma conflict_free_acquire:
  assumes "acquire_spec env" and free: "conflict_free env l" and get: "LockAcquire env s t m b nw l = (LOCKACQUIRE_OK, l')"
  shows "conflict_free env l'"
proof -
  have compat: "compatible (app_mode m) (app_mode m')" if "s' \<noteq> s" "0 < held env l s' t m' b'" for s' m' b'
    using assms(1) get that unfolding acquire_spec_def by fastforce
  have held: "held env l' s' t' m' b' = held env l s' t' m' b' + (if (s', t', m', b') = (s, t, m, b) then 1 else 0)" for s' t' m' b'
    using assms(1) get unfolding acquire_spec_def by fastforce
  show ?thesis
    unfolding conflict_free_def
  proof (intro allI impI)
    fix s1 s2 t0 m1 m2 b1 b2
    assume ne: "s1 \<noteq> s2" and h1: "0 < held env l' s1 t0 m1 b1" and h2: "0 < held env l' s2 t0 m2 b2"
    show "compatible (app_mode m1) (app_mode m2)"
    proof (cases "(s1, t0, m1, b1) = (s, t, m, b)")
      case True
      then have "s2 \<noteq> s" "t0 = t" "m1 = m" using ne by simp_all
      moreover from this h2 have "0 < held env l s2 t m2 b2" by (simp add: held)
      ultimately show ?thesis using compat by simp
    next
      case False
      then have old: "0 < held env l s1 t0 m1 b1" using h1 by (simp add: held split: if_splits)
      show ?thesis
      proof (cases "(s2, t0, m2, b2) = (s, t, m, b)")
        case True
        then have "compatible (app_mode m2) (app_mode m1)" using old ne compat [of s1 m1 b1] by simp
        then show ?thesis by (simp only: compatible_sym [OF app_mode_acquirable app_mode_acquirable, of m2 m1])
      next
        case False
        then have "0 < held env l s2 t0 m2 b2" using h2 by (simp add: held split: if_splits)
        then show ?thesis by (rule conflict_freeD [OF free ne old])
      qed
    qed
  qed
qed

definition locks_ok :: "'l applock_env \<Rightarrow> 'l applocks \<Rightarrow> bool" where
  "locks_ok env st \<longleftrightarrow> locks_agree env st \<and> conflict_free env (lock_state st)"

lemma locks_agreeD:
  "locks_agree env st \<Longrightarrow> s < length (sessions st) \<Longrightarrow> 0 \<le> k \<Longrightarrow> k \<le> INT64_MAX \<Longrightarrow>
     held env (lock_state st) s (ApplockSetLocktag (MyDatabaseId (me s st)) k) m b =
       lock_count (map_of (appLockCacheLocal (me s st)) k) m b"
  unfolding locks_agree_def by blast

lemma locks_ok_frame:
  assumes "locks_ok env st" and "s < length (sessions st)" and "sessions st' = (sessions st)[s := x]"
    and "MyDatabaseId x = MyDatabaseId (me s st)" and "appLockCacheLocal x = appLockCacheLocal (me s st)"
    and "held env (lock_state st') = held env (lock_state st)"
  shows "locks_ok env st'"
proof -
  have la: "locks_agree env st" and cf: "conflict_free env (lock_state st)"
    using assms(1) by (simp_all add: locks_ok_def)
  have "locks_agree env st'"
    by (rule locks_agree_update [OF la assms(2,3,4)]) (simp_all add: assms(2,4-6) locks_agreeD [OF la])
  moreover have "conflict_free env (lock_state st')"
    by (rule conflict_free_mono [OF cf]) (simp add: assms(6))
  ultimately show ?thesis by (simp add: locks_ok_def)
qed

lemma get_end_locks:
  assumes get: "get_end env c s q st = (code, st')" and s: "s < length (sessions st)"
    and ag: "caches_agree (char_signed env) n st" and w: "waiting (me s st) = Some q"
    and own: "one_owner st" and spec: "acquire_spec env" and lo: "locks_ok env st"
  shows "locks_ok env st'"
proof -
  note req = session_request [OF agree_session [OF ag s] w]
  obtain m where m: "getPGLockMode (req_mode q) = Some m" using req by (auto simp: request_ok_def acquirable_def)
  then have mode: "req_mode q = app_mode m" by (simp add: app_mode_pg)
  let ?tag = "ApplockSetLocktag (MyDatabaseId (me s st))" let ?c = "appLockCacheLocal (me s st)"
  obtain res l where acq: "acquire env s q st = (res, l)" by fastforce
  then have la: "LockAcquire env s (?tag (req_key q)) m (req_session q) (no_wait q) (lock_state st) = (res, l)"
    by (simp add: acquire_def m)
  note l = get_end_cases(1) [OF get s acq]
  obtain lt where res: "if res = LOCKACQUIRE_OK
       then code = 0 \<and> appLockCacheGlobal st' = appLockCacheGlobal st \<and>
         sessions st' = (sessions st)[s := (me s st)\<lparr>waiting := None, lock_timeout := lt,
            appLockCacheLocal := insert_local q ?c\<rparr>]
       else code < 0 \<and> appLockCacheGlobal st' = ApplockUnrefGlobalCache (req_key q) (appLockCacheGlobal st) \<and>
         sessions st' = (sessions st)[s := (me s st)\<lparr>waiting := None, lock_timeout := lt\<rparr>]"
    using get_end_cases(2) [OF get s acq] by blast
  show ?thesis
  proof (cases "res = LOCKACQUIRE_OK")
    case False
    then have "held env l = held env (lock_state st)" using spec la unfolding acquire_spec_def by fastforce
    then show ?thesis using res False l
      by (intro locks_ok_frame [OF lo s, of st' "(me s st)\<lparr>waiting := None, lock_timeout := lt\<rparr>"]) simp_all
  next
    case True
    let ?x = "(me s st)\<lparr>waiting := None, lock_timeout := lt, appLockCacheLocal := insert_local q ?c\<rparr>"
    have held: "held env l s' t' m' b' = held env (lock_state st) s' t' m' b' +
        (if (s', t', m', b') = (s, ?tag (req_key q), m, req_session q) then 1 else 0)" for s' t' m' b'
      using spec la True unfolding acquire_spec_def by fastforce
    have range: "0 \<le> req_key q" "req_key q \<le> INT64_MAX"
      using key_range [OF ag] req by (auto simp: request_ok_def)
    have look: "map_of (insert_local q ?c) = (map_of ?c)(req_key q \<mapsto>
        (case map_of ?c (req_key q) of
           Some e \<Rightarrow> e\<lparr>resource := req_resource q, refcount := uint32_add1 (refcount e), mode_head := req_mode q # mode_head e,
                       is_session := req_session q\<rparr>
         | None \<Rightarrow> \<lparr>resource = req_resource q, refcount = 1, mode_head = [req_mode q], is_session = req_session q\<rparr>))"
      using req by (intro insert_local_lookup) (simp add: request_ok_def)
    have owner: "is_session e = req_session q" if "map_of ?c (req_key q) = Some e" for e
      using own s w that unfolding one_owner_def by (auto dest!: nth_mem)
    have "locks_agree env st'"
    proof (rule locks_agree_update [OF conjunct1 [OF lo [unfolded locks_ok_def]] s])
      show "sessions st' = (sessions st)[s := ?x]" using res True by simp
      show "held env (lock_state st') s' t m b = held env (lock_state st) s' t m b" if "s' \<noteq> s" for s' t m b
        using that by (simp add: l held)
      show "held env (lock_state st') s (ApplockSetLocktag (MyDatabaseId ?x) k) m' b = lock_count (map_of (appLockCacheLocal ?x) k) m' b"
        if "0 \<le> k" "k \<le> INT64_MAX" for k m' b
        by (simp add: l held look lock_count_def owner mode app_mode_inject tag_neq [OF that range] locks_agreeD [OF conjunct1 [OF lo [unfolded locks_ok_def]] s that] split: option.split)
    qed simp
    moreover have "conflict_free env (lock_state st')"
      using conflict_free_acquire [OF spec] lo la True l by (auto simp: locks_ok_def)
    ultimately show ?thesis by (simp add: locks_ok_def)
  qed
qed

lemma release_held:
  assumes rel: "LockRelease env s (ApplockSetLocktag (MyDatabaseId (me s st)) key) m (is_session e) (lock_state st) = (ok, l)"
    and s: "s < length (sessions st)" and ag: "caches_agree (char_signed env) n st"
    and look: "map_of (appLockCacheLocal (me s st)) key = Some e" and head: "mode_head e = mode # ms"
    and m: "getPGLockMode mode = Some m" and spec: "release_spec env" and lo: "locks_ok env st"
  shows "ok" and "0 \<le> key" and "key \<le> INT64_MAX"
    and "held env l s' t' m' b' = held env (lock_state st) s' t' m' b' -
      (if (s', t', m', b') = (s, ApplockSetLocktag (MyDatabaseId (me s st)) key, m, is_session e) then 1 else 0)"
proof -
  have "names (appLockCacheGlobal st) key = Some (resource e)"
    using session_local [OF agree_session [OF ag s] look] by (simp add: local_ok_def)
  then show range: "0 \<le> key" "key \<le> INT64_MAX" using key_range [OF ag] by blast+
  have rs: "ok = (0 < held env (lock_state st) s (ApplockSetLocktag (MyDatabaseId (me s st)) key) m (is_session e)) \<and>
      (\<forall>s' t' m' b'. held env l s' t' m' b' = held env (lock_state st) s' t' m' b' -
        (if (s', t', m', b') = (s, ApplockSetLocktag (MyDatabaseId (me s st)) key, m, is_session e) then 1 else 0))"
    using spec rel unfolding release_spec_def by blast
  then show "held env l s' t' m' b' = held env (lock_state st) s' t' m' b' -
      (if (s', t', m', b') = (s, ApplockSetLocktag (MyDatabaseId (me s st)) key, m, is_session e) then 1 else 0)"
    by blast
  have "held env (lock_state st) s (ApplockSetLocktag (MyDatabaseId (me s st)) key) m (is_session e) = lock_count (Some e) m (is_session e)"
    using locks_agreeD [OF conjunct1 [OF lo [unfolded locks_ok_def]] s range] look by simp
  then show ok using rs m head by (simp add: lock_count_def app_mode_pg)
qed

lemma release_locks:
  assumes rel: "sp_releaseapplock_internal env c s r owner st = (res, st')" and s: "s < length (sessions st)"
    and ag: "caches_agree (char_signed env) n st" and n: "n < 2 ^ 32 - 1"
    and spec: "release_spec env" and lo: "locks_ok env st"
  shows "locks_ok env st'"
  using release_cases [OF rel]
proof (elim disjE exE conjE)
  assume "st' = st"
  with lo show ?thesis by simp
next
  fix key e mode ms m ok l
  let ?c = "appLockCacheLocal (me s st)" let ?x = "(me s st)\<lparr>appLockCacheLocal := pop_local key e ?c\<rparr>"
  let ?tag = "ApplockSetLocktag (MyDatabaseId (me s st))"
  assume look: "map_of ?c key = Some e" and head: "mode_head e = mode # ms" and m: "getPGLockMode mode = Some m"
    and lr: "LockRelease env s (?tag key) m (is_session e) (lock_state st) = (ok, l)"
    and res: "if ok then res = Inr 0 \<and> appLockCacheGlobal st' = ApplockUnrefGlobalCache key (appLockCacheGlobal st) \<and>
          sessions st' = (sessions st)[s := ?x] \<and> lock_state st' = l
        else res = Inr (- 999) \<and> st' = st\<lparr>lock_state := l\<rparr>"
  note held = release_held [OF lr s ag look head m spec lo]
  have mode: "mode = app_mode m" using m by (simp add: app_mode_pg)
  have st': "sessions st' = (sessions st)[s := ?x]" "lock_state st' = l" using res held(1) by simp_all
  note e = local_refcount [OF ag s look]
  have pop: "map_of (pop_local key e ?c) = (map_of ?c)(key := if refcount e = 1 then None
      else Some (e\<lparr>mode_head := tl (mode_head e), refcount := refcount e - 1\<rparr>))"
    using e n by (intro pop_local_lookup) simp_all
  have la: "locks_agree env st" and cf: "conflict_free env (lock_state st)" using lo by (simp_all add: locks_ok_def)
  have one: "refcount e = 1 \<longleftrightarrow> ms = []" using e(3) head by auto
  have "locks_agree env st'"
  proof (rule locks_agree_update [OF la s st'(1)])
    show "held env (lock_state st') s' t m b = held env (lock_state st) s' t m b" if "s' \<noteq> s" for s' t m b
      using that by (simp add: st'(2) held(4))
    show "held env (lock_state st') s (ApplockSetLocktag (MyDatabaseId ?x) k) m' b = lock_count (map_of (appLockCacheLocal ?x) k) m' b"
      if "0 \<le> k" "k \<le> INT64_MAX" for k m' b
      using look head one
      by (simp add: st'(2) held(4) pop lock_count_def mode app_mode_inject tag_neq [OF that held(2,3)] locks_agreeD [OF la s that])
  qed simp
  moreover have "conflict_free env (lock_state st')"
    by (rule conflict_free_mono [OF cf]) (simp add: st'(2) held(4))
  ultimately show ?thesis by (simp add: locks_ok_def)
qed

lemma remove_locks:
  assumes s: "s < length (sessions st)" and ag: "caches_agree (char_signed env) n st"
    and spec: "release_spec env" and lo: "locks_ok env st" and st': "st' = ApplockRemoveCache env tsql all s st"
  shows "locks_ok env st'"
proof (cases tsql)
  case False
  with lo st' show ?thesis by (simp add: ApplockRemoveCache_def)
next
  case True
  let ?c = "appLockCacheLocal (me s st)"
  define kept where "kept = filter (\<lambda>(k, e). \<not> (all \<or> \<not> is_session e)) ?c"
  let ?x = "(me s st)\<lparr>appLockCacheLocal := kept\<rparr>"
  have dist: "distinct (map fst ?c)" using agree_session [OF ag s] by (simp add: session_ok_def)
  have look: "map_of kept k = (case map_of ?c k of Some e \<Rightarrow> if \<not> (all \<or> \<not> is_session e) then Some e else None | None \<Rightarrow> None)" for k
    unfolding kept_def by (rule map_of_filter_distinct [OF dist])
  have st'_eq: "sessions st' = (sessions st)[s := ?x]" "lock_state st' = LockReleaseAll env s all (lock_state st)"
    using True st' by (simp_all add: ApplockRemoveCache_def Let_def kept_def)
  have held: "held env (lock_state st') s' t m b = (if s' = s \<and> (all \<or> \<not> b) then 0 else held env (lock_state st) s' t m b)" for s' t m b
    using spec unfolding release_spec_def st'_eq(2) by blast
  have la: "locks_agree env st" and cf: "conflict_free env (lock_state st)" using lo by (simp_all add: locks_ok_def)
  have "locks_agree env st'"
  proof (rule locks_agree_update [OF la s st'_eq(1)])
    show "held env (lock_state st') s' t m b = held env (lock_state st) s' t m b" if "s' \<noteq> s" for s' t m b
      using that by (simp add: held)
    show "held env (lock_state st') s (ApplockSetLocktag (MyDatabaseId ?x) k) m' b = lock_count (map_of (appLockCacheLocal ?x) k) m' b"
      if "0 \<le> k" "k \<le> INT64_MAX" for k m' b
      by (simp add: held look lock_count_def locks_agreeD [OF la s that] split: option.split)
  qed simp
  moreover have "conflict_free env (lock_state st')"
    by (rule conflict_free_mono [OF cf]) (simp add: held)
  ultimately show ?thesis by (simp add: locks_ok_def)
qed

lemma step_locks:
  assumes "applock_step env st ev st'" and ag: "caches_agree (char_signed env) n st" and n: "n < 2 ^ 32 - 1"
    and "one_owner st" and "acquire_spec env" and "release_spec env" and lo: "locks_ok env st"
  shows "locks_ok env st'"
  using assms(1)
proof cases
  case (get_begins s r fresh c lockmode lockowner timeout code)
  have wf: "gwf (char_signed env) (appLockCacheGlobal st)" using ag by (simp add: caches_agree_def)
  from get_begin_cases [OF get_begins(5,2) wf agree_small [OF ag n]] get_begins(4) have "st' = st \<or>
      (\<exists>q lt. lock_state st' = lock_state st \<and> sessions st' = (sessions st)[s := (me s st)\<lparr>lock_timeout := lt, waiting := Some q\<rparr>])"
    by auto
  then show ?thesis
  proof (elim disjE exE conjE)
    fix q lt
    assume "lock_state st' = lock_state st" "sessions st' = (sessions st)[s := (me s st)\<lparr>lock_timeout := lt, waiting := Some q\<rparr>]"
    then show ?thesis 
      by (intro locks_ok_frame [OF lo get_begins(2), of st' "(me s st)\<lparr>lock_timeout := lt, waiting := Some q\<rparr>"]) simp_all
  qed (simp add: lo)
next
  case (get_ends s q c code)
  show ?thesis by (rule get_end_locks [OF get_ends(4,2) ag get_ends(3) assms(4,5) lo])
next
  case (releases s c r lockowner res)
  show ?thesis by (rule release_locks [OF releases(4,2) ag n assms(6) lo])
next
  case (ends s tsql release_session)
  show ?thesis by (rule remove_locks [OF ends(3) ag assms(6) lo ends(2)])
qed

lemma reaches_locks:
  assumes "applock_reaches env one_owner st0 n st" and "initial st0" and "n < 2 ^ 32"
    and "acquire_spec env" and "release_spec env" and "\<forall>s t m b. held env (lock_state st0) s t m b = 0"
  shows "locks_ok env st"
  using assms(1,3)
proof induction
  case start
  show ?case using assms(2,6) by (simp add: locks_ok_def locks_agree_def conflict_free_def initial_def lock_count_def)
next
  case (more_steps n st ev st')
  have "caches_agree (char_signed env) n st" by (rule reaches_agree [OF more_steps(1) assms(2)]) (use more_steps(5) in simp)
  from step_locks [OF more_steps(3) this _ more_steps(2) assms(4,5)] more_steps(4,5) show ?case by simp
qed

section \<open>The table of locks\<close>

text \<open>
  What a session holds, by name: the owner and the modes. The specification of the locks is a
  table of this for all sessions.
\<close>

type_synonym lock_table = "nat \<Rightarrow> string \<Rightarrow> (bool \<times> Applock_All_Lockmode list) option"

definition lookup_name :: "bool \<Rightarrow> (int \<times> AppLockLocalEnt) list \<Rightarrow> string \<Rightarrow> AppLockLocalEnt option" where
  "lookup_name sx cache r =
     (let key = AppLockSearchKeyLocal sx cache r in if key < 0 then None else map_of cache key)"

definition table_of :: "bool \<Rightarrow> 'l applocks \<Rightarrow> lock_table" where
  "table_of sx st s r =
     (if s < length (sessions st)
      then map_option (\<lambda>e. (is_session e, mode_head e)) (lookup_name sx (appLockCacheLocal (me s st)) r)
      else None)"

inductive table_step :: "(nat \<Rightarrow> nat) \<Rightarrow> lock_table \<Rightarrow> applock_event \<Rightarrow> lock_table \<Rightarrow> bool"
  for database :: "nat \<Rightarrow> nat" where
  grant: "T s r = None \<and> ms = [] \<or> T s r = Some (b, ms) \<Longrightarrow>
    (\<And>s' b' ms' m'. s' \<noteq> s \<Longrightarrow> database s' = database s \<Longrightarrow> T s' r = Some (b', ms') \<Longrightarrow> m' \<in> set ms' \<Longrightarrow> compatible m m') \<Longrightarrow>
    table_step database T (Granted s r m b) (T(s := (T s)(r \<mapsto> (b, m # ms))))"
| release: "T s r = Some (b, m # ms) \<Longrightarrow>
    table_step database T (Released s r b) (T(s := (T s)(r := if ms = [] then None else Some (b, ms))))"
| refuse: "(\<And>ms. T s r \<noteq> Some (b, ms)) \<Longrightarrow> table_step database T (Not_released s r b) T"
| finish: "table_step database T (Ended s release_session)
    (T(s := (\<lambda>r. case T s r of Some (b, ms) \<Rightarrow> if release_session \<or> \<not> b then None else Some (b, ms) | None \<Rightarrow> None)))"
| idle: "table_step database T Idle T"

lemma local_unique:
  assumes "caches_agree sx n st" and "s < length (sessions st)"
  shows "unique_names sx (appLockCacheLocal (me s st))"
proof -
  have sub: "names (appLockCacheGlobal st) k = Some r" if "names (appLockCacheLocal (me s st)) k = Some r" for k r
    using that session_local [OF agree_session [OF assms]] by (auto simp: names_def local_ok_def)
  have uniq: "unique_names sx (appLockCacheGlobal st)" using assms(1) by (simp add: caches_agree_def gwf_def)
  then have "k \<in> set (candidates sx r)" if "names (appLockCacheLocal (me s st)) k = Some r" for k r
    using sub [OF that] unfolding unique_names_def by blast
  moreover have "k = k'" if "names (appLockCacheLocal (me s st)) k = Some r" "names (appLockCacheLocal (me s st)) k' = Some r" for k k' r
    using uniq sub [OF that(1)] sub [OF that(2)] unfolding unique_names_def by blast
  ultimately show ?thesis unfolding unique_names_def by blast
qed

lemma lookup_name_iff:
  assumes "unique_names sx cache"
  shows "lookup_name sx cache r = Some e \<longleftrightarrow> (\<exists>k. map_of cache k = Some e \<and> resource e = r)"
proof (cases "\<exists>k. names cache k = Some r")
  case True
  then obtain k where k: "names cache k = Some r" by blast
  then obtain e0 where e0: "map_of cache k = Some e0" "resource e0 = r" by (auto simp: names_def)
  have key: "AppLockSearchKeyLocal sx cache r = k" by (rule local_search.found [OF assms k])
  have "\<not> k < 0" using local_search.named_key_pos [OF assms k] by simp
  then have "lookup_name sx cache r = Some e0" using key e0 by (simp add: lookup_name_def)
  moreover have "k' = k" if "map_of cache k' = Some e" "resource e = r" for k' e
    using assms k that unfolding unique_names_def names_def by (metis option.simps(9))
  ultimately show ?thesis using e0 by auto
next
  case False
  then have "AppLockSearchKeyLocal sx cache r < 0"
    using local_search.negative_iff [OF assms] by blast
  then have "lookup_name sx cache r = None" by (simp add: lookup_name_def)
  moreover have "\<nexists>k. map_of cache k = Some e \<and> resource e = r" using False by (auto simp: names_def)
  ultimately show ?thesis by simp
qed

lemma option_eqI: "(\<And>e. x = Some e \<longleftrightarrow> y = Some e) \<Longrightarrow> x = y"
  by (cases x; cases y) auto

lemma lookup_name_update:
  assumes c: "unique_names sx c" and c': "unique_names sx c'" and upd: "map_of c' = (map_of c)(key := X)"
    and old: "\<And>e. map_of c key = Some e \<Longrightarrow> resource e = r" and new: "\<And>e. X = Some e \<Longrightarrow> resource e = r"
    and only: "\<And>k e. map_of c k = Some e \<Longrightarrow> resource e = r \<Longrightarrow> k = key"
  shows "lookup_name sx c' r' = (if r' = r then X else lookup_name sx c r')"
proof -
  have "lookup_name sx c' r' = Some e \<longleftrightarrow> (if r' = r then X else lookup_name sx c r') = Some e" for e
  proof (cases "r' = r")
    case True
    then show ?thesis using new only by (auto simp: lookup_name_iff [OF c'] upd simp del: map_of_eq_Some_iff split: if_splits)
  next
    case False
    have "map_of c' k = Some e \<longleftrightarrow> map_of c k = Some e" if "resource e = r'" for k
      using that False old new by (auto simp: upd simp del: map_of_eq_Some_iff)
    then show ?thesis using False by (auto simp: lookup_name_iff [OF c'] lookup_name_iff [OF c] simp del: map_of_eq_Some_iff)
  qed
  then show ?thesis by (rule option_eqI)
qed

lemma table_entry:
  assumes "caches_agree sx n st" and "table_of sx st s r = Some (b, ms)"
  shows "\<exists>k e. s < length (sessions st) \<and> map_of (appLockCacheLocal (me s st)) k = Some e \<and> is_session e = b \<and> mode_head e = ms \<and>
    names (appLockCacheGlobal st) k = Some r"
proof -
  have s: "s < length (sessions st)" using assms(2) by (simp add: table_of_def split: if_splits)
  then obtain e where e: "lookup_name sx (appLockCacheLocal (me s st)) r = Some e" "is_session e = b" "mode_head e = ms"
    using assms(2) by (auto simp: table_of_def)
  then obtain k where k: "map_of (appLockCacheLocal (me s st)) k = Some e" "resource e = r"
    using lookup_name_iff [OF local_unique [OF assms(1) s]] by blast
  with session_local [OF agree_session [OF assms(1) s] k(1)] e s show ?thesis by (auto simp: local_ok_def)
qed

lemma table_lookup:
  assumes "caches_agree sx n st" and "s < length (sessions st)" and "names (appLockCacheGlobal st) k = Some r"
  shows "table_of sx st s r = map_option (\<lambda>e. (is_session e, mode_head e)) (map_of (appLockCacheLocal (me s st)) k)"
proof -
  let ?c = "appLockCacheLocal (me s st)"
  have uniq: "unique_names sx (appLockCacheGlobal st)" using assms(1) by (simp add: caches_agree_def gwf_def)
  note loc = session_local [OF agree_session [OF assms(1,2)]]
  have "lookup_name sx ?c r = Some e \<longleftrightarrow> map_of ?c k = Some e" for e
  proof
    assume "lookup_name sx ?c r = Some e"
    then obtain k' where k': "map_of ?c k' = Some e" "resource e = r"
      using lookup_name_iff [OF local_unique [OF assms(1,2)]] by blast
    then have "names (appLockCacheGlobal st) k' = Some r" using loc by (simp add: local_ok_def)
    then have "k' = k" using uniq assms(3) unfolding unique_names_def by blast
    then show "map_of ?c k = Some e" using k' by simp
  next
    assume e: "map_of ?c k = Some e"
    then have "resource e = r" using loc [OF e] assms(3) by (simp add: local_ok_def)
    with e show "lookup_name sx ?c r = Some e"
      using lookup_name_iff [OF local_unique [OF assms(1,2)]] by blast
  qed
  then have "lookup_name sx ?c r = map_of ?c k" by (rule option_eqI)
  with assms(2) show ?thesis by (simp add: table_of_def)
qed

lemma applock_exclusion:
  assumes ag: "caches_agree (char_signed env) n st" and lo: "locks_ok env st"
    and 1: "table_of (char_signed env) st s r = Some (b, ms)" and 2: "table_of (char_signed env) st s' r = Some (b', ms')"
    and ne: "s \<noteq> s'" and db: "MyDatabaseId (me s st) = MyDatabaseId (me s' st)" and m: "m \<in> set ms" "m' \<in> set ms'"
  shows "compatible m m'"
proof -
  obtain k e where e: "s < length (sessions st)" "map_of (appLockCacheLocal (me s st)) k = Some e" "is_session e = b" "mode_head e = ms"
    "names (appLockCacheGlobal st) k = Some r" using table_entry [OF ag 1] by blast
  obtain k' e' where e': "s' < length (sessions st)" "map_of (appLockCacheLocal (me s' st)) k' = Some e'" "is_session e' = b'" "mode_head e' = ms'"
    "names (appLockCacheGlobal st) k' = Some r" using table_entry [OF ag 2] by blast
  have k: "k' = k" using ag e(5) e'(5) unfolding caches_agree_def gwf_def unique_names_def by blast
  have range: "0 \<le> k" "k \<le> INT64_MAX" using key_range [OF ag e(5)] by simp_all
  have "acquirable m" "acquirable m'"
    using session_local [OF agree_session [OF ag e(1)] e(2)] session_local [OF agree_session [OF ag e'(1)] e'(2)] e(4) e'(4) m
    by (simp_all add: local_ok_def)
  then obtain p p' where p: "m = app_mode p" "m' = app_mode p'" using acquirable_app_mode by blast
  have la: "locks_agree env st" and cf: "conflict_free env (lock_state st)" using lo by (simp_all add: locks_ok_def)
  have pos: "0 < count_list xs x" if "x \<in> set xs" for xs and x :: Applock_All_Lockmode
    using that count_list_0_iff [of xs x] by (metis gr0I)
  have "0 < held env (lock_state st) s (ApplockSetLocktag (MyDatabaseId (me s st)) k) p b"
    using e m(1) p(1) by (simp add: locks_agreeD [OF la e(1) range] lock_count_def pos)
  moreover have "0 < held env (lock_state st) s' (ApplockSetLocktag (MyDatabaseId (me s st)) k) p' b'"
    using e' m(2) p(2) k unfolding db by (simp add: locks_agreeD [OF la e'(1) range] lock_count_def pos)
  ultimately show ?thesis unfolding p by (rule conflict_freeD [OF cf ne])
qed

text \<open>Each step of the sessions is a step of the table.\<close>

lemma name_unique:
  "caches_agree sx n st \<Longrightarrow> names (appLockCacheGlobal st) k = Some r \<Longrightarrow> names (appLockCacheGlobal st) k' = Some r \<Longrightarrow> k = k'"
  unfolding caches_agree_def gwf_def unique_names_def by blast

lemma table_update:
  assumes "sessions st' = (sessions st)[s := x]" and "s < length (sessions st)"
  shows "table_of sx st' = (table_of sx st)(s := (\<lambda>r. map_option (\<lambda>e. (is_session e, mode_head e)) (lookup_name sx (appLockCacheLocal x) r)))"
  using assms by (auto simp: table_of_def fun_eq_iff)

lemma table_same:
  assumes "sessions st' = (sessions st)[s := x]" and "appLockCacheLocal x = appLockCacheLocal (me s st)"
  shows "table_of sx st' = table_of sx st"
proof (cases "s < length (sessions st)")
  case True
  with assms show ?thesis by (simp add: table_update [OF assms(1) True] fun_eq_iff table_of_def)
next
  case False
  with assms show ?thesis by (simp add: table_of_def fun_eq_iff)
qed

lemma get_end_grant_table:
  assumes ag: "caches_agree sx n st" and s: "s < length (sessions st)" and w: "waiting (me s st) = Some q" and own: "one_owner st"
    and g: "appLockCacheGlobal st' = appLockCacheGlobal st"
    and st': "sessions st' = (sessions st)[s := (me s st)\<lparr>waiting := None, lock_timeout := lt,
      appLockCacheLocal := insert_local q (appLockCacheLocal (me s st))\<rparr>]"
    and ag': "caches_agree sx n' st'"
  shows "\<exists>ms. (table_of sx st s (req_resource q) = None \<and> ms = [] \<or>
      table_of sx st s (req_resource q) = Some (req_session q, ms)) \<and>
    table_of sx st' = (table_of sx st)(s := (table_of sx st s)(req_resource q \<mapsto> (req_session q, req_mode q # ms)))"
proof -
  let ?c = "appLockCacheLocal (me s st)" let ?r = "req_resource q"
  note req = session_request [OF agree_session [OF ag s] w]
  have nm: "names (appLockCacheGlobal st) (req_key q) = Some ?r" using req by (simp add: request_ok_def)
  define ms where "ms = (case map_of ?c (req_key q) of Some e \<Rightarrow> mode_head e | None \<Rightarrow> [])"
  have look: "map_of (insert_local q ?c) = (map_of ?c)(req_key q \<mapsto>
      (case map_of ?c (req_key q) of
         Some e \<Rightarrow> e\<lparr>resource := req_resource q, refcount := uint32_add1 (refcount e), mode_head := req_mode q # mode_head e,
                     is_session := req_session q\<rparr>
       | None \<Rightarrow> \<lparr>resource = req_resource q, refcount = 1, mode_head = [req_mode q], is_session = req_session q\<rparr>))"
    using req by (intro insert_local_lookup) (simp add: request_ok_def)
  have owner: "is_session e = req_session q" if "map_of ?c (req_key q) = Some e" for e
    using own s w that unfolding one_owner_def by (auto dest!: nth_mem)
  note loc = session_local [OF agree_session [OF ag s]]
  have u': "unique_names sx (insert_local q ?c)" using local_unique [OF ag', of s] s st' by simp
  have lookup: "lookup_name sx (insert_local q ?c) r' = (if r' = ?r then map_of (insert_local q ?c) (req_key q) else lookup_name sx ?c r')" for r'
  proof (rule lookup_name_update [OF local_unique [OF ag s] u'])
    show "map_of (insert_local q ?c) = (map_of ?c)(req_key q := map_of (insert_local q ?c) (req_key q))" by (simp add: look)
    show "resource e = ?r" if "map_of ?c (req_key q) = Some e" for e using loc [OF that] nm by (simp add: local_ok_def)
    show "resource e = ?r" if "map_of (insert_local q ?c) (req_key q) = Some e" for e
      using that by (auto simp: look split: option.splits)
    show "k = req_key q" if "map_of ?c k = Some e" "resource e = ?r" for k e
      using name_unique [OF ag _ nm] loc [OF that(1)] that(2) by (simp add: local_ok_def)
  qed
  have "table_of sx st s ?r = None \<and> ms = [] \<or> table_of sx st s ?r = Some (req_session q, ms)"
    unfolding table_lookup [OF ag s nm] ms_def using owner by (cases "map_of ?c (req_key q)") auto
  moreover have "map_option (\<lambda>e. (is_session e, mode_head e)) (map_of (insert_local q ?c) (req_key q)) = Some (req_session q, req_mode q # ms)"
    by (simp add: look ms_def split: option.split)
  then have "table_of sx st' = (table_of sx st)(s := (table_of sx st s)(?r \<mapsto> (req_session q, req_mode q # ms)))"
    using s by (auto simp: table_update [OF st' s] lookup fun_eq_iff table_of_def)
  ultimately show ?thesis by blast
qed

lemma get_end_table:
  assumes get: "get_end env c s q st = (code, st')" and s: "s < length (sessions st)"
    and ag: "caches_agree (char_signed env) n st" and n: "n < 2 ^ 32 - 1" and w: "waiting (me s st) = Some q"
    and own: "one_owner st" and lo: "locks_ok env st'"
  shows "table_step (\<lambda>s. MyDatabaseId (me s st)) (table_of (char_signed env) st)
    (if code = 0 then Granted s (req_resource q) (req_mode q) (req_session q) else Idle) (table_of (char_signed env) st')"
proof -
  let ?T = "table_of (char_signed env) st" let ?T' = "table_of (char_signed env) st'"
  note ag' = get_end_agree [OF get s ag n w]
  note req = session_request [OF agree_session [OF ag s] w]
  obtain res l where acq: "acquire env s q st = (res, l)" by fastforce
  let ?c = "appLockCacheLocal (me s st)"
  obtain lt where res: "if res = LOCKACQUIRE_OK
       then code = 0 \<and> appLockCacheGlobal st' = appLockCacheGlobal st \<and>
         sessions st' = (sessions st)[s := (me s st)\<lparr>waiting := None, lock_timeout := lt,
            appLockCacheLocal := insert_local q ?c\<rparr>]
       else code < 0 \<and> appLockCacheGlobal st' = ApplockUnrefGlobalCache (req_key q) (appLockCacheGlobal st) \<and>
         sessions st' = (sessions st)[s := (me s st)\<lparr>waiting := None, lock_timeout := lt\<rparr>]"
    using get_end_cases(2) [OF get s acq] by blast
  show ?thesis
  proof (cases "res = LOCKACQUIRE_OK")
    case False
    with res have "code \<noteq> 0" "?T' = ?T" by (auto intro: table_same)
    then show ?thesis by (simp add: table_step.idle)
  next
    case True
    let ?r = "req_resource q" let ?m = "req_mode q" let ?b = "req_session q"
    let ?x = "(me s st)\<lparr>waiting := None, lock_timeout := lt, appLockCacheLocal := insert_local q ?c\<rparr>"
    have st': "code = 0" "appLockCacheGlobal st' = appLockCacheGlobal st" "sessions st' = (sessions st)[s := ?x]"
      using res True by simp_all
    have nm: "names (appLockCacheGlobal st) (req_key q) = Some ?r" using req by (simp add: request_ok_def)
    obtain ms where T: "?T s ?r = None \<and> ms = [] \<or> ?T s ?r = Some (?b, ms)" and T': "?T' = ?T(s := (?T s)(?r \<mapsto> (?b, ?m # ms)))"
      using get_end_grant_table [OF ag s w own st'(2,3) ag'] by blast
    have "compatible ?m m'"
      if "s' \<noteq> s" "MyDatabaseId (me s' st) = MyDatabaseId (me s st)" "?T s' ?r = Some (b', ms')" "m' \<in> set ms'" for s' b' ms' m'
    proof (rule applock_exclusion [OF ag' lo])
      show "?T' s ?r = Some (?b, ?m # ms)" "?T' s' ?r = Some (b', ms')" using T' that(1,3) by simp_all
      show "MyDatabaseId (me s st') = MyDatabaseId (me s' st')" using that(1,2) s st'(3) by simp
    qed (use that in simp_all)
    from table_step.grant [where T = ?T and database = "\<lambda>s. MyDatabaseId (me s st)", OF T this] T' st'(1) show ?thesis by simp
  qed
qed

lemma search_key_named:
  assumes "caches_agree sx n st" and "names (appLockCacheGlobal st) k = Some r"
  shows "AppLockSearchKeyGlobal sx (appLockCacheGlobal st) r = k"
proof -
  have "unique_names sx (appLockCacheGlobal st)" using assms(1) by (simp add: caches_agree_def gwf_def)
  from global_search.found [OF this assms(2)] show ?thesis .
qed

lemma release_owned:
  assumes rel: "sp_releaseapplock_internal env c s r lockowner st = (res, st')" and s: "s < length (sessions st)"
    and ag: "caches_agree (char_signed env) n st" and spec: "release_spec env" and lo: "locks_ok env st"
    and c: "ApplockCheckLockowner env lockowner = Some (is_session e)" "\<not> IsInParallelMode c"
    and e: "map_of (appLockCacheLocal (me s st)) k = Some e" and nm: "names (appLockCacheGlobal st) k = Some r"
  shows "res = Inr 0 \<and> sessions st' =
    (sessions st)[s := (me s st)\<lparr>appLockCacheLocal := pop_local k e (appLockCacheLocal (me s st))\<rparr>]"
proof -
  note key = search_key_named [OF ag nm]
  have "k \<noteq> - 1" using key_range [OF ag nm] by simp
  have ok: "local_ok (names (appLockCacheGlobal st)) k e" by (rule session_local [OF agree_session [OF ag s] e])
  then obtain mode ms where head: "mode_head e = mode # ms" by (auto simp: local_ok_def neq_Nil_conv)
  then obtain m where m: "getPGLockMode mode = Some m" using ok by (auto simp: local_ok_def acquirable_def)
  obtain rok l where lr: "LockRelease env s (ApplockSetLocktag (MyDatabaseId (me s st)) k) m (is_session e) (lock_state st) = (rok, l)"
    by fastforce
  then have rok by (rule release_held(1) [OF _ s ag e head m spec lo])
  with rel c key \<open>k \<noteq> - 1\<close> e head m lr show ?thesis by (auto simp: sp_releaseapplock_internal_def)
qed

lemma release_owned_table:
  assumes s: "s < length (sessions st)" and ag: "caches_agree sx n st" and n: "n < 2 ^ 32 - 1" and ag': "caches_agree sx n' st'"
    and e: "map_of (appLockCacheLocal (me s st)) k = Some e" and nm: "names (appLockCacheGlobal st) k = Some r"
    and head: "mode_head e = mode # ms"
    and st': "sessions st' = (sessions st)[s := (me s st)\<lparr>appLockCacheLocal := pop_local k e (appLockCacheLocal (me s st))\<rparr>]"
  shows "table_of sx st' = (table_of sx st)(s := (table_of sx st s)(r := if ms = [] then None else Some (is_session e, ms)))"
proof -
  let ?c = "appLockCacheLocal (me s st)"
  note loc = session_local [OF agree_session [OF ag s]]
  have res: "resource e = r" using loc [OF e] nm by (simp add: local_ok_def)
  note ref = local_refcount [OF ag s e]
  have one: "refcount e = 1 \<longleftrightarrow> ms = []" using ref(3) head by auto
  have pop: "map_of (pop_local k e ?c) = (map_of ?c)(k := if ms = [] then None
      else Some (e\<lparr>mode_head := ms, refcount := refcount e - 1\<rparr>))"
    using pop_local_lookup [of e k ?c] ref n head one by simp
  have u': "unique_names sx (pop_local k e ?c)" using local_unique [OF ag', of s] s st' by simp
  have lookup: "lookup_name sx (pop_local k e ?c) r' = (if r' = r then map_of (pop_local k e ?c) k else lookup_name sx ?c r')" for r'
  proof (rule lookup_name_update [OF local_unique [OF ag s] u'])
    show "map_of (pop_local k e ?c) = (map_of ?c)(k := map_of (pop_local k e ?c) k)" by (simp add: pop)
    show "resource e' = r" if "map_of ?c k = Some e'" for e' using that e res by simp
    show "resource e' = r" if "map_of (pop_local k e ?c) k = Some e'" for e' using that res by (auto simp: pop split: if_splits)
    show "k' = k" if "map_of ?c k' = Some e'" "resource e' = r" for k' e'
      using name_unique [OF ag _ nm] loc [OF that(1)] that(2) by (simp add: local_ok_def)
  qed
  then show ?thesis
    using s by (auto simp: table_update [OF st' s] pop fun_eq_iff table_of_def)
qed

lemma release_table:
  assumes rel: "sp_releaseapplock_internal env c s r lockowner st = (res, st')" and s: "s < length (sessions st)"
    and ag: "caches_agree (char_signed env) n st" and n: "n < 2 ^ 32 - 1"
    and spec: "release_spec env" and lo: "locks_ok env st"
  shows "table_step database (table_of (char_signed env) st)
    (case ApplockCheckLockowner env lockowner of
        Some b \<Rightarrow> if IsInParallelMode c then Idle else if res = Inr 0 then Released s r b else Not_released s r b
      | None \<Rightarrow> Idle) (table_of (char_signed env) st')"
proof (cases "ApplockCheckLockowner env lockowner = None \<or> IsInParallelMode c")
  case True
  then have "st' = st" using rel by (auto simp: sp_releaseapplock_internal_def split: if_splits)
  with True show ?thesis by (auto intro: table_step.idle split: option.split)
next
  case False
  then obtain b where b: "ApplockCheckLockowner env lockowner = Some b" "\<not> IsInParallelMode c" by auto
  let ?sx = "char_signed env" let ?T = "table_of ?sx st" let ?c = "appLockCacheLocal (me s st)"
  show ?thesis
  proof (cases "\<exists>ms. ?T s r = Some (b, ms)")
    case True
    then obtain ms0 where T: "?T s r = Some (b, ms0)" by blast
    obtain k e where e: "map_of ?c k = Some e" "is_session e = b" "mode_head e = ms0" "names (appLockCacheGlobal st) k = Some r"
      using table_entry [OF ag T] by blast
    have "local_ok (names (appLockCacheGlobal st)) k e" by (rule session_local [OF agree_session [OF ag s] e(1)])
    then obtain mode ms where head: "mode_head e = mode # ms" by (auto simp: local_ok_def neq_Nil_conv)
    have owned: "res = Inr 0" "sessions st' = (sessions st)[s := (me s st)\<lparr>appLockCacheLocal := pop_local k e ?c\<rparr>]"
      using release_owned [OF rel s ag spec lo _ b(2) e(1,4)] b(1) e(2) by simp_all
    have "table_step database ?T (Released s r b) (?T(s := (?T s)(r := if ms = [] then None else Some (b, ms))))"
      by (rule table_step.release [of ?T s r b mode]) (use T e(3) head in simp)
    then show ?thesis
      using release_owned_table [OF s ag n release_agree [OF rel s ag n] e(1,4) head owned(2)] owned(1) b e(2)
      by (cases "ms = []") simp_all
  next
    case False
    have "res \<noteq> Inr 0 \<and> st' = st"
      using release_cases [OF rel]
    proof (elim disjE exE conjE)
      fix key e mode ms m ok l
      assume key: "key = AppLockSearchKeyGlobal ?sx (appLockCacheGlobal st) r" "key \<noteq> - 1"
        and e: "map_of ?c key = Some e" "ApplockCheckLockowner env lockowner = Some (is_session e)"
      have uniq: "unique_names ?sx (appLockCacheGlobal st)" using ag by (simp add: caches_agree_def gwf_def)
      have "names (appLockCacheGlobal st) key = Some r"
        using global_search.key_named [OF uniq] key by simp
      from table_lookup [OF ag s this] e b(1) False show ?thesis by simp
    qed simp
    with False b show ?thesis by (auto intro: table_step.refuse)
  qed
qed

lemma remove_table:
  assumes s: "s < length (sessions st)" and ag: "caches_agree sx n st" and ag': "caches_agree sx n st'"
    and st': "st' = ApplockRemoveCache env tsql release_session s st"
  shows "table_step database (table_of sx st) (if tsql then Ended s release_session else Idle) (table_of sx st')"
proof (cases tsql)
  case False
  with st' show ?thesis by (simp add: ApplockRemoveCache_def table_step.idle)
next
  case True
  let ?c = "appLockCacheLocal (me s st)"
  define kept where "kept = filter (\<lambda>(k, e). \<not> (release_session \<or> \<not> is_session e)) ?c"
  have dist: "distinct (map fst ?c)" using agree_session [OF ag s] by (simp add: session_ok_def)
  have look: "map_of kept k = (case map_of ?c k of Some e \<Rightarrow> if \<not> (release_session \<or> \<not> is_session e) then Some e else None | None \<Rightarrow> None)" for k
    unfolding kept_def by (rule map_of_filter_distinct [OF dist])
  have ses: "sessions st' = (sessions st)[s := (me s st)\<lparr>appLockCacheLocal := kept\<rparr>]"
    using True st' by (simp add: ApplockRemoveCache_def Let_def kept_def)
  have u': "unique_names sx kept" using local_unique [OF ag', of s] s ses by simp
  have iff: "lookup_name sx kept r = Some e \<longleftrightarrow> lookup_name sx ?c r = Some e \<and> \<not> (release_session \<or> \<not> is_session e)" for r e
    unfolding lookup_name_iff [OF u'] lookup_name_iff [OF local_unique [OF ag s]] look
    by (auto simp del: map_of_eq_Some_iff split: option.splits if_splits)
  have "lookup_name sx kept r = Some e \<longleftrightarrow> (case lookup_name sx ?c r of
      Some e \<Rightarrow> if release_session \<or> \<not> is_session e then None else Some e | None \<Rightarrow> None) = Some e" for r e
    unfolding iff by (auto split: option.split)
  then have kept: "lookup_name sx kept r = (case lookup_name sx ?c r of
      Some e \<Rightarrow> if release_session \<or> \<not> is_session e then None else Some e | None \<Rightarrow> None)" for r
    by (rule option_eqI)
  have "table_of sx st' = (table_of sx st)(s := (\<lambda>r. case table_of sx st s r of
      Some (b, ms) \<Rightarrow> if release_session \<or> \<not> b then None else Some (b, ms) | None \<Rightarrow> None))"
    unfolding table_update [OF ses s] by (rule ext) (auto simp: kept table_of_def s fun_eq_iff split: option.split)
  with True table_step.finish show ?thesis by simp
qed

section \<open>A lock manager\<close>

text \<open>A list of the locks that are held meets the requirements.\<close>

type_synonym held_locks = "(nat \<times> locktag \<times> pg_lockmode \<times> bool) list"

definition list_acquire :: "nat \<Rightarrow> locktag \<Rightarrow> pg_lockmode \<Rightarrow> bool \<Rightarrow> bool \<Rightarrow> held_locks \<Rightarrow> acquire_result \<times> held_locks" where
  "list_acquire s t m b nw l =
     (if (\<forall>(s', t', m', b') \<in> set l. s' \<noteq> s \<and> t' = t \<longrightarrow> compatible (app_mode m) (app_mode m'))
      then (LOCKACQUIRE_OK, (s, t, m, b) # l) else (LOCKACQUIRE_NOT_AVAIL, l))"

definition list_release :: "nat \<Rightarrow> locktag \<Rightarrow> pg_lockmode \<Rightarrow> bool \<Rightarrow> held_locks \<Rightarrow> bool \<times> held_locks" where
  "list_release s t m b l = ((s, t, m, b) \<in> set l, remove1 (s, t, m, b) l)"

definition list_release_all :: "nat \<Rightarrow> bool \<Rightarrow> held_locks \<Rightarrow> held_locks" where
  "list_release_all s all l = filter (\<lambda>(s', t', m', b'). \<not> (s' = s \<and> (all \<or> \<not> b'))) l"

definition list_manager :: "held_locks applock_env" where
  "list_manager = \<lparr>char_signed = True, pg_strcasecmp = (\<lambda>a b. if a = b then 0 else 1), text_to_cstring_buffer = (\<lambda>t n. take (n - 1) t),
     LockAcquire = list_acquire, LockRelease = list_release, LockReleaseAll = list_release_all,
     held = (\<lambda>l s t m b. count_list l (s, t, m, b))\<rparr>"

lemma count_list_pos: "0 < count_list l x \<longleftrightarrow> x \<in> set l"
  by (induction l) auto

lemma list_acquire_spec: "acquire_spec list_manager"
proof -
  have "compatible (app_mode m) (app_mode m')"
    if "\<forall>(s', t', m', b') \<in> set l. s' \<noteq> s \<and> t' = t \<longrightarrow> compatible (app_mode m) (app_mode m')" "s' \<noteq> s" "0 < count_list l (s', t, m', b')"
    for s t m l s' m' b'
  proof -
    have "(s', t, m', b') \<in> set l" using that(3) by (simp add: count_list_pos)
    with that(1,2) show ?thesis by fastforce
  qed
  then show ?thesis by (auto simp: acquire_spec_def list_manager_def list_acquire_def)
qed

lemma count_list_remove1: "count_list (remove1 x l) y = count_list l y - (if y = x then 1 else 0)"
  by (induction l) auto

lemma count_list_filter: "count_list (filter P l) y = (if P y then count_list l y else 0)"
  by (induction l) auto

lemma list_release_spec: "release_spec list_manager"
  unfolding release_spec_def
proof (intro conjI allI impI)
  fix s t m b l ok l' s' t' m' b'
  assume "LockRelease list_manager s t m b l = (ok, l')"
  then have rel: "ok = ((s, t, m, b) \<in> set l)" "l' = remove1 (s, t, m, b) l"
    by (simp_all add: list_manager_def list_release_def)
  show "ok = (0 < held list_manager l s t m b)" by (simp add: list_manager_def rel count_list_pos)
  show "held list_manager l' s' t' m' b' = held list_manager l s' t' m' b' - (if (s', t', m', b') = (s, t, m, b) then 1 else 0)"
    unfolding rel list_manager_def by (simp only: applock_env.simps count_list_remove1)
next
  fix s all l s' t' m' b'
  show "held list_manager (LockReleaseAll list_manager s all l) s' t' m' b' =
      (if s' = s \<and> (all \<or> \<not> b') then 0 else held list_manager l s' t' m' b')"
    by (simp add: list_manager_def list_release_all_def count_list_filter)
qed

text \<open>A whole request of a session as two steps, and sessions to try it with.\<close>

definition run_get ::
  "'l applock_env \<Rightarrow> ('l applocks \<Rightarrow> bool) \<Rightarrow> AppLockCacheEnt \<Rightarrow> applock_call \<Rightarrow> nat \<Rightarrow> string \<Rightarrow> string \<Rightarrow> string \<Rightarrow> int \<Rightarrow>
     'l applocks \<Rightarrow> 'l applocks option" where
  "run_get env ok fresh c s r lockmode lockowner timeout st =
     (if s < length (sessions st) \<and> waiting (me s st) = None \<and> length r < APPLOCK_MAX_RESOURCE_LENGTH \<and> ok st
      then case get_begin env fresh c s r lockmode lockowner timeout st of
             (None, st) \<Rightarrow>
               (case waiting (me s st) of
                  Some q \<Rightarrow> if s < length (sessions st) \<and> ok st then Some (snd (get_end env c s q st)) else None
                | None \<Rightarrow> None)
           | (Some code, st) \<Rightarrow> None
      else None)"

lemma run_get_reaches:
  assumes "run_get env ok fresh c s r lockmode lockowner timeout st = Some st2" and "applock_reaches env ok st0 n st"
  shows "applock_reaches env ok st0 (n + 2) st2"
proof -
  obtain st1 q where 1: "s < length (sessions st)" "waiting (me s st) = None" "length r < APPLOCK_MAX_RESOURCE_LENGTH" "ok st"
    "get_begin env fresh c s r lockmode lockowner timeout st = (None, st1)"
    "s < length (sessions st1)" "waiting (me s st1) = Some q" "ok st1" "st2 = snd (get_end env c s q st1)"
    using assms(1) by (auto simp: run_get_def split: if_splits prod.splits option.splits)
  have "applock_reaches env ok st0 (Suc n) st1"
    by (rule applock_reaches.more_steps [OF assms(2) 1(4) applock_step.get_begins [OF 1(1-3,5)]])
  from applock_reaches.more_steps [OF this 1(8) applock_step.get_ends [OF 1(6,7), where c = c and code = "fst (get_end env c s q st1)" and st' = st2]] 1(9)
  show ?thesis by simp
qed

definition example_session :: applock_session where
  "example_session = \<lparr>appLockCacheLocal = [], lock_timeout = 0, MyDatabaseId = 5, waiting = None\<rparr>"

definition example_start :: "held_locks applocks" where
  "example_start = \<lparr>appLockCacheGlobal = [], sessions = [example_session, example_session], lock_state = []\<rparr>"

definition example_call :: applock_call where
  "example_call = \<lparr>IsInParallelMode = False, IsTransactionBlockActive = True, elapsed = 0\<rparr>"

definition no_entry :: AppLockCacheEnt where
  "no_entry = \<lparr>resource = [], refcount = 0\<rparr>"

definition example_get :: "nat \<Rightarrow> string \<Rightarrow> held_locks applocks \<Rightarrow> held_locks applocks option" where
  "example_get s lockmode = run_get list_manager one_owner no_entry example_call s ''a'' lockmode ''Session'' 0"

definition example_shared :: "held_locks applocks" where
  "example_shared = the (Option.bind (example_get 0 ''Shared'' example_start) (example_get 1 ''Shared''))"

lemma example_initial: "initial example_start" "\<forall>s t m b. held list_manager (lock_state example_start) s t m b = 0"
  by (simp_all add: initial_def example_start_def example_session_def list_manager_def)

lemma example_reaches: "applock_reaches list_manager one_owner example_start 4 example_shared"
proof -
  have "example_get 0 ''Shared'' example_start \<noteq> None" by code_simp
  then obtain st1 where 1: "example_get 0 ''Shared'' example_start = Some st1" by blast
  have "Option.bind (example_get 0 ''Shared'' example_start) (example_get 1 ''Shared'') = Some example_shared"
    unfolding example_shared_def by code_simp
  then have 3: "example_get 1 ''Shared'' st1 = Some example_shared" unfolding 1 by simp
  have "applock_reaches list_manager one_owner example_start (0 + 2 + 2) example_shared"
    by (rule run_get_reaches [OF 3 [unfolded example_get_def [of 1]]
          run_get_reaches [OF 1 [unfolded example_get_def [of 0]] applock_reaches.start, folded example_get_def]])
  then show ?thesis by (simp add: numeral_eq_Suc)
qed







text \<open>The mode of a lock as its comment describes it.\<close>

definition documented_mode :: "Applock_All_Lockmode set \<Rightarrow> string" where
  "documented_mode M =
     (if APPLOCKMODE_EXCLUSIVE \<in> M then ''Exclusive''
      else if APPLOCKMODE_UPDATE \<in> M
      then if APPLOCKMODE_INTENTEXCLUSIVE \<in> M then ''UpdateIntentExclusive'' else ''Update''
      else if APPLOCKMODE_SHARED \<in> M then ''Shared''
      else if APPLOCKMODE_INTENTSHARED \<in> M
      then if APPLOCKMODE_INTENTEXCLUSIVE \<in> M then ''SharedIntentExclusive'' else ''IntentShared''
      else if APPLOCKMODE_INTENTEXCLUSIVE \<in> M then ''IntentExclusive''
      else ''NoLock'')"

lemma highest_mode_Max: "highest_mode ms = Max (insert APPLOCKMODE_NOLOCK (set ms))"
proof -
  have step: "(\<lambda>m high_mode. if high_mode < m then m else high_mode) = (max :: Applock_All_Lockmode \<Rightarrow> _)"
    by (auto simp: fun_eq_iff max_def)
  have "fold max ms APPLOCKMODE_NOLOCK = Max (set (APPLOCKMODE_NOLOCK # ms))" by (rule Max.set_eq_fold [symmetric])
  then show ?thesis unfolding highest_mode_def step by simp
qed

lemma highest_mode_eqI:
  "m \<in> insert APPLOCKMODE_NOLOCK (set ms) \<Longrightarrow> (\<And>m'. m' \<in> set ms \<Longrightarrow> m' \<le> m) \<Longrightarrow> highest_mode ms = m"
  unfolding highest_mode_Max by (rule Max_eqI) (auto simp: less_eq_Applock_All_Lockmode_def)

lemma returned_mode_documented:
  assumes "\<forall>m \<in> set ms. acquirable m"
  shows "AppLockModeStrings (returned_mode ms) = documented_mode (set ms)"
proof -
  have top: "highest_mode ms = (if APPLOCKMODE_EXCLUSIVE \<in> set ms then APPLOCKMODE_EXCLUSIVE
      else if APPLOCKMODE_UPDATE \<in> set ms then APPLOCKMODE_UPDATE
      else if APPLOCKMODE_SHARED \<in> set ms then APPLOCKMODE_SHARED
      else if APPLOCKMODE_INTENTSHARED \<in> set ms then APPLOCKMODE_INTENTSHARED
      else if APPLOCKMODE_INTENTEXCLUSIVE \<in> set ms then APPLOCKMODE_INTENTEXCLUSIVE else APPLOCKMODE_NOLOCK)" (is "_ = ?h")
  proof (rule highest_mode_eqI)
    show "?h \<in> insert APPLOCKMODE_NOLOCK (set ms)" by simp
    show "m \<le> ?h" if m: "m \<in> set ms" for m
    proof -
      obtain p where "m = app_mode p" using acquirable_app_mode m assms by blast
      with m show ?thesis by (cases p) (simp_all add: less_eq_Applock_All_Lockmode_def)
    qed
  qed
  show ?thesis by (simp add: returned_mode_def Let_def top documented_mode_def)
qed



text \<open>
  C20. A session that releases a name nobody holds or waits for is not told so with the code
  \<open>-999\<close>: the second release of \<open>TsqlApplockSyncLock\<close> on this path raises an error of the
  server.
\<close>

theorem release_unknown_fails:
  assumes "applock_reaches env ok st0 n st" and "initial st0" and "n < 2 ^ 32"
    and free: "\<forall>s < length (sessions st). table_of (char_signed env) st s r = None \<and>
      (case waiting (me s st) of Some q \<Rightarrow> req_resource q \<noteq> r | None \<Rightarrow> True)"
    and "\<not> IsInParallelMode c" and "ApplockCheckLockowner env lockowner \<noteq> None"
  shows "sp_releaseapplock_internal env c s r lockowner st = (ereport ERRCODE_INTERNAL_ERROR ''lock %s is not held'', st)"
proof -
  let ?g = "appLockCacheGlobal st"
  note ag = reaches_agree [OF assms(1-3)]
  have wf: "gwf (char_signed env) ?g" using ag by (simp add: caches_agree_def)
  have "names ?g k \<noteq> Some r" for k
  proof
    assume nm: "names ?g k = Some r"
    then have "gref k ?g \<noteq> 0" using names_gref [OF wf, of k] by simp
    then have sum: "sum_list (map (refs k) (sessions st)) \<noteq> 0" using ag unfolding caches_agree_def by metis
    have "\<exists>x \<in> set (sessions st). refs k x \<noteq> 0"
    proof (rule ccontr)
      assume "\<not> ?thesis"
      then have "sum_list (map (refs k) (sessions st)) = 0" unfolding sum_list_eq_0_iff by auto
      with sum show False ..
    qed
    then obtain s where s: "s < length (sessions st)" "refs k (me s st) \<noteq> 0"
      by (auto simp: in_set_conv_nth)
    have "map_of (appLockCacheLocal (me s st)) k = None" using table_lookup [OF ag s(1) nm] free s(1) by simp
    then obtain q where q: "waiting (me s st) = Some q" "req_key q = k"
      using s(2) by (auto simp: refs_def split: option.splits if_splits)
    then have "req_resource q = r" using session_request [OF agree_session [OF ag s(1)] q(1)] nm by (simp add: request_ok_def)
    then show False using free s(1) q(1) by auto
  qed
  then have "AppLockSearchKeyGlobal (char_signed env) ?g r = - 1"
    by (intro global_search.not_found) blast
  with assms(5,6) show ?thesis by (auto simp: sp_releaseapplock_internal_def)
qed

theorem release_unknown_fails_witness:
  "sp_releaseapplock_internal list_manager example_call 0 ''b'' ''Session'' example_shared =
     (ereport ERRCODE_INTERNAL_ERROR ''lock %s is not held'', example_shared)"
proof (rule release_unknown_fails [OF example_reaches example_initial(1)])
  show "\<forall>s < length (sessions example_shared). table_of (char_signed list_manager) example_shared s ''b'' = None \<and>
      (case waiting (me s example_shared) of Some q \<Rightarrow> req_resource q \<noteq> ''b'' | None \<Rightarrow> True)"
    by code_simp
qed (simp_all add: example_call_def ApplockCheckLockowner_def list_manager_def)

lemma get_granted:
  assumes get: "sp_getapplock_internal env fresh c s r lockmode lockowner timeout st = (0, st2)" and s: "s < length (sessions st)"
    and ag: "caches_agree (char_signed env) n st" and n: "n < 2 ^ 32 - 2"
    and r: "length r \<le> APPLOCK_MAX_RESOURCE_LENGTH" and w: "waiting (me s st) = None"
  shows "caches_agree (char_signed env) (Suc n) st2"
    and "\<exists>q m lt. req_resource q = r \<and> ApplockCheckLockowner env lockowner = Some (req_session q) \<and> req_mode q = app_mode m \<and>
      referenced (char_signed env) r (appLockCacheGlobal st) (req_key q) (appLockCacheGlobal st2) \<and>
      LockAcquire env s (ApplockSetLocktag (MyDatabaseId (me s st)) (req_key q)) m (req_session q) (no_wait q) (lock_state st) =
        (LOCKACQUIRE_OK, lock_state st2) \<and>
      sessions st2 = (sessions st)[s := (me s st)\<lparr>waiting := None, lock_timeout := lt,
        appLockCacheLocal := insert_local q (appLockCacheLocal (me s st))\<rparr>]"
proof -
  have n1: "n < 2 ^ 32 - 1" "Suc n < 2 ^ 32 - 1" using n by simp_all
  have wf: "gwf (char_signed env) (appLockCacheGlobal st)" using ag by (simp add: caches_agree_def)
  obtain code st1 where b: "get_begin env fresh c s r lockmode lockowner timeout st = (code, st1)" by fastforce
  have "code \<noteq> Some (- 999)" using get b by (auto simp: sp_getapplock_internal_def)
  with get_begin_cases [OF b s wf agree_small [OF ag n1(1)] r] obtain q lt where
    q: "code = None" "req_resource q = r" "acquirable (req_mode q)" "lock_state st1 = lock_state st"
      "ApplockCheckLockowner env lockowner = Some (req_session q)"
      "referenced (char_signed env) r (appLockCacheGlobal st) (req_key q) (appLockCacheGlobal st1)"
      "sessions st1 = (sessions st)[s := (me s st)\<lparr>lock_timeout := lt, waiting := Some q\<rparr>]" by auto
  have s1: "s < length (sessions st1)" "waiting (me s st1) = Some q" using s q(7) by simp_all
  have e: "get_end env c s q st1 = (0, st2)" using get b q(1) s1(2) by (simp add: sp_getapplock_internal_def)
  note ag1 = get_begin_agree [OF b s ag n1(1) r w]
  show "caches_agree (char_signed env) (Suc n) st2" by (rule get_end_agree [OF e s1(1) ag1 n1(2) s1(2)])
  obtain m where m: "getPGLockMode (req_mode q) = Some m" using q(3) by (auto simp: acquirable_def)
  obtain res l where acq: "acquire env s q st1 = (res, l)" by fastforce
  note l = get_end_cases(1) [OF e s1(1) acq]
  obtain lt2 where e2: "if res = LOCKACQUIRE_OK
       then (0::int) = 0 \<and> appLockCacheGlobal st2 = appLockCacheGlobal st1 \<and>
         sessions st2 = (sessions st1)[s := (me s st1)\<lparr>waiting := None, lock_timeout := lt2,
            appLockCacheLocal := insert_local q (appLockCacheLocal (me s st1))\<rparr>]
       else (0::int) < 0 \<and> appLockCacheGlobal st2 = ApplockUnrefGlobalCache (req_key q) (appLockCacheGlobal st1) \<and>
         sessions st2 = (sessions st1)[s := (me s st1)\<lparr>waiting := None, lock_timeout := lt2\<rparr>]"
    using get_end_cases(2) [OF e s1(1) acq] by blast
  then have ok: "res = LOCKACQUIRE_OK" by (cases "res = LOCKACQUIRE_OK") simp_all
  have "LockAcquire env s (ApplockSetLocktag (MyDatabaseId (me s st)) (req_key q)) m (req_session q) (no_wait q) (lock_state st) =
      (LOCKACQUIRE_OK, lock_state st2)" using acq m ok l q(4,7) s by (simp add: acquire_def)
  moreover have "sessions st2 = (sessions st)[s := (me s st)\<lparr>waiting := None, lock_timeout := lt2,
      appLockCacheLocal := insert_local q (appLockCacheLocal (me s st))\<rparr>]" using e2 ok q(7) s by simp
  moreover have "referenced (char_signed env) r (appLockCacheGlobal st) (req_key q) (appLockCacheGlobal st2)" using e2 ok q(6) by simp
  ultimately show "\<exists>q m lt. req_resource q = r \<and> ApplockCheckLockowner env lockowner = Some (req_session q) \<and> req_mode q = app_mode m \<and>
      referenced (char_signed env) r (appLockCacheGlobal st) (req_key q) (appLockCacheGlobal st2) \<and>
      LockAcquire env s (ApplockSetLocktag (MyDatabaseId (me s st)) (req_key q)) m (req_session q) (no_wait q) (lock_state st) =
        (LOCKACQUIRE_OK, lock_state st2) \<and>
      sessions st2 = (sessions st)[s := (me s st)\<lparr>waiting := None, lock_timeout := lt,
        appLockCacheLocal := insert_local q (appLockCacheLocal (me s st))\<rparr>]"
    using q(2,5) m by (auto simp: app_mode_pg)
qed

text \<open>Releasing a lock whose entry has the owner of the transaction, where the transaction holds no lock.\<close>

lemma release_not_held:
  assumes ag: "caches_agree (char_signed env) n st" and nm: "names (appLockCacheGlobal st) k = Some r"
    and s: "s < length (sessions st)" and e: "map_of (appLockCacheLocal (me s st)) k = Some e" "\<not> is_session e"
    and spec: "release_spec env"
    and none: "\<And>m. held env (lock_state st) s (ApplockSetLocktag (MyDatabaseId (me s st)) k) m False = 0"
  shows "fst (sp_releaseapplock_internal env c s r lockowner st) = Inr (- 999)"
proof -
  obtain res st' where rel: "sp_releaseapplock_internal env c s r lockowner st = (res, st')" by fastforce
  note key = search_key_named [OF ag nm]
  have "k \<noteq> - 1" using key_range [OF ag nm] by simp
  have "local_ok (names (appLockCacheGlobal st)) k e" by (rule session_local [OF agree_session [OF ag s] e(1)])
  then obtain mode ms m where head: "mode_head e = mode # ms" "getPGLockMode mode = Some m"
    by (auto simp: local_ok_def neq_Nil_conv acquirable_def)
  obtain ok l where lr: "LockRelease env s (ApplockSetLocktag (MyDatabaseId (me s st)) k) m False (lock_state st) = (ok, l)" by fastforce
  then have "\<not> ok" using spec none unfolding release_spec_def by (metis less_irrefl)
  with rel key \<open>k \<noteq> - 1\<close> e head lr show ?thesis
    by (auto simp: sp_releaseapplock_internal_def split: if_splits option.splits)
qed

lemma test_takes_owner:
  assumes ag: "caches_agree (char_signed env) n st" and n: "n < 2 ^ 32 - 2" and lo: "locks_ok env st"
    and spec: "acquire_spec env" "release_spec env" and s: "s < length (sessions st)" and w: "waiting (me s st) = None"
    and r: "length r \<le> APPLOCK_MAX_RESOURCE_LENGTH" and T: "table_of (char_signed env) st s r = Some (True, ms)"
    and owner: "ApplockCheckLockowner env lockowner = Some False"
    and get: "sp_getapplock_internal env fresh c s r lockmode lockowner timeout st = (0, st2)"
    and rel: "sp_releaseapplock_internal env c s r lockowner st2 = (Inr 0, st3)"
  shows "\<exists>k e. caches_agree (char_signed env) (Suc n) st3 \<and> s < length (sessions st3) \<and> names (appLockCacheGlobal st3) k = Some r \<and>
    map_of (appLockCacheLocal (me s st3)) k = Some e \<and> is_session e = False \<and> mode_head e = ms \<and>
    (\<forall>m. held env (lock_state st3) s (ApplockSetLocktag (MyDatabaseId (me s st3)) k) m False = 0)"
proof -
  have n2: "Suc n < 2 ^ 32 - 1" using n by simp
  note ag2 = get_granted(1) [OF get s ag n r w]
  obtain q m lt where q: "req_resource q = r" "req_session q = False" "req_mode q = app_mode m"
    and ref: "referenced (char_signed env) r (appLockCacheGlobal st) (req_key q) (appLockCacheGlobal st2)"
    and la: "LockAcquire env s (ApplockSetLocktag (MyDatabaseId (me s st)) (req_key q)) m False (no_wait q) (lock_state st) =
      (LOCKACQUIRE_OK, lock_state st2)"
    and st2: "sessions st2 = (sessions st)[s := (me s st)\<lparr>waiting := None, lock_timeout := lt,
        appLockCacheLocal := insert_local q (appLockCacheLocal (me s st))\<rparr>]"
    using get_granted(2) [OF get s ag n r w] owner by auto
  let ?c = "appLockCacheLocal (me s st)" let ?k = "req_key q" let ?tag = "ApplockSetLocktag (MyDatabaseId (me s st)) ?k"
  obtain k0 e0 where e0: "map_of ?c k0 = Some e0" "is_session e0" "mode_head e0 = ms" "names (appLockCacheGlobal st) k0 = Some r"
    using table_entry [OF ag T] by auto
  have nm2: "names (appLockCacheGlobal st2) ?k = Some r" "names (appLockCacheGlobal st2) k0 = Some r"
    using ref e0(4) by (simp_all add: referenced_def)
  have k0: "k0 = ?k" by (rule name_unique [OF ag2 nm2(2,1)])
  have s2: "s < length (sessions st2)" using s st2 by simp
  note cnt = local_refcount [OF ag s e0(1)]
  have add1: "uint32_add1 (refcount e0) = refcount e0 + 1" using cnt n by (intro uint32_add1_small) simp
  have look2: "map_of (appLockCacheLocal (me s st2)) = (map_of ?c)(?k \<mapsto> e0\<lparr>resource := r, refcount := refcount e0 + 1,
      mode_head := app_mode m # ms, is_session := False\<rparr>)" (is "_ = _(_ \<mapsto> ?e2)")
    using st2 s insert_local_lookup [of q ?c] q r e0 k0 add1 by simp
  then have e2: "map_of (appLockCacheLocal (me s st2)) ?k = Some ?e2" by simp
  obtain l ok where lr: "LockRelease env s ?tag m False (lock_state st2) = (ok, l)"
    and st3: "sessions st3 = (sessions st2)[s := (me s st2)\<lparr>appLockCacheLocal := pop_local ?k ?e2 (appLockCacheLocal (me s st2))\<rparr>]"
      "lock_state st3 = l"
    using release_cases [OF rel] search_key_named [OF ag2 nm2(1)] e2 st2 s by (auto simp: app_mode_pg app_mode_inject split: if_splits)
  have held: "held env l = held env (lock_state st)"
  proof (intro ext)
    fix s' t' m' b'
    have "held env (lock_state st2) s' t' m' b' = held env (lock_state st) s' t' m' b' + (if (s', t', m', b') = (s, ?tag, m, False) then 1 else 0)"
      using spec(1) la unfolding acquire_spec_def by fastforce
    moreover have "held env l s' t' m' b' = held env (lock_state st2) s' t' m' b' - (if (s', t', m', b') = (s, ?tag, m, False) then 1 else 0)"
      using spec(2) lr unfolding release_spec_def by fastforce
    ultimately show "held env l s' t' m' b' = held env (lock_state st) s' t' m' b'" by simp
  qed
  let ?e3 = "?e2\<lparr>mode_head := ms, refcount := refcount e0\<rparr>"
  have "map_of (pop_local ?k ?e2 (appLockCacheLocal (me s st2))) ?k = Some ?e3"
    using pop_local_lookup [of ?e2 ?k "appLockCacheLocal (me s st2)"] cnt n by simp
  then have e3: "map_of (appLockCacheLocal (me s st3)) ?k = Some ?e3" "MyDatabaseId (me s st3) = MyDatabaseId (me s st)"
    using st3(1) s2 s st2 by simp_all
  have s3: "s < length (sessions st3)" using s2 st3(1) by simp
  note ag3 = release_agree [OF rel s2 ag2 n2]
  have nm3: "names (appLockCacheGlobal st3) ?k = Some r"
    using session_local [OF agree_session [OF ag3 s3] e3(1)] by (simp add: local_ok_def)
  have "held env (lock_state st) s ?tag m' False = 0" for m'
    using locks_agreeD [OF conjunct1 [OF lo [unfolded locks_ok_def]] s, of ?k m' False] key_range [OF ag e0(4)] e0(1,2) k0
    by (simp add: lock_count_def)
  then show ?thesis
    using ag3 s3 nm3 e3 held st3(2) by (intro exI [of _ ?k] exI [of _ ?e3]) simp
qed

text \<open>
  C18. Testing a lock takes it away from its owner: if a session holds a name for itself, and
  \<open>APPLOCK_TEST\<close> with the owner \<open>Transaction\<close> finds that the lock is grantable, then the cache
  of the session has the name for the transaction from there on, and every attempt to release
  it fails, whatever owner is given, although the lock is held.
\<close>

theorem applock_test_takes_owner:
  assumes "applock_reaches env one_owner st0 n st" and "initial st0" and "n < 2 ^ 32 - 2"
    and "acquire_spec env" and "release_spec env" and "\<forall>s t m b. held env (lock_state st0) s t m b = 0"
    and "s < length (sessions st)" and "waiting (me s st) = None" and "length r < APPLOCK_MAX_RESOURCE_LENGTH"
    and "table_of (char_signed env) st s r = Some (True, ms)"
    and "ApplockCheckLockowner env lockowner = Some False" and test: "test_applock env fresh c s r lockmode lockowner st = (Inr 1, st')"
  shows "table_of (char_signed env) st' s r = Some (False, ms) \<and>
    (\<forall>c' lockowner'. fst (sp_releaseapplock_internal env c' s r lockowner' st') = Inr (- 999))"
proof -
  have n: "n < 2 ^ 32" using assms(3) by simp
  obtain st2 where steps: "sp_getapplock_internal env fresh c s r lockmode lockowner 0 st = (0, st2)"
    "sp_releaseapplock_internal env c s r lockowner st2 = (Inr 0, st')"
    using test by (auto simp: test_applock_def split: if_splits prod.splits sum.splits)
  obtain k e where e: "caches_agree (char_signed env) (Suc n) st'" "s < length (sessions st')" "names (appLockCacheGlobal st') k = Some r"
    "map_of (appLockCacheLocal (me s st')) k = Some e" "is_session e = False" "mode_head e = ms"
    "\<forall>m. held env (lock_state st') s (ApplockSetLocktag (MyDatabaseId (me s st')) k) m False = 0"
    using test_takes_owner [OF reaches_agree [OF assms(1,2) n] assms(3) reaches_locks [OF assms(1,2) n assms(4-6)] assms(4,5,7,8)
        less_imp_le [OF assms(9)] assms(10,11) steps] by blast
  have "table_of (char_signed env) st' s r = Some (False, ms)" using table_lookup [OF e(1-3)] e(4-6) by simp
  moreover have "fst (sp_releaseapplock_internal env c' s r lockowner' st') = Inr (- 999)" for c' lockowner'
    by (rule release_not_held [OF e(1,3,2,4) _ assms(5)]) (simp_all add: e(5,7))
  ultimately show ?thesis by blast
qed

theorem applock_test_takes_owner_witness:
  "\<exists>st'. test_applock list_manager no_entry example_call 0 ''a'' ''Shared'' ''Transaction'' example_shared = (Inr 1, st') \<and>
     fst (sp_releaseapplock_internal list_manager example_call 0 ''a'' ''Session'' st') = Inr (- 999) \<and>
     fst (sp_releaseapplock_internal list_manager example_call 0 ''a'' ''Transaction'' st') = Inr (- 999)"
proof -
  let ?test = "test_applock list_manager no_entry example_call 0 ''a'' ''Shared'' ''Transaction'' example_shared"
  have "fst ?test = Inr 1" by code_simp
  then have test: "?test = (Inr 1, snd ?test)" by (metis prod.collapse)
  have st: "0 < length (sessions example_shared)" "waiting (me 0 example_shared) = None"
    "table_of (char_signed list_manager) example_shared 0 ''a'' = Some (True, [APPLOCKMODE_SHARED])" by code_simp+
  have r: "length ''a'' < APPLOCK_MAX_RESOURCE_LENGTH" "ApplockCheckLockowner list_manager ''Transaction'' = Some False" by code_simp+
  from applock_test_takes_owner [OF example_reaches example_initial(1) _ list_acquire_spec list_release_spec example_initial(2)
      st(1,2) r(1) st(3) r(2) test]
  have "fst (sp_releaseapplock_internal list_manager c' 0 ''a'' lo (snd ?test)) = Inr (- 999)" for c' lo by simp
  with test show ?thesis by blast
qed

text \<open>A backquote at the end of a name does not change its hash.\<close>

lemma hash_loop_backquotes: "0 \<le> h \<Longrightarrow> h < INT64_MAX \<Longrightarrow> hash_loop sx h p (replicate i (CHR 0x60)) = h"
  by (induction i arbitrary: p) (simp_all add: c_char_def wrap_s_def INT64_MAX_def)

lemma hash_loop_append: "0 \<le> h \<Longrightarrow> h < INT64_MAX \<Longrightarrow> hash_loop sx h p (str @ replicate i (CHR 0x60)) = hash_loop sx h p str"
  by (induction str arbitrary: h p) (simp_all add: hash_loop_backquotes INT64_MAX_def)

lemma candidates_backquotes: "candidates sx (r @ replicate i (CHR 0x60)) = candidates sx r"
  unfolding candidates_def applock_simple_hash_def by (subst hash_loop_append) (simp_all add: INT64_MAX_def)

lemma length_keys_from: "length (keys_from n k) = n"
  by (induction n arbitrary: k) simp_all

lemma candidates_taken:
  assumes "unique_names sx g" and names: "\<forall>i < 5. \<exists>k. names g k = Some (r @ replicate i (CHR 0x60))" and k: "k \<in> set (candidates sx r)"
  shows "\<exists>i < 5. names g k = Some (r @ replicate i (CHR 0x60))"
proof -
  obtain f where f: "\<forall>i < 5. names g (f i) = Some (r @ replicate i (CHR 0x60))" using names by metis
  have "f i \<in> set (candidates sx r)" if "i < 5" for i
    using assms(1) f that candidates_backquotes unfolding unique_names_def by metis
  then have sub: "f ` {..<5} \<subseteq> set (candidates sx r)" by blast
  have "inj_on f {..<5}"
  proof (rule inj_onI)
    fix i j assume "i \<in> {..<5::nat}" "j \<in> {..<5}" "f i = f j"
    with f have "r @ replicate i (CHR 0x60) = r @ replicate j (CHR 0x60)" by (metis lessThan_iff option.inject)
    then show "i = j" by (metis length_replicate same_append_eq)
  qed
  then have "card (f ` {..<5}) = 5" by (simp add: card_image)
  moreover have "card (set (candidates sx r)) \<le> 5"
    using card_length [of "candidates sx r"] by (simp add: candidates_def length_keys_from APPLOCK_MAX_TRY_SEARCH_KEY_def)
  ultimately have "f ` {..<5} = set (candidates sx r)" using sub by (intro card_seteq) simp_all
  with k obtain i where "i < 5" "k = f i" by blast
  with f show ?thesis by blast
qed

text \<open>
  C21. Names that are not alike by chance collide: a backquote at the end of a name does not
  change its hash, so that while five names with no to four backquotes at the end are in use,
  the name with five of them cannot be locked, by any session and in any mode.
\<close>

theorem sixth_backquote_refused:
  assumes "applock_reaches env ok st0 n st" and "initial st0" and "n < 2 ^ 32 - 1" and "s < length (sessions st)"
    and used: "\<forall>i < 5. \<exists>k. names (appLockCacheGlobal st) k = Some (r @ replicate i (CHR 0x60))"
    and len: "length r + 5 < APPLOCK_MAX_RESOURCE_LENGTH"
  shows "sp_getapplock_internal env fresh c s (r @ replicate 5 (CHR 0x60)) lockmode lockowner timeout st = (- 999, st)"
proof -
  let ?r = "r @ replicate 5 (CHR 0x60)" let ?g = "appLockCacheGlobal st"
  have n: "n < 2 ^ 32" using assms(3) by simp
  note ag = reaches_agree [OF assms(1,2) n]
  have wf: "gwf (char_signed env) ?g" using ag by (simp add: caches_agree_def)
  then have uniq: "unique_names (char_signed env) ?g" by (simp add: gwf_def)
  obtain code st' where b: "get_begin env fresh c s ?r lockmode lockowner timeout st = (code, st')" by fastforce
  have "\<not> referenced (char_signed env) ?r ?g k g'" for k g'
  proof
    assume "referenced (char_signed env) ?r ?g k g'"
    then have "k \<in> set (candidates (char_signed env) r)" "names ?g k \<in> {None, Some ?r}"
      by (simp_all add: referenced_def candidates_backquotes)
    with candidates_taken [OF uniq used] obtain i where i: "i < 5" "names ?g k = Some (r @ replicate i (CHR 0x60))" by blast
    with \<open>names ?g k \<in> {None, Some ?r}\<close> have "replicate i (CHR 0x60) = replicate 5 (CHR 0x60)" by simp
    then have "i = 5" by (metis length_replicate)
    with i(1) show False by simp
  qed
  with get_begin_cases [OF b assms(4) wf agree_small [OF ag assms(3)]] len have "code = Some (- 999)" "st' = st" by auto
  with b show ?thesis by (simp add: sp_getapplock_internal_def)
qed

definition example_backquotes :: "held_locks applocks option" where
  "example_backquotes = fold (\<lambda>i so. Option.bind so (run_get list_manager one_owner no_entry example_call 0
     (''x'' @ replicate i (CHR 0x60)) ''Shared'' ''Session'' 0)) [0..<5] (Some example_start)"

lemma fold_run_get:
  "applock_reaches env ok st0 n st \<Longrightarrow>
   fold (\<lambda>i so. Option.bind so (run_get env ok fresh c s (nm i) lm lo t)) xs (Some st) = Some st' \<Longrightarrow>
   applock_reaches env ok st0 (n + 2 * length xs) st'"
proof (induction xs arbitrary: st n)
  case (Cons i xs)
  have none: "fold (\<lambda>i so. Option.bind so (run_get env ok fresh c s (nm i) lm lo t)) ys None = None" for ys
    by (induction ys) simp_all
  from Cons.prems(2) obtain st1 where 1: "run_get env ok fresh c s (nm i) lm lo t st = Some st1"
    by (cases "run_get env ok fresh c s (nm i) lm lo t st") (simp_all add: none)
  from Cons.IH [OF run_get_reaches [OF 1 Cons.prems(1)]] Cons.prems(2) 1 show ?case by simp
qed simp

theorem sixth_backquote_refused_witness:
  "sp_getapplock_internal list_manager no_entry example_call 0 (''x'' @ replicate 5 (CHR 0x60)) ''Shared'' ''Session'' 0
     (the example_backquotes) = (- 999, the example_backquotes)"
proof -
  have "example_backquotes \<noteq> None" by code_simp
  then have some: "example_backquotes = Some (the example_backquotes)" by simp
  have reach: "applock_reaches list_manager one_owner example_start (0 + 2 * length [0..<5::nat]) (the example_backquotes)"
    by (rule fold_run_get [OF applock_reaches.start trans [OF example_backquotes_def [symmetric] some]])
  have "\<forall>i \<in> {0..<5::nat}. names (appLockCacheGlobal (the example_backquotes)) (applock_simple_hash True ''x'' + int i) =
      Some (''x'' @ replicate i (CHR 0x60))" by code_simp
  then have used: "\<forall>i < 5. \<exists>k. names (appLockCacheGlobal (the example_backquotes)) k = Some (''x'' @ replicate i (CHR 0x60))"
    by (metis atLeastLessThan_iff zero_le)
  have ses: "0 < length (sessions (the example_backquotes))" by code_simp
  show ?thesis
    by (rule sixth_backquote_refused [OF reach example_initial(1) _ ses used]) (simp_all add: APPLOCK_MAX_RESOURCE_LENGTH_def)
qed

text \<open>
  If another session gives up the last reference to a name between the search for its key
  and the reference to it, then the lookup that is meant to find out enters the key again, and
  nothing removes it: the shared cache has an entry that no session refers to.
\<close>

lemma lost_race_leaves_entry:
  assumes "applock_reaches env ok st0 n st" and "initial st0" and "n < 2 ^ 32" and none: "names (appLockCacheGlobal st) key = None"
  shows "fst (reference_found fresh key (appLockCacheGlobal st)) = False \<and>
    map_of (snd (reference_found fresh key (appLockCacheGlobal st))) key = Some fresh \<and>
    (\<forall>s < length (sessions st). refs key (me s st) = 0) \<and>
    (\<forall>n'. \<not> caches_agree (char_signed env) n' (st\<lparr>appLockCacheGlobal := snd (reference_found fresh key (appLockCacheGlobal st))\<rparr>))"
proof -
  let ?g = "appLockCacheGlobal st" let ?st = "st\<lparr>appLockCacheGlobal := snd (reference_found fresh key ?g)\<rparr>"
  note ag = reaches_agree [OF assms(1-3)]
  have wf: "gwf (char_signed env) ?g" using ag by (simp add: caches_agree_def)
  have gone: "map_of ?g key = None" using none by (simp add: names_def)
  then have ref: "reference_found fresh key ?g = (False, AList.update key fresh ?g)" by (simp add: reference_found_def)
  have entry: "map_of (AList.update key fresh ?g) key = Some fresh" by (simp add: map_of_update)
  have zero: "gref key ?g = 0" using names_gref [OF wf] none by blast
  have refs: "refs key (me s st) = 0" if "s < length (sessions st)" for s
    using agree_refs [OF ag that, of key] zero by simp
  have "\<not> caches_agree (char_signed env) n' ?st" for n'
  proof
    assume ag': "caches_agree (char_signed env) n' ?st"
    then have "gwf (char_signed env) (AList.update key fresh ?g)" by (simp add: caches_agree_def ref)
    then have "0 < refcount fresh" using entry unfolding gwf_def by blast
    then have "0 < gref key (appLockCacheGlobal ?st)" using entry by (simp add: gref_def ref)
    moreover have "gref key (appLockCacheGlobal ?st) = sum_list (map (refs key) (sessions st))"
      using ag' unfolding caches_agree_def by simp
    moreover have "gref key ?g = sum_list (map (refs key) (sessions st))" using ag unfolding caches_agree_def by blast
    ultimately show False using zero by simp
  qed
  with ref entry refs show ?thesis by simp
qed

text \<open>
  What is relied on of \<open>pvsnprintf\<close>: if the buffer is too short it returns more than its length,
  and there is a length from which on buffers are long enough.
\<close>

definition pvsnprintf_spec :: "(nat \<Rightarrow> nat) \<Rightarrow> bool" where
  "pvsnprintf_spec f \<longleftrightarrow> (\<forall>len. f len < len \<or> len < f len) \<and> (\<exists>enough. \<forall>len \<ge> enough. f len < len)"

lemma print_loop:
  "(\<forall>len. f len < len \<or> len < f len) \<Longrightarrow> \<forall>len \<ge> enough. f len < len \<Longrightarrow>
   \<exists>len'. ApplockPrintMessage f len = Some len' \<and> len \<le> len' \<and> f len' < len'"
proof (induction "enough - len" arbitrary: len rule: less_induct)
  case less
  show ?case
  proof (cases "f len < len")
    case True
    then show ?thesis by (simp add: ApplockPrintMessage.simps [of f len])
  next
    case False
    then have grow: "len < f len" using less.prems(1) by blast
    have "len < enough" using less.prems(2) False not_le by blast
    then have "enough - f len < enough - len" using grow by simp
    from less.hyps [OF this less.prems] grow False show ?thesis
      by (force simp: ApplockPrintMessage.simps [of f len])
  qed
qed

text \<open>
  C22. Printing a message ends: the loop that enlarges the buffer from 128 bytes on reaches a
  length at which the message fits.
\<close>

theorem ApplockPrintMessage_ends:
  assumes "pvsnprintf_spec f"
  shows "\<exists>len. ApplockPrintMessage f 128 = Some len \<and> 128 \<le> len \<and> f len < len"
  using assms print_loop unfolding pvsnprintf_spec_def by blast

theorem ApplockPrintMessage_ends_witness:
  "pvsnprintf_spec (\<lambda>len. if 200 < len then 200 else 201) \<and>
   (\<exists>len. ApplockPrintMessage (\<lambda>len. if 200 < len then 200 else 201) 128 = Some len \<and> 128 \<le> len)"
proof -
  have "pvsnprintf_spec (\<lambda>len. if 200 < len then 200 else 201)"
    by (auto simp: pvsnprintf_spec_def intro: exI [of _ 201])
  with ApplockPrintMessage_ends [OF this] show ?thesis by blast
qed

end
