(* ===== verification/Spec2Isabelle.thy ===== *)
theory Spec2Isabelle
  imports Prelude Money_IO Money_Cmp Money_Arith SmallMoney Money_Agg DynaVec Iterative_Exec Tds_Comm
    Tds_Bulk_Safety Applock_Locks
begin

text \<open>
  \<^bold>\<open>A verification library for the Babelfish extensions of PostgreSQL.\<close>

  Babelfish lets clients of SQL Server talk to a PostgreSQL server. Its sources under
  \<^verbatim>\<open>src/contrib\<close> are four extensions. \<^verbatim>\<open>babelfishpg_tds\<close> is the listener: it speaks the TDS
  protocol with the client. \<^verbatim>\<open>babelfishpg_tsql\<close> is the language: it parses a T-SQL batch into
  a tree of statements, checks the tree, compiles it into an array of executable nodes and
  runs the array. \<^verbatim>\<open>babelfishpg_money\<close> and \<^verbatim>\<open>babelfishpg_common\<close> provide data types. A
  request goes through them in this order: the listener collects the packets of the request
  into one message, the language compiles and executes it, values are computed by the types,
  and the listener sends the response in packets.

  \<^bold>\<open>The theories.\<close>

  \<^item> \<open>Prelude\<close>. Reports of the server as values (\<open>pg_error\<close>, \<open>'a result\<close>, \<open>ereport\<close>), C
    integers as \<open>int\<close> with ranges and wrap-around (the server is built with \<^verbatim>\<open>-fwrapv\<close>), and
    the lemmas on decimal digits and truncating division the components share.

  \<^item> \<open>Memory\<close>. Bytes, \<open>size_t\<close>, the allocator as a parameter with its documented behaviour
    (\<open>pg_mem_spec\<close>), and buffers whose accesses out of range are the value \<open>Invalid_access\<close>.

  \<^item> \<open>Money_IO\<close>, \<open>Money_Cmp\<close>, \<open>Money_Arith\<close>, \<open>Money_Agg\<close>, \<open>SmallMoney\<close>.
    \<^verbatim>\<open>babelfishpg_money/fixeddecimal.c\<close> and \<^verbatim>\<open>smallmoney.c\<close>: a money value is the number of its
    ten-thousandths in 64 bits. Each operator of the source is one definition of the same
    name; the overflow helpers of the server (\<open>pg_add_s64_overflow\<close> and so on) are a
    parameter with their documented behaviour (\<open>pg_int_spec\<close>). Shown: printing and reading
    are inverse on every value, literals are read to the nearest value, comparisons with
    integers are exact, sums, products and conversions are exact or report, aggregates
    return exact sums, and states survive serialization. The locale \<open>checked_op\<close> is the
    contract of an overflow-checked operator, \<open>cross_cmp\<close> and \<open>index_search\<close> those of a
    family of comparison operators and of its use in an index; all are interpreted on the
    operators of the source.

  \<^item> \<open>DynaVec\<close>. \<^verbatim>\<open>babelfishpg_tsql/src/dynavec.c\<close> and \<^verbatim>\<open>dynastack.c\<close> on the bytes of their
    buffer. The locale \<open>vector\<close> is the contract of a container of elements of one size,
    interpreted on the vector and on the stack: both implement lists.

  \<^item> \<open>Tsql_Ast\<close>, \<open>Analyzer\<close>, \<open>Codegen\<close>, \<open>Iterative_Exec\<close>. The compiler and the executor of
    T-SQL procedures: statement trees (\<^verbatim>\<open>pltsql.h\<close>, \<^verbatim>\<open>pltsql-2.h\<close>, \<^verbatim>\<open>stmt_walker.c\<close>), the checks on
    labels, loops and GOTO (\<^verbatim>\<open>analyzer.c\<close>), the code generator (\<^verbatim>\<open>codegen.c\<close>) and the main loop
    with the error contexts of TRY...CATCH (\<^verbatim>\<open>iterative_exec.c\<close>). \<open>Analyzer\<close> shows which
    procedures are accepted; \<open>Codegen\<close> that code generation never fails on them and that the
    code has a typing: each position is given the TRY...CATCH blocks of the source around it,
    and each instruction respects it; \<open>Iterative_Exec\<close> that the executor keeps its stack of
    contexts equal to those blocks, so that an error continues in the innermost CATCH. The
    locale \<open>typed_compiler\<close> is what the executor relies on, interpreted on the analyzer and
    the code generator. What a single statement does is an event of the step relation: it
    ends, raises an error, or decides a condition.

  \<^item> \<open>Tds_Comm\<close>. \<^verbatim>\<open>babelfishpg_tds/src/backend/tds/tdscomm.c\<close>, the transport: packets with a
    header of eight bytes, a receive and a send buffer. The static variables of the source
    are the record \<open>tds_comm\<close>, which also holds the socket: the bytes to come, the bytes
    written, and for each system call to come whether it is short, interrupted or fails.
    Loops that may not end are \<open>partial_function (option)\<close>, so that running forever is the
    value \<open>None\<close>. Shown: the reader refines a parser of the byte stream (\<open>parse_request\<close>),
    the writer a splitting into packets (\<open>message_bytes\<close>), the two are inverse, no access
    leaves a buffer in any reachable state, and exactly on which input the reader hangs.

  \<^item> \<open>Tds_Bulk\<close>, \<open>Tds_Bulk_Refine\<close>, \<open>Tds_Bulk_Safety\<close>. \<^verbatim>\<open>tdsbulkload.c\<close> on top of the
    transport: the reader of a bulk load as a function on the record \<open>bulk\<close> (the connection,
    the message at hand, the offset and the counters of the batch), which ends in \<open>Ok\<close>, in a
    report raised in a known state (\<open>Raised\<close>) or in one from within the transport (\<open>Lost\<close>).
    The conversions of values and the insertion of rows are parameters (\<open>bulk_env\<close>).
    \<open>Tds_Bulk_Refine\<close> gives the format as a parser of the joined bytes (\<open>metadata_spec\<close>,
    \<open>rows_spec\<close>) and shows that the reader delivers its rows whatever the packets and
    batches. The locale \<open>fetching\<close> is what a parser step relies on when it asks for bytes,
    interpreted on the three macros that fetch packets. Its limits: a bulk load that is kept in one message
    fits into \<open>MaxAllocSize\<close>, packets before the last one have room for the DONE token, and
    the DONE token has at most 13 bytes, as the source says. \<open>Tds_Bulk_Safety\<close> drops these
    limits: for any input no byte outside of the message is read.

  \<^item> \<open>Applock\<close>, \<open>Applock_Caches\<close>, \<open>Applock_Locks\<close>. \<^verbatim>\<open>applock.c\<close> of \<^verbatim>\<open>babelfishpg_tsql\<close>: named
    locks for several sessions. The record \<open>applocks\<close> has the shared cache of keys, the
    sessions with their own caches and the state of the lock manager, which is a parameter
    (\<open>applock_env\<close>). A request is split where it may have to wait (\<open>get_begin\<close>, \<open>get_end\<close>);
    \<open>applock_step\<close> is a step of any session, so that requests, releases and the ends of
    transactions interleave. \<open>Applock_Caches\<close> shows that the keys of names are unique and
    the reference counts right in every state that is reached in fewer than \<open>2 ^ 32\<close> steps,
    the range of a counter; the locale \<open>key_search\<close> is the contract of the two searches.
    \<open>Applock_Locks\<close> states what is relied on of the lock manager (\<open>acquire_spec\<close>,
    \<open>release_spec\<close>, met by \<open>list_manager\<close>) and shows that the code implements a table of names
    (\<open>table_step\<close>) with mutual exclusion, as long as no session uses a name with both owners
    (\<open>one_owner\<close>). It also shows what goes wrong otherwise, for a release of an unknown name,
    for names that end in backquotes, and for an entry deleted between two critical sections
    of one search, which the steps take as one.

  \<^bold>\<open>Conventions.\<close> A definition has the name of the C function it translates; loops and
  branches that are definitions of their own have names that say which part they are. A
  report that leaves the function (\<open>ERROR\<close>, \<open>FATAL\<close>) is a value \<open>Inl\<close>, its message the
  format string of the source. No fuel is used: recursion is structural, has a measure, or
  is partial with the possible failure to return visible in the result. Bounds that appear
  as hypotheses are those of the source: 64-bit values, packet sizes of 512 to 32767, code
  positions that fit an \<open>int\<close>.

  \<^bold>\<open>Not modelled.\<close> The statements of a procedure and everything that runs SQL
  (\<^verbatim>\<open>pl_exec.c\<close>, \<^verbatim>\<open>pl_handler.c\<close>, \<^verbatim>\<open>hooks.c\<close>, \<^verbatim>\<open>procedures.c\<close>, catalogs, roles, DDL) are calls
  into the planner, executor and catalogs of the server, whose code is not part of the
  repository. The grammars and the C++ listeners (\<^verbatim>\<open>antlr\<close>, \<^verbatim>\<open>tsqlIface.cpp\<close>) run on the ANTLR
  runtime. Collations, encodings and numeric values are computed by ICU and the server. TLS
  is OpenSSL. The floating-point operators of the types are left out because HOL has no
  IEEE arithmetic of the machine. Of the parts that are modelled, memory contexts, tracing,
  log messages, messages to the client, stack-depth limits and the state of transactions are
  left out; so is the size of the hash tables of \<^verbatim>\<open>applock.c\<close>.
\<close>

end
